theory Spec2Isabelle
  imports Main
begin

section \<open>The document tree the engine works on\<close>

text \<open>
  IceCap (src/IceCap.js) keeps a cheerio selection in \<open>_$root\<close> and mutates the tree
  behind it in place. Nodes are shared objects: the list returned by \<open>_nodes\<close> is held
  while the tree changes, \<open>into\<close> hands a node of the live tree to a child engine, and
  \<open>loop\<close> keeps the clones it made while callbacks work on them. The model therefore
  gives every container node an identity (a number) and keeps all trees, attached or
  detached, in one forest; operations address nodes by identity.

  A node is a tag or a root container (cheerio's node of type \<open>root\<close>), with its
  attributes in insertion order and its children, or a text node.
\<close>

type_synonym attrs = "(string \<times> string) list"

datatype node_type = Tag string | Root

datatype node = Node nat node_type attrs "node list" | Text string

fun node_id :: "node \<Rightarrow> nat option" where
  "node_id (Node i k a cs) = Some i"
| "node_id (Text s) = None"

fun is_tag :: "node \<Rightarrow> bool" where
  "is_tag (Node i (Tag t) a cs) = True"
| "is_tag (Node i Root a cs) = False"
| "is_tag (Text s) = False"

fun kids :: "node \<Rightarrow> node list" where
  "kids (Node i k a cs) = cs"
| "kids (Text s) = []"

fun get_attr :: "string \<Rightarrow> node \<Rightarrow> string option" where
  "get_attr key (Node i k a cs) = map_of a key"
| "get_attr key (Text s) = None"

text \<open>Writing a property of a JS object: in place when the key exists, at the end otherwise.\<close>

fun put :: "string \<Rightarrow> string \<Rightarrow> attrs \<Rightarrow> attrs" where
  "put key v [] = [(key, v)]"
| "put key v (p # ps) = (if fst p = key then (key, v) # ps else p # put key v ps)"

fun set_attr :: "string \<Rightarrow> string \<Rightarrow> node \<Rightarrow> node" where
  "set_attr key v (Node i k a cs) = Node i k (put key v a) cs"
| "set_attr key v (Text s) = Text s"

fun remove_attr :: "string \<Rightarrow> node \<Rightarrow> node" where
  "remove_attr key (Node i k a cs) = Node i k (filter (\<lambda>p. fst p \<noteq> key) a) cs"
| "remove_attr key (Text s) = Text s"

fun set_kids :: "node list \<Rightarrow> node \<Rightarrow> node" where
  "set_kids new (Node i k a cs) = Node i k a new"
| "set_kids new (Text s) = Text s"

fun add_kid :: "node \<Rightarrow> node \<Rightarrow> node" where
  "add_kid c (Node i k a cs) = Node i k a (cs @ [c])"
| "add_kid c (Text s) = Text s"

text \<open>The node with a given identity, searched through a forest in document order.\<close>

fun lookup1 :: "nat \<Rightarrow> node \<Rightarrow> node option"
  and lookup :: "nat \<Rightarrow> node list \<Rightarrow> node option" where
  "lookup1 n (Text s) = None"
| "lookup1 n (Node i k a cs) = (if i = n then Some (Node i k a cs) else lookup n cs)"
| "lookup n [] = None"
| "lookup n (t # ts) = (case lookup1 n t of Some x \<Rightarrow> Some x | None \<Rightarrow> lookup n ts)"

text \<open>All nodes of a forest in document order (preorder).\<close>

fun subnodes1 :: "node \<Rightarrow> node list"
  and subnodes :: "node list \<Rightarrow> node list" where
  "subnodes1 (Text s) = [Text s]"
| "subnodes1 (Node i k a cs) = Node i k a cs # subnodes cs"
| "subnodes [] = []"
| "subnodes (t # ts) = subnodes1 t @ subnodes ts"

text \<open>
  The ancestors of the node with identity \<open>n\<close>, nearest first; \<open>None\<close> when the
  forest has no such node.
\<close>

fun ancestors1 :: "nat \<Rightarrow> node \<Rightarrow> node list option"
  and ancestors :: "nat \<Rightarrow> node list \<Rightarrow> node list option" where
  "ancestors1 n (Text s) = None"
| "ancestors1 n (Node i k a cs) =
     (if i = n then Some []
      else (case ancestors n cs of None \<Rightarrow> None | Some up \<Rightarrow> Some (up @ [Node i k a cs])))"
| "ancestors n [] = None"
| "ancestors n (t # ts) = (case ancestors1 n t of Some up \<Rightarrow> Some up | None \<Rightarrow> ancestors n ts)"

text \<open>Apply \<open>f\<close> to every node with identity \<open>n\<close> (one node, when identities are unique).\<close>

fun modify1 :: "nat \<Rightarrow> (node \<Rightarrow> node) \<Rightarrow> node \<Rightarrow> node"
  and modify :: "nat \<Rightarrow> (node \<Rightarrow> node) \<Rightarrow> node list \<Rightarrow> node list" where
  "modify1 n f (Text s) = Text s"
| "modify1 n f (Node i k a cs) =
     (if i = n then f (Node i k a (modify n f cs)) else Node i k a (modify n f cs))"
| "modify n f [] = []"
| "modify n f (t # ts) = modify1 n f t # modify n f ts"

text \<open>Take the node with identity \<open>n\<close> out of every child list.\<close>

fun prune1 :: "nat \<Rightarrow> node \<Rightarrow> node"
  and prune :: "nat \<Rightarrow> node list \<Rightarrow> node list" where
  "prune1 n (Text s) = Text s"
| "prune1 n (Node i k a cs) = Node i k a (prune n cs)"
| "prune n [] = []"
| "prune n (t # ts) = (if node_id t = Some n then prune n ts else prune1 n t # prune n ts)"

text \<open>A deep copy with fresh identities, numbered from \<open>k\<close>; returns the next free number.\<close>

fun relabel1 :: "nat \<Rightarrow> node \<Rightarrow> node \<times> nat"
  and relabel :: "nat \<Rightarrow> node list \<Rightarrow> node list \<times> nat" where
  "relabel1 k (Text s) = (Text s, k)"
| "relabel1 k (Node i kd a cs) = (case relabel (Suc k) cs of (cs', k') \<Rightarrow> (Node k kd a cs', k'))"
| "relabel k [] = ([], k)"
| "relabel k (t # ts) =
     (case relabel1 k t of (t', k1) \<Rightarrow> (case relabel k1 ts of (ts', k2) \<Rightarrow> (t' # ts', k2)))"

text \<open>The text of a node: the text nodes below it, concatenated (cheerio's \<open>text()\<close>).\<close>

fun text_of1 :: "node \<Rightarrow> string"
  and text_of :: "node list \<Rightarrow> string" where
  "text_of1 (Text s) = s"
| "text_of1 (Node i k a cs) = text_of cs"
| "text_of [] = []"
| "text_of (t # ts) = text_of1 t @ text_of ts"


section \<open>The world: trees, engines, the debug switch and the events sent\<close>

text \<open>
  JavaScript values that reach the engine: \<open>undefined\<close>, \<open>null\<close>, strings, arrays and
  engine instances (numbers, booleans and other objects are not modelled).
\<close>

datatype jsval = Undefined | Null | Str string | Arr "jsval list" | Ice nat

fun js_falsy :: "jsval \<Rightarrow> bool" where
  "js_falsy Undefined = True"
| "js_falsy Null = True"
| "js_falsy (Str s) = (s = [])"
| "js_falsy (Arr vs) = False"
| "js_falsy (Ice e) = False"

fun join :: "string list \<Rightarrow> string" where
  "join [] = []"
| "join [s] = s"
| "join (s # t # ts) = s @ '','' @ join (t # ts)"

text \<open>JavaScript's conversion to a string (an array joins its elements with commas).\<close>

fun to_string :: "jsval \<Rightarrow> string" where
  "to_string Undefined = ''undefined''"
| "to_string Null = ''null''"
| "to_string (Str s) = s"
| "to_string (Arr vs) =
     join (map (\<lambda>v. if v = Undefined \<or> v = Null then [] else to_string v) vs)"
| "to_string (Ice e) = ''[object Object]''"

text \<open>
  An engine instance: \<open>_$root\<close> (\<open>None\<close> when null or undefined), \<open>_options\<close>,
  \<open>_html\<close> (\<open>None\<close> when undefined) and \<open>_eventbus\<close>.
\<close>

record icecap =
  root :: "nat option"
  autoClose :: bool
  autoDrop :: bool
  html_cache :: "string option"
  eventbus :: "nat option"

text \<open>
  Everything the engines share: the forest of all trees, the next unused node identity,
  the engine instances (an instance is referred to by its position), the static
  \<open>IceCap._debug\<close> and the events triggered so far (bus, event name, message).
\<close>

record world =
  forest :: "node list"
  fresh :: nat
  engines :: "icecap list"
  debug :: bool
  events :: "(nat \<times> string \<times> string) list"

text \<open>
  The errors the source throws, one constructor per message, and the kind the
  specification gives each. \<open>RegExpSyntaxError\<close> is what \<open>new RegExp\<close> throws on a
  malformed pattern, \<open>SelectorSyntaxError\<close> what the provider's \<open>find\<close> throws on a string
  that is no selector, \<open>TypeError\<close> a call on null, \<open>Thrown\<close> an error of a caller's
  callback.
\<close>

datatype error =
    HtmlMustBeSpecified
  | CanNotOperateAfterClose
  | IdMustBeSpecified
  | UnknownMode string
  | ValuesMustBeArray
  | CallbackMustBeFunction
  | UnknownCallback string
  | RegExpSyntaxError
  | SelectorSyntaxError
  | TypeError
  | Thrown string

datatype failure = InvalidArgument | InvalidState | Unclassified

fun failure_of :: "error \<Rightarrow> failure" where
  "failure_of HtmlMustBeSpecified = InvalidArgument"
| "failure_of CanNotOperateAfterClose = InvalidState"
| "failure_of IdMustBeSpecified = InvalidArgument"
| "failure_of (UnknownMode m) = InvalidArgument"
| "failure_of ValuesMustBeArray = InvalidArgument"
| "failure_of CallbackMustBeFunction = InvalidArgument"
| "failure_of (UnknownCallback c) = InvalidArgument"
| "failure_of RegExpSyntaxError = Unclassified"
| "failure_of SelectorSyntaxError = Unclassified"
| "failure_of TypeError = Unclassified"
| "failure_of (Thrown s) = Unclassified"

text \<open>What a method returns: the instance itself, or nothing (\<open>return;\<close>).\<close>

datatype ret = ReturnsThis | ReturnsUndefined

text \<open>
  Modelled from the spec: the DOM provider and the regular expressions of the runtime
  are not part of the repository. \<open>parse\<close> turns markup into trees (the model gives the
  nodes fresh identities), \<open>render\<close> serialises trees, \<open>regexp p\<close> is
  \<open>new RegExp(p, 'g')\<close> as the function that deletes every match from a string, or
  \<open>None\<close> when the pattern is malformed, and \<open>select s\<close> is the test on a tag that the
  provider's selector grammar reads from the string \<open>s\<close>, or \<open>None\<close> when the string is
  no selector.
\<close>

record provider =
  parse :: "string \<Rightarrow> node list"
  render :: "node list \<Rightarrow> string"
  regexp :: "string \<Rightarrow> (string \<Rightarrow> string) option"
  select :: "string \<Rightarrow> (node \<Rightarrow> bool) option"

subsection \<open>The provider's operations on the forest\<close>

definition children_of :: "nat \<Rightarrow> node list \<Rightarrow> node list" where
  "children_of n f = (case lookup n f of None \<Rightarrow> [] | Some t \<Rightarrow> kids t)"

text \<open>
  Modelled from the spec: \<open>node.query(attributeSelector)\<close>, cheerio's \<open>find\<close>: the tags
  below \<open>r\<close> that satisfy the selector, in document order.
\<close>

definition find_ids :: "nat \<Rightarrow> (node \<Rightarrow> bool) \<Rightarrow> node list \<Rightarrow> nat list" where
  "find_ids r sel f =
     List.map_filter (\<lambda>x. if is_tag x \<and> sel x then node_id x else None)
       (subnodes (children_of r f))"

text \<open>
  The two attribute tests: a tag whose \<open>data-ice\<close> attribute is the given string, and a
  tag that has a \<open>data-ice-loaded\<close> attribute (the constant selector
  \<open>[data-ice-loaded]\<close> of the source).
\<close>

definition data_ice :: "string \<Rightarrow> node \<Rightarrow> bool" where
  "data_ice ident x = (get_attr ''data-ice'' x = Some ident)"

definition data_ice_loaded :: "node \<Rightarrow> bool" where
  "data_ice_loaded x = (get_attr ''data-ice-loaded'' x \<noteq> None)"

text \<open>
  The selector string that \<open>_nodes\<close> builds, \<open>`[data-ice="${id}"]`\<close>: the id is spliced
  between the two double quotes as it is, nothing in it is escaped.
\<close>

definition selector :: "string \<Rightarrow> string" where
  "selector ident = ''[data-ice='' @ [CHR 0x22] @ ident @ [CHR 0x22] @ '']''"

text \<open>
  An id that stays inside the quotes: it has no double quote, which would end the quoted
  value before the end of the id, and no backslash, which would escape what follows it.
\<close>

definition plain_id :: "string \<Rightarrow> bool" where
  "plain_id ident = (CHR 0x22 \<notin> set ident \<and> CHR 0x5C \<notin> set ident)"

text \<open>
  Modelled from the spec: what the provider makes of the selector string. For a plain id
  the string is an attribute selector with the id as its quoted value, the test
  \<open>data_ice\<close>. For any other id the string is whatever the provider's selector grammar
  reads it as, a selector other than the one meant, or no selector at all.
\<close>

definition query :: "provider \<Rightarrow> string \<Rightarrow> (node \<Rightarrow> bool) option" where
  "query P ident =
     (if plain_id ident then Some (data_ice ident) else select P (selector ident))"

text \<open>\<open>node.parents(selector)\<close>: the ancestor tags that satisfy the selector.\<close>

definition parents :: "nat \<Rightarrow> (node \<Rightarrow> bool) \<Rightarrow> node list \<Rightarrow> node list" where
  "parents n sel f =
     (case ancestors n f of None \<Rightarrow> [] | Some up \<Rightarrow> filter (\<lambda>x. is_tag x \<and> sel x) up)"

text \<open>
  \<open>node.parent()\<close>: the parent when it is a tag; empty for a node directly below a root
  container and for a detached node.
\<close>

definition parent :: "nat \<Rightarrow> node list \<Rightarrow> nat option" where
  "parent n f =
     (case ancestors n f of
        None \<Rightarrow> None
      | Some [] \<Rightarrow> None
      | Some (x # up) \<Rightarrow> (if is_tag x then node_id x else None))"

text \<open>
  \<open>node.remove()\<close>: the node is taken out of its parent's children and lives on as a
  detached tree of the forest; a node without parent remains a detached tree.
\<close>

definition detach :: "nat \<Rightarrow> node list \<Rightarrow> node list" where
  "detach n f = (case lookup n f of None \<Rightarrow> f | Some t \<Rightarrow> prune n f @ [prune1 n t])"

text \<open>Setting the content of a node: the old children are detached, the new ones put in.\<close>

definition replace_kids :: "nat \<Rightarrow> node list \<Rightarrow> node list \<Rightarrow> node list" where
  "replace_kids n new f = modify n (set_kids new) f @ children_of n f"

text \<open>
  \<open>container.append(nodes)\<close>: each node leaves the place it had and becomes the last
  child of the container.
\<close>

definition move_into :: "nat \<Rightarrow> nat \<Rightarrow> node list \<Rightarrow> node list" where
  "move_into target n f =
     (case lookup n f of None \<Rightarrow> f | Some t \<Rightarrow> modify target (add_kid t) (prune n f))"

definition append_nodes :: "nat \<Rightarrow> nat list \<Rightarrow> node list \<Rightarrow> node list" where
  "append_nodes target ns f = fold (move_into target) ns f"

text \<open>\<open>cheerio.load(markup).root()\<close>: a new root container over the parsed markup.\<close>

definition load_root :: "provider \<Rightarrow> string \<Rightarrow> world \<Rightarrow> nat \<times> world" where
  "load_root P markup w =
     (case relabel (Suc (fresh w)) (parse P markup) of
        (ns, k) \<Rightarrow>
          (fresh w, w\<lparr>forest := forest w @ [Node (fresh w) Root [] ns], fresh := k\<rparr>))"

text \<open>\<open>node.clone()\<close>: a detached deep copy.\<close>

definition clone :: "nat \<Rightarrow> world \<Rightarrow> nat \<times> world" where
  "clone n w =
     (case lookup n (forest w) of
        None \<Rightarrow> (fresh w, w\<lparr>fresh := Suc (fresh w)\<rparr>)
      | Some t \<Rightarrow>
          (case relabel1 (fresh w) t of
             (t', k) \<Rightarrow> (fresh w, w\<lparr>forest := forest w @ [t'], fresh := k\<rparr>)))"

definition remove_all :: "nat list \<Rightarrow> world \<Rightarrow> world" where
  "remove_all ns w = w\<lparr>forest := fold detach ns (forest w)\<rparr>"

definition set_text :: "nat \<Rightarrow> string \<Rightarrow> world \<Rightarrow> world" where
  "set_text n s w = w\<lparr>forest := replace_kids n [Text s] (forest w)\<rparr>"

definition set_html :: "provider \<Rightarrow> nat \<Rightarrow> string \<Rightarrow> world \<Rightarrow> world" where
  "set_html P n s w =
     (case relabel (fresh w) (parse P s) of
        (ns, k) \<Rightarrow> w\<lparr>forest := replace_kids n ns (forest w), fresh := k\<rparr>)"

definition write_attr :: "nat \<Rightarrow> string \<Rightarrow> string \<Rightarrow> world \<Rightarrow> world" where
  "write_attr n key v w = w\<lparr>forest := modify n (set_attr key v) (forest w)\<rparr>"

definition read_attr :: "nat \<Rightarrow> string \<Rightarrow> world \<Rightarrow> string option" where
  "read_attr n key w = (case lookup n (forest w) of None \<Rightarrow> None | Some t \<Rightarrow> get_attr key t)"

definition read_text :: "nat \<Rightarrow> world \<Rightarrow> string" where
  "read_text n w = text_of (children_of n (forest w))"

definition read_html :: "provider \<Rightarrow> nat \<Rightarrow> world \<Rightarrow> string" where
  "read_html P n w = render P (children_of n (forest w))"

definition trigger :: "nat \<Rightarrow> string \<Rightarrow> string \<Rightarrow> world \<Rightarrow> world" where
  "trigger bus name msg w = w\<lparr>events := events w @ [(bus, name, msg)]\<rparr>"


section \<open>The engine (class IceCap)\<close>

text \<open>
  A method takes the instance it is called on (\<open>this\<close>) and the world, and returns what
  the call returns, or the error it throws, with the world as the call left it.
\<close>

type_synonym 'a outcome = "(error + 'a) \<times> world"

subsection \<open>The constructor\<close>

text \<open>
  The \<open>html\<close> argument: absent (\<open>undefined\<close> or \<open>null\<close>), a string, a cheerio selection
  (it has \<open>find\<close>), or any other value without \<open>find\<close>: a truthy one (\<open>Foreign True\<close>)
  such as a non-zero number, \<open>true\<close> or an engine instance, or a falsy one
  (\<open>Foreign False\<close>) such as \<open>0\<close>, \<open>false\<close> or \<open>NaN\<close>.
\<close>

datatype source = Absent | Markup string | Parsed nat | Foreign bool

fun source_falsy :: "source \<Rightarrow> bool" where
  "source_falsy Absent = True"
| "source_falsy (Markup s) = (s = [])"
| "source_falsy (Parsed n) = False"
| "source_falsy (Foreign truthy) = (\<not> truthy)"

text \<open>
  The options argument is absent, or an object whose two properties may each be
  absent; the defaults are \<open>true\<close>.
\<close>

definition option_or_true :: "bool option \<Rightarrow> bool" where
  "option_or_true b = (case b of None \<Rightarrow> True | Some x \<Rightarrow> x)"

definition constructor ::
  "provider \<Rightarrow> source \<Rightarrow> (bool option \<times> bool option) option \<Rightarrow> nat option \<Rightarrow> world
    \<Rightarrow> nat outcome" where
  "constructor P html opts bus w =
     (if source_falsy html then (Inl HtmlMustBeSpecified, w)
      else
        (case (case html of
                 Markup s \<Rightarrow> (case load_root P s w of (r, w1) \<Rightarrow> (Some r, w1))
               | Parsed n \<Rightarrow> (Some n, w)
               | Absent \<Rightarrow> (None, w)
               | Foreign truthy \<Rightarrow> (None, w)) of
           (r, w1) \<Rightarrow>
             (Inr (length (engines w1)),
              w1\<lparr>engines := engines w1 @
                [\<lparr>root = r,
                  autoClose = (case opts of None \<Rightarrow> True | Some o2 \<Rightarrow> option_or_true (fst o2)),
                  autoDrop = (case opts of None \<Rightarrow> True | Some o2 \<Rightarrow> option_or_true (snd o2)),
                  html_cache = None,
                  eventbus = bus\<rparr>]\<rparr>)))"

text \<open>
  The instance behind a reference. The constructor is the only source of references, so
  every reference a caller holds is a position in the list; the model reads any other
  number as an instance without root and without output.
\<close>

definition engine :: "world \<Rightarrow> nat \<Rightarrow> icecap" where
  "engine w this =
     (if this < length (engines w) then engines w ! this
      else \<lparr>root = None, autoClose = True, autoDrop = True, html_cache = None,
            eventbus = None\<rparr>)"

definition set_engine :: "nat \<Rightarrow> icecap \<Rightarrow> world \<Rightarrow> world" where
  "set_engine this e w = w\<lparr>engines := (engines w)[this := e]\<rparr>"

subsection \<open>Marker resolution: \<open>_filter\<close> and \<open>_nodes\<close>\<close>

text \<open>The loop of \<open>_filter\<close>, with its \<open>results\<close> array.\<close>

fun filter_loop :: "node list \<Rightarrow> nat list \<Rightarrow> nat list \<Rightarrow> nat list" where
  "filter_loop f [] results = results"
| "filter_loop f (n # ns) results =
     filter_loop f ns
       (if length (parents n data_ice_loaded f) = 0 then results @ [n] else results)"

definition filter_ice :: "node list \<Rightarrow> nat list \<Rightarrow> nat list" where
  "filter_ice f ns = filter_loop f ns []"

definition nodes :: "provider \<Rightarrow> nat \<Rightarrow> string \<Rightarrow> world \<Rightarrow> (nat list) outcome" where
  "nodes P this ident w =
     (case root (engine w this) of
        None \<Rightarrow> (Inl CanNotOperateAfterClose, w)
      | Some r \<Rightarrow>
          if ident = [] then (Inl IdMustBeSpecified, w)
          else
            (case query P ident of
               None \<Rightarrow> (Inl SelectorSyntaxError, w)
             | Some sel \<Rightarrow>
                 (let found = find_ids r sel (forest w);
                      filtered = filter_ice (forest w) found
                  in (Inr filtered,
                      (case eventbus (engine w this) of
                         None \<Rightarrow> w
                       | Some bus \<Rightarrow>
                           if length filtered = 0 \<and> debug w
                           then trigger bus ''log:debug'' (''node not found. id = '' @ ident) w
                           else w)))))"

subsection \<open>The write modes\<close>

text \<open>A mode argument left out takes the default \<open>MODE_APPEND\<close>.\<close>

definition mode_or_default :: "string option \<Rightarrow> string" where
  "mode_or_default mode = (case mode of None \<Rightarrow> ''append'' | Some m \<Rightarrow> m)"

text \<open>
  The \<open>switch (mode)\<close> of \<open>attr\<close> and \<open>text\<close> (the two are the same), in the order of
  its cases. The value is a string where it is used as one.
\<close>

definition transform :: "provider \<Rightarrow> string \<Rightarrow> string \<Rightarrow> string \<Rightarrow> error + string" where
  "transform P mode currentValue v =
     (if mode = ''write'' then Inr v
      else if mode = ''append'' then Inr (currentValue @ v)
      else if mode = ''remove'' then
        (case regexp P v of None \<Rightarrow> Inl RegExpSyntaxError | Some del \<Rightarrow> Inr (del currentValue))
      else if mode = ''prepend'' then Inr (v @ currentValue)
      else Inl (UnknownMode mode))"

text \<open>\<open>if (value === null || value === undefined) { value = ''; }\<close>\<close>

definition normalize_value :: "jsval \<Rightarrow> jsval" where
  "normalize_value v = (if v = Null \<or> v = Undefined then Str [] else v)"

subsection \<open>\<open>attr\<close>\<close>

fun attr_loop ::
  "provider \<Rightarrow> string \<Rightarrow> string \<Rightarrow> jsval \<Rightarrow> nat list \<Rightarrow> world \<Rightarrow> unit outcome" where
  "attr_loop P mode key v [] w = (Inr (), w)"
| "attr_loop P mode key v (n # ns) w =
     (case transform P mode (case read_attr n key w of None \<Rightarrow> [] | Some c \<Rightarrow> c) (to_string v) of
        Inl e \<Rightarrow> (Inl e, w)
      | Inr t \<Rightarrow> attr_loop P mode key v ns (write_attr n key t w))"

definition attr ::
  "provider \<Rightarrow> nat \<Rightarrow> string \<Rightarrow> string \<Rightarrow> jsval \<Rightarrow> string option \<Rightarrow> world \<Rightarrow> ret outcome" where
  "attr P this ident key v mode w =
     (case nodes P this ident w of
        (Inl e, w1) \<Rightarrow> (Inl e, w1)
      | (Inr ns, w1) \<Rightarrow>
          (case attr_loop P (mode_or_default mode) key (normalize_value v) ns w1 of
             (Inl e, w2) \<Rightarrow> (Inl e, w2)
           | (Inr u, w2) \<Rightarrow> (Inr ReturnsThis, w2)))"

subsection \<open>\<open>close\<close>, \<open>_takeHTML\<close> and the getter \<open>html\<close>\<close>

definition takeHTML :: "provider \<Rightarrow> nat \<Rightarrow> world \<Rightarrow> string \<times> world" where
  "takeHTML P r w =
     (let loadedNodes = find_ids r data_ice_loaded (forest w);
          w1 = w\<lparr>forest := fold (\<lambda>n. modify n (remove_attr ''data-ice-loaded'')) loadedNodes (forest w)\<rparr>;
          html = read_html P r w1
      in (html, fold (\<lambda>n. write_attr n ''data-ice-loaded'' ''1'') loadedNodes w1))"

definition close :: "provider \<Rightarrow> nat \<Rightarrow> world \<Rightarrow> ret \<times> world" where
  "close P this w =
     (case root (engine w this) of
        None \<Rightarrow> (ReturnsThis, w)
      | Some r \<Rightarrow>
          (case takeHTML P r w of
             (h, w1) \<Rightarrow>
               (ReturnsThis,
                set_engine this ((engine w1 this)\<lparr>html_cache := Some h, root := None\<rparr>) w1)))"

definition html :: "provider \<Rightarrow> nat \<Rightarrow> world \<Rightarrow> string option \<times> world" where
  "html P this w =
     (case root (engine w this) of
        None \<Rightarrow> (html_cache (engine w this), w)
      | Some r \<Rightarrow>
          (case takeHTML P r w of
             (h, w1) \<Rightarrow>
               (let w2 = set_engine this ((engine w1 this)\<lparr>html_cache := Some h\<rparr>) w1;
                    w3 = (if autoClose (engine w2 this) then snd (close P this w2) else w2)
                in (html_cache (engine w3 this), w3))))"

subsection \<open>\<open>drop\<close>\<close>

definition drop_ice :: "provider \<Rightarrow> nat \<Rightarrow> string \<Rightarrow> bool \<Rightarrow> world \<Rightarrow> ret outcome" where
  "drop_ice P this ident isDrop w =
     (if \<not> isDrop then (Inr ReturnsUndefined, w)
      else
        (case nodes P this ident w of
           (Inl e, w1) \<Rightarrow> (Inl e, w1)
         | (Inr ns, w1) \<Rightarrow> (Inr ReturnsThis, remove_all ns w1)))"

subsection \<open>\<open>text\<close>\<close>

fun text_loop :: "provider \<Rightarrow> string \<Rightarrow> jsval \<Rightarrow> nat list \<Rightarrow> world \<Rightarrow> unit outcome" where
  "text_loop P mode v [] w = (Inr (), w)"
| "text_loop P mode v (n # ns) w =
     (case transform P mode (read_text n w) (to_string v) of
        Inl e \<Rightarrow> (Inl e, w)
      | Inr t \<Rightarrow> text_loop P mode v ns (set_text n t w))"

definition text_ice ::
  "provider \<Rightarrow> nat \<Rightarrow> string \<Rightarrow> jsval \<Rightarrow> string option \<Rightarrow> world \<Rightarrow> ret outcome" where
  "text_ice P this ident v mode w =
     (case nodes P this ident w of
        (Inl e, w1) \<Rightarrow> (Inl e, w1)
      | (Inr ns, w1) \<Rightarrow>
          if autoDrop (engine w1 this) \<and> js_falsy v then (Inr ReturnsUndefined, remove_all ns w1)
          else
            (case text_loop P (mode_or_default mode) (normalize_value v) ns w1 of
               (Inl e, w2) \<Rightarrow> (Inl e, w2)
             | (Inr u, w2) \<Rightarrow> (Inr ReturnsThis, w2)))"


subsection \<open>\<open>load\<close>\<close>

text \<open>
  The markup to load: the output of another engine, read through its getter, or the
  string form of a truthy value, or the empty string.
\<close>

definition load_source :: "provider \<Rightarrow> jsval \<Rightarrow> world \<Rightarrow> string option \<times> world" where
  "load_source P ice w =
     (case ice of
        Ice other \<Rightarrow> html P other w
      | Undefined \<Rightarrow> (Some [], w)
      | Null \<Rightarrow> (Some [], w)
      | Str s \<Rightarrow> (Some s, w)
      | Arr vs \<Rightarrow> (Some (to_string (Arr vs)), w))"

text \<open>
  The loop of \<open>load\<close> with its own \<open>switch (mode)\<close>. The markup is \<open>None\<close> when the
  other engine's getter returned \<open>undefined\<close>: concatenation then writes the word
  \<open>undefined\<close>, \<open>new RegExp(undefined, 'g')\<close> is the empty pattern, and
  \<open>node.html(undefined)\<close> reads instead of writing.
\<close>

definition markup_text :: "string option \<Rightarrow> string" where
  "markup_text h = (case h of None \<Rightarrow> ''undefined'' | Some s \<Rightarrow> s)"

definition markup_pattern :: "string option \<Rightarrow> string" where
  "markup_pattern h = (case h of None \<Rightarrow> [] | Some s \<Rightarrow> s)"

fun load_loop ::
  "provider \<Rightarrow> string \<Rightarrow> string option \<Rightarrow> nat list \<Rightarrow> world \<Rightarrow> unit outcome" where
  "load_loop P mode h [] w = (Inr (), w)"
| "load_loop P mode h (n # ns) w =
     (if mode = ''write'' then
        load_loop P mode h ns
          (case h of None \<Rightarrow> set_text n [] w | Some s \<Rightarrow> set_html P n s (set_text n [] w))
      else if mode = ''append'' then
        load_loop P mode h ns (set_html P n (read_html P n w @ markup_text h) w)
      else if mode = ''remove'' then
        (case regexp P (markup_pattern h) of
           None \<Rightarrow> (Inl RegExpSyntaxError, w)
         | Some del \<Rightarrow> load_loop P mode h ns (set_html P n (del (read_html P n w)) w))
      else if mode = ''prepend'' then
        load_loop P mode h ns (set_html P n (markup_text h @ read_html P n w) w)
      else (Inl (UnknownMode mode), w))"

definition flag_loaded :: "nat list \<Rightarrow> world \<Rightarrow> world" where
  "flag_loaded ns w = fold (\<lambda>n. write_attr n ''data-ice-loaded'' ''1'') ns w"

definition load ::
  "provider \<Rightarrow> nat \<Rightarrow> string \<Rightarrow> jsval \<Rightarrow> string option \<Rightarrow> world \<Rightarrow> ret outcome" where
  "load P this ident ice mode w =
     (case load_source P ice w of
        (h, w0) \<Rightarrow>
          (case nodes P this ident w0 of
             (Inl e, w1) \<Rightarrow> (Inl e, w1)
           | (Inr ns, w1) \<Rightarrow>
               if autoDrop (engine w1 this) \<and> (h = None \<or> h = Some [])
               then (Inr ReturnsUndefined, remove_all ns w1)
               else
                 (case load_loop P (mode_or_default mode) h ns (flag_loaded ns w1) of
                    (Inl e, w2) \<Rightarrow> (Inl e, w2)
                  | (Inr u, w2) \<Rightarrow> (Inr ReturnsThis, w2))))"

subsection \<open>\<open>loop\<close>\<close>

text \<open>
  A callback of \<open>loop\<close> is a function of the index, the value and the child engine, and
  may do to the world what it likes; or a string; or something that is neither.
\<close>

type_synonym loop_fn = "nat \<Rightarrow> jsval \<Rightarrow> nat \<Rightarrow> world \<Rightarrow> unit outcome"

datatype callback = Fn loop_fn | Name string | NotCallable

definition text_shorthand :: "provider \<Rightarrow> string \<Rightarrow> loop_fn" where
  "text_shorthand P ident =
     (\<lambda>i v ice w. case text_ice P ice ident v None w of
                    (Inl e, w1) \<Rightarrow> (Inl e, w1)
                  | (Inr r, w1) \<Rightarrow> (Inr (), w1))"

definition load_shorthand :: "provider \<Rightarrow> string \<Rightarrow> loop_fn" where
  "load_shorthand P ident =
     (\<lambda>i v ice w. case load P ice ident v None w of
                    (Inl e, w1) \<Rightarrow> (Inl e, w1)
                  | (Inr r, w1) \<Rightarrow> (Inr (), w1))"

text \<open>The checks on \<open>callback\<close>, in the order of the source.\<close>

definition resolve_callback :: "provider \<Rightarrow> string \<Rightarrow> callback \<Rightarrow> error + loop_fn" where
  "resolve_callback P ident callback =
     (case callback of
        NotCallable \<Rightarrow> Inl CallbackMustBeFunction
      | Fn f \<Rightarrow> Inr f
      | Name s \<Rightarrow>
          if s = ''text'' then Inr (text_shorthand P ident)
          else if s = ''html'' then Inr (load_shorthand P ident)
          else Inl (UnknownCallback s))"

text \<open>
  The inner loop over the values, from index \<open>j\<close>, for one marker node: a throw-away
  root container (\<open>parent\<close> in the source, \<open>holder\<close> here), a clone of the node put into it, a text node holding a line break, and a
  child engine over the container, handed to the callback.
\<close>

fun loop_items ::
  "provider \<Rightarrow> loop_fn \<Rightarrow> nat \<Rightarrow> nat \<Rightarrow> jsval list \<Rightarrow> nat list \<Rightarrow> world
    \<Rightarrow> (nat list) outcome" where
  "loop_items P cb node j [] results w = (Inr results, w)"
| "loop_items P cb node j (v # vs) results w =
     (case load_root P ''<div/>'' w of
        (holder, w1) \<Rightarrow>
     (case clone node w1 of
        (clonedNode, w2) \<Rightarrow>
     (case load_root P [CHR 0x0A] w2 of
        (textNode, w3) \<Rightarrow>
     (case constructor P (Parsed holder) None None
             (w3\<lparr>forest := append_nodes holder [clonedNode] (forest w3)\<rparr>) of
        (Inl e, w4) \<Rightarrow> (Inl e, w4)
      | (Inr ice, w4) \<Rightarrow>
          (case cb j v ice w4 of
             (Inl e, w5) \<Rightarrow> (Inl e, w5)
           | (Inr u, w5) \<Rightarrow>
               loop_items P cb node (Suc j) vs (results @ [clonedNode, textNode]) w5)))))"

text \<open>The outer loop over the marker nodes.\<close>

fun loop_nodes ::
  "provider \<Rightarrow> nat \<Rightarrow> loop_fn \<Rightarrow> jsval list \<Rightarrow> nat list \<Rightarrow> world \<Rightarrow> unit outcome" where
  "loop_nodes P this cb vs [] w = (Inr (), w)"
| "loop_nodes P this cb vs (node # ns) w =
     (case loop_items P cb node 0 vs [] w of
        (Inl e, w1) \<Rightarrow> (Inl e, w1)
      | (Inr results, w1) \<Rightarrow>
          (case parent node (forest w1) of
             Some p \<Rightarrow>
               loop_nodes P this cb vs ns
                 (remove_all [node] (w1\<lparr>forest := append_nodes p results (forest w1)\<rparr>))
           | None \<Rightarrow>
               (case root (engine w1 this) of
                  None \<Rightarrow> (Inl TypeError, w1)
                | Some r \<Rightarrow>
                    loop_nodes P this cb vs ns
                      (remove_all [node] (w1\<lparr>forest := append_nodes r results (forest w1)\<rparr>)))))"

definition loop ::
  "provider \<Rightarrow> nat \<Rightarrow> string \<Rightarrow> jsval \<Rightarrow> callback \<Rightarrow> world \<Rightarrow> ret outcome" where
  "loop P this ident values callback w =
     (case values of
        Arr vs \<Rightarrow>
          (case resolve_callback P ident callback of
             Inl e \<Rightarrow> (Inl e, w)
           | Inr cb \<Rightarrow>
               (case nodes P this ident w of
                  (Inl e, w1) \<Rightarrow> (Inl e, w1)
                | (Inr ns, w1) \<Rightarrow>
                    if length vs = 0 then (Inr ReturnsUndefined, remove_all ns w1)
                    else
                      (case loop_nodes P this cb vs ns w1 of
                         (Inl e, w2) \<Rightarrow> (Inl e, w2)
                       | (Inr u, w2) \<Rightarrow> (Inr ReturnsThis, w2))))
      | Undefined \<Rightarrow> (Inl ValuesMustBeArray, w)
      | Null \<Rightarrow> (Inl ValuesMustBeArray, w)
      | Str s \<Rightarrow> (Inl ValuesMustBeArray, w)
      | Ice e \<Rightarrow> (Inl ValuesMustBeArray, w))"

subsection \<open>\<open>into\<close>\<close>

type_synonym into_fn = "jsval \<Rightarrow> nat \<Rightarrow> world \<Rightarrow> unit outcome"

datatype into_callback = IntoFn into_fn | NotFunction

fun into_loop :: "provider \<Rightarrow> into_fn \<Rightarrow> jsval \<Rightarrow> nat list \<Rightarrow> world \<Rightarrow> unit outcome" where
  "into_loop P cb v [] w = (Inr (), w)"
| "into_loop P cb v (node # ns) w =
     (case constructor P (Parsed node) None None w of
        (Inl e, w1) \<Rightarrow> (Inl e, w1)
      | (Inr ice, w1) \<Rightarrow>
          (case cb v ice w1 of
             (Inl e, w2) \<Rightarrow> (Inl e, w2)
           | (Inr u, w2) \<Rightarrow> into_loop P cb v ns w2))"

definition into ::
  "provider \<Rightarrow> nat \<Rightarrow> string \<Rightarrow> jsval \<Rightarrow> into_callback \<Rightarrow> world \<Rightarrow> ret outcome" where
  "into P this ident v callback w =
     (case nodes P this ident w of
        (Inl e, w1) \<Rightarrow> (Inl e, w1)
      | (Inr ns, w1) \<Rightarrow>
          if v = Str [] \<or> v = Null \<or> v = Undefined then (Inr ReturnsUndefined, remove_all ns w1)
          else if v = Arr [] then (Inr ReturnsUndefined, remove_all ns w1)
          else
            (case callback of
               NotFunction \<Rightarrow> (Inl CallbackMustBeFunction, w1)
             | IntoFn cb \<Rightarrow>
                 (case into_loop P cb v ns w1 of
                    (Inl e, w2) \<Rightarrow> (Inl e, w2)
                  | (Inr u, w2) \<Rightarrow> (Inr ReturnsThis, w2))))"


section \<open>Observing the child engines\<close>

text \<open>
  \<open>loop\<close> and \<open>into\<close> make their child engines with \<open>new IceCap(node)\<close>: no options, no
  event bus. A child with the defaults is an engine of the world with both options on
  and no bus; a checked callback refuses to run on anything else.
\<close>

definition default_child :: "world \<Rightarrow> nat \<Rightarrow> bool" where
  "default_child w ice =
     (ice < length (engines w) \<and> autoClose (engine w ice) \<and> autoDrop (engine w ice)
      \<and> eventbus (engine w ice) = None)"

text \<open>
  In the words of the specification: a child over a node has both options on, no log
  sink and no output yet.
\<close>

definition child_over :: "nat \<Rightarrow> icecap" where
  "child_over n =
     \<lparr>root = Some n, autoClose = True, autoDrop = True, html_cache = None, eventbus = None\<rparr>"

definition has_defaults :: "icecap \<Rightarrow> bool" where
  "has_defaults e = (autoClose e \<and> autoDrop e \<and> eventbus e = None)"

definition checked :: "loop_fn \<Rightarrow> loop_fn" where
  "checked cb =
     (\<lambda>j v ice w. if default_child w ice then cb j v ice w
                  else (Inl (Thrown ''not a default child''), w))"

definition checked_into :: "into_fn \<Rightarrow> into_fn" where
  "checked_into cb =
     (\<lambda>v ice w. if default_child w ice then cb v ice w
                else (Inl (Thrown ''not a default child''), w))"


section \<open>Notions of the specification\<close>

text \<open>The identities of all nodes of a forest, and of those that are somebody's child.\<close>

fun ids1 :: "node \<Rightarrow> nat list"
  and ids :: "node list \<Rightarrow> nat list" where
  "ids1 (Text s) = []"
| "ids1 (Node i k a cs) = i # ids cs"
| "ids [] = []"
| "ids (t # ts) = ids1 t @ ids ts"

fun inner :: "node list \<Rightarrow> nat list" where
  "inner [] = []"
| "inner (t # ts) = ids (kids t) @ inner ts"

text \<open>
  Marker resolution in the words of the specification (4.1): the descendants of the root
  that carry \<open>data-ice="id"\<close>, in document order, without those that have an ancestor
  carrying \<open>data-ice-loaded\<close>.
\<close>

definition resolve :: "nat \<Rightarrow> string \<Rightarrow> node list \<Rightarrow> nat list" where
  "resolve r ident f =
     filter (\<lambda>n. parents n data_ice_loaded f = []) (find_ids r (data_ice ident) f)"

text \<open>
  The same read from the top of the forest, without a query and without a look upwards:
  one walk in document order that remembers whether it is below the root of the engine
  (\<open>inside\<close>) and whether a tag above carries \<open>data-ice-loaded\<close> (\<open>blocked\<close>), and
  takes the tags with \<open>data-ice="id"\<close> that are inside and not blocked.
\<close>

definition flagged :: "node \<Rightarrow> bool" where
  "flagged y = (is_tag y \<and> data_ice_loaded y)"

fun below1 :: "nat \<Rightarrow> string \<Rightarrow> bool \<Rightarrow> bool \<Rightarrow> node \<Rightarrow> nat list"
  and below :: "nat \<Rightarrow> string \<Rightarrow> bool \<Rightarrow> bool \<Rightarrow> node list \<Rightarrow> nat list" where
  "below1 r ident inside blocked (Text s) = []"
| "below1 r ident inside blocked (Node i k a cs) =
     (if inside \<and> \<not> blocked \<and> is_tag (Node i k a cs) \<and> data_ice ident (Node i k a cs)
      then [i] else [])
     @ below r ident (inside \<or> i = r) (blocked \<or> flagged (Node i k a cs)) cs"
| "below r ident inside blocked [] = []"
| "below r ident inside blocked (t # ts) =
     below1 r ident inside blocked t @ below r ident inside blocked ts"

definition markers :: "nat \<Rightarrow> string \<Rightarrow> node list \<Rightarrow> nat list" where
  "markers r ident f = below r ident False False f"

text \<open>
  For the comparison of the two: the tags of a list of trees with \<open>data-ice="id"\<close>, in
  document order, and the ancestors of a node within such a list (none for a node that
  is not there).
\<close>

definition matches :: "string \<Rightarrow> node list \<Rightarrow> nat list" where
  "matches ident cs =
     List.map_filter (\<lambda>x. if is_tag x \<and> data_ice ident x then node_id x else None) (subnodes cs)"

definition chain :: "nat \<Rightarrow> node list \<Rightarrow> node list" where
  "chain n cs = (case ancestors n cs of None \<Rightarrow> [] | Some up \<Rightarrow> up)"

text \<open>
  The modes under which the transform yields a value: the three that concatenate, and
  \<open>remove\<close> with a pattern the runtime accepts.
\<close>

definition mode_applies :: "provider \<Rightarrow> string \<Rightarrow> string \<Rightarrow> bool" where
  "mode_applies P mode v =
     (mode = ''write'' \<or> mode = ''append'' \<or> mode = ''prepend''
      \<or> (mode = ''remove'' \<and> regexp P v \<noteq> None))"


text \<open>The same for the \<open>switch\<close> of \<open>load\<close>, whose pattern is the markup.\<close>

definition load_mode_applies :: "provider \<Rightarrow> string \<Rightarrow> string option \<Rightarrow> bool" where
  "load_mode_applies P mode h =
     (mode = ''write'' \<or> mode = ''append'' \<or> mode = ''prepend''
      \<or> (mode = ''remove'' \<and> regexp P (markup_pattern h) \<noteq> None))"


text \<open>
  What the \<open>switch\<close> of \<open>load\<close> computes for a marker with inner markup \<open>currentValue\<close>:
  the markup that \<open>node.html\<close> is then given, or \<open>None\<close> when it is given \<open>undefined\<close>
  (mode \<open>write\<close> with the markup \<open>undefined\<close>) or the \<open>switch\<close> throws.
\<close>

definition load_markup :: "provider \<Rightarrow> string \<Rightarrow> string option \<Rightarrow> string \<Rightarrow> string option" where
  "load_markup P mode h currentValue =
     (if mode = ''write'' then h
      else if mode = ''append'' then Some (currentValue @ markup_text h)
      else if mode = ''remove'' then
        (case regexp P (markup_pattern h) of None \<Rightarrow> None | Some del \<Rightarrow> Some (del currentValue))
      else if mode = ''prepend'' then Some (markup_text h @ currentValue)
      else None)"


section \<open>The setters, and sequences of calls\<close>

text \<open>\<open>set autoClose\<close>, \<open>set autoDrop\<close> and the static \<open>set debug\<close>.\<close>

definition set_autoClose :: "nat \<Rightarrow> bool \<Rightarrow> world \<Rightarrow> world" where
  "set_autoClose this val w = set_engine this ((engine w this)\<lparr>autoClose := val\<rparr>) w"

definition set_autoDrop :: "nat \<Rightarrow> bool \<Rightarrow> world \<Rightarrow> world" where
  "set_autoDrop this val w = set_engine this ((engine w this)\<lparr>autoDrop := val\<rparr>) w"

definition set_debug :: "bool \<Rightarrow> world \<Rightarrow> world" where
  "set_debug v w = w\<lparr>debug := v\<rparr>"

text \<open>
  A call of a public operation. A caller goes on after a call that threw, in the world
  the call left; of what the calls return only the strings read through the getter
  \<open>html\<close> are recorded.
\<close>

datatype call =
    CallNew source "(bool option \<times> bool option) option" "nat option"
  | CallSetAutoClose nat bool
  | CallSetAutoDrop nat bool
  | CallSetDebug bool
  | CallAttr nat string string jsval "string option"
  | CallClose nat
  | CallDrop nat string bool
  | CallHtml nat
  | CallLoad nat string jsval "string option"
  | CallLoop nat string jsval callback
  | CallInto nat string jsval into_callback
  | CallText nat string jsval "string option"

fun perform :: "provider \<Rightarrow> call \<Rightarrow> world \<Rightarrow> string option \<times> world" where
  "perform P (CallNew src opts bus) w = (None, snd (constructor P src opts bus w))"
| "perform P (CallSetAutoClose this val) w = (None, set_autoClose this val w)"
| "perform P (CallSetAutoDrop this val) w = (None, set_autoDrop this val w)"
| "perform P (CallSetDebug v) w = (None, set_debug v w)"
| "perform P (CallAttr this ident key v mode) w = (None, snd (attr P this ident key v mode w))"
| "perform P (CallClose this) w = (None, snd (close P this w))"
| "perform P (CallDrop this ident isDrop) w = (None, snd (drop_ice P this ident isDrop w))"
| "perform P (CallHtml this) w = html P this w"
| "perform P (CallLoad this ident ice mode) w = (None, snd (load P this ident ice mode w))"
| "perform P (CallLoop this ident vs cb) w = (None, snd (loop P this ident vs cb w))"
| "perform P (CallInto this ident v cb) w = (None, snd (into P this ident v cb w))"
| "perform P (CallText this ident v mode) w = (None, snd (text_ice P this ident v mode w))"

fun run :: "provider \<Rightarrow> call list \<Rightarrow> world \<Rightarrow> string list \<times> world" where
  "run P [] w = ([], w)"
| "run P (c # cs) w =
     (case perform P c w of
        (out, w1) \<Rightarrow>
          (case run P cs w1 of
             (outs, w2) \<Rightarrow> ((case out of None \<Rightarrow> [] | Some s \<Rightarrow> [s]) @ outs, w2)))"

text \<open>
  The tags of a forest that carry \<open>data-ice-loaded\<close>; a forest is clean when it has
  none, and a string is a serialisation without the attribute when the provider renders
  it from a clean forest.
\<close>

definition loaded_tags :: "node list \<Rightarrow> nat list" where
  "loaded_tags cs =
     List.map_filter (\<lambda>x. if is_tag x \<and> data_ice_loaded x then node_id x else None)
       (subnodes cs)"

definition clean :: "node list \<Rightarrow> bool" where
  "clean cs = (loaded_tags cs = [])"

definition serialized :: "provider \<Rightarrow> string \<Rightarrow> bool" where
  "serialized P s = (\<exists>cs. clean cs \<and> s = render P cs)"

text \<open>Every cached output is such a string.\<close>

definition caches_clean :: "provider \<Rightarrow> world \<Rightarrow> bool" where
  "caches_clean P w = (\<forall>e\<in>set (engines w). \<forall>s. html_cache e = Some s \<longrightarrow> serialized P s)"

text \<open>
  A caller's callback is arbitrary code; one that stays within the public operations
  keeps the caches as they should be.
\<close>

definition keeps_caches :: "provider \<Rightarrow> (world \<Rightarrow> unit outcome) \<Rightarrow> bool" where
  "keeps_caches P act = (\<forall>w. caches_clean P w \<longrightarrow> caches_clean P (snd (act w)))"

fun callbacks_keep :: "provider \<Rightarrow> call \<Rightarrow> bool" where
  "callbacks_keep P (CallLoop this ident vs (Fn f)) = (\<forall>j v ice. keeps_caches P (f j v ice))"
| "callbacks_keep P (CallInto this ident v (IntoFn g)) = (\<forall>ice. keeps_caches P (g v ice))"
| "callbacks_keep P c = True"


section \<open>Notions for the list expansion\<close>

text \<open>
  The first lines of the body of the inner loop of \<open>loop\<close>, up to the child engine: what
  \<open>loop_items\<close> does for one item before it calls the callback. Returns the clone, the
  text node, the engine (or the constructor's error) and the world.
\<close>

definition prepare ::
  "provider \<Rightarrow> nat \<Rightarrow> world \<Rightarrow> nat \<times> nat \<times> (error + nat) \<times> world" where
  "prepare P node w =
     (case load_root P ''<div/>'' w of
        (holder, w1) \<Rightarrow>
     (case clone node w1 of
        (clonedNode, w2) \<Rightarrow>
     (case load_root P [CHR 0x0A] w2 of
        (textNode, w3) \<Rightarrow>
     (case constructor P (Parsed holder) None None
             (w3\<lparr>forest := append_nodes holder [clonedNode] (forest w3)\<rparr>) of
        (res, w4) \<Rightarrow> (clonedNode, textNode, res, w4)))))"

text \<open>Every identity in use lies below the next unused one.\<close>

definition bounded :: "world \<Rightarrow> bool" where
  "bounded w = (\<forall>i\<in>set (ids (forest w)). i < fresh w)"

text \<open>The identities of the children of a node, in their order (text nodes have none).\<close>

definition kid_ids :: "nat \<Rightarrow> node list \<Rightarrow> nat list" where
  "kid_ids p f = List.map_filter node_id (children_of p f)"

text \<open>The identities in the subtree of a node, the node included.\<close>

definition subtree_ids :: "nat \<Rightarrow> node list \<Rightarrow> nat set" where
  "subtree_ids n f = (case lookup n f of None \<Rightarrow> {} | Some x \<Rightarrow> set (ids1 x))"

definition subtree_ids1 :: "nat \<Rightarrow> node \<Rightarrow> nat set" where
  "subtree_ids1 n t = (case lookup1 n t of None \<Rightarrow> {} | Some x \<Rightarrow> set (ids1 x))"

text \<open>
  Nodes of the forest that lie apart from a container and from each other: the container
  is in none of their subtrees, and none of them is in the subtree of another.
\<close>

definition apart :: "nat \<Rightarrow> nat list \<Rightarrow> node list \<Rightarrow> bool" where
  "apart p rs f =
     (\<forall>r\<in>set rs. r \<in> set (ids f) \<and> p \<notin> subtree_ids r f
        \<and> (\<forall>r'\<in>set rs. r' \<noteq> r \<longrightarrow> r' \<notin> subtree_ids r f))"

text \<open>
  A list of nodes in which nobody comes after a node of its own subtree: ancestors come
  before descendants, as in document order.
\<close>

fun ancestors_first :: "nat list \<Rightarrow> node list \<Rightarrow> bool" where
  "ancestors_first [] f = True"
| "ancestors_first (n # ns) f = ((\<forall>m\<in>set ns. n \<notin> subtree_ids m f) \<and> ancestors_first ns f)"


section \<open>Sample data for the closed examples\<close>

text \<open>
  A small provider: markup is rendered as tags with their attributes, \<open><div/>\<close> parses
  to an empty \<open>div\<close>, any other non-empty string (the examples use plain text only) to a
  text node. Of the patterns it knows the empty one, whose matches are empty, and the
  single lower-case letters; it takes every other pattern, such as \<open>(\<close>, for malformed
  (the examples use no other). Of the selector strings it knows the list
  \<open>[data-ice="x"],ul,[class=""]\<close>; it takes every other string, such as
  \<open>[data-ice="a"],"]\<close>, for no selector (the examples hand it no other).
\<close>

definition injected :: string where
  "injected = ''x'' @ [CHR 0x22] @ ''],ul,[class='' @ [CHR 0x22]"

definition tag_is :: "string \<Rightarrow> node \<Rightarrow> bool" where
  "tag_is t x = (case x of Text s \<Rightarrow> False | Node i k a cs \<Rightarrow> k = Tag t)"

fun show_attrs :: "attrs \<Rightarrow> string" where
  "show_attrs [] = []"
| "show_attrs (p # ps) = '' '' @ fst p @ ''='' @ [CHR 0x22] @ snd p @ [CHR 0x22] @ show_attrs ps"

fun show1 :: "node \<Rightarrow> string"
  and show_nodes :: "node list \<Rightarrow> string" where
  "show1 (Text s) = s"
| "show1 (Node i Root a cs) = show_nodes cs"
| "show1 (Node i (Tag t) a cs) =
     ''<'' @ t @ show_attrs a @ ''>'' @ show_nodes cs @ ''</'' @ t @ ''>''"
| "show_nodes [] = []"
| "show_nodes (t # ts) = show1 t @ show_nodes ts"

definition sample :: provider where
  "sample =
     \<lparr>parse = (\<lambda>s. if s = ''<div/>'' then [Node 0 (Tag ''div'') [] []]
                   else if s = [] then [] else [Text s]),
      render = show_nodes,
      regexp = (\<lambda>p. case p of
                       [] \<Rightarrow> Some (\<lambda>c. c)
                     | [x] \<Rightarrow> if x \<in> set ''abcdefghijklmnopqrstuvwxyz''
                              then Some (filter (\<lambda>c. c \<noteq> x)) else None
                     | x # y # zs \<Rightarrow> None),
      select = (\<lambda>s. if s = selector injected
                    then Some (\<lambda>x. data_ice ''x'' x \<or> tag_is ''ul'' x
                                    \<or> get_attr ''class'' x = Some [])
                    else None)\<rparr>"


text \<open>
  The document \<open><ul><li data-ice="item"></li><li>z</li></ul>\<close> with one open engine
  over it.
\<close>

definition page :: world where
  "page =
     \<lparr>forest =
        [Node 0 Root []
          [Node 1 (Tag ''ul'') []
            [Node 2 (Tag ''li'') [(''data-ice'', ''item'')] [],
             Node 3 (Tag ''li'') [] [Text ''z'']]]],
      fresh = 4,
      engines = [\<lparr>root = Some 0, autoClose = True, autoDrop = True,
                  html_cache = None, eventbus = None\<rparr>],
      debug = False, events = []\<rparr>"

text \<open>The same document after its engine was closed.\<close>

definition shut :: world where
  "shut =
     \<lparr>forest =
        [Node 0 Root []
          [Node 1 (Tag ''ul'') []
            [Node 2 (Tag ''li'') [(''data-ice'', ''item'')] [],
             Node 3 (Tag ''li'') [] [Text ''z'']]]],
      fresh = 4,
      engines = [\<lparr>root = None, autoClose = True, autoDrop = True,
                  html_cache = Some ''<ul><li>z</li></ul>'', eventbus = None\<rparr>],
      debug = False, events = []\<rparr>"

text \<open>
  The same document with an engine that has both options off and an event bus, and
  with debugging on.
\<close>

definition plain :: world where
  "plain =
     \<lparr>forest =
        [Node 0 Root []
          [Node 1 (Tag ''ul'') []
            [Node 2 (Tag ''li'') [(''data-ice'', ''item'')] [],
             Node 3 (Tag ''li'') [] [Text ''z'']]]],
      fresh = 4,
      engines = [\<lparr>root = Some 0, autoClose = False, autoDrop = False,
                  html_cache = None, eventbus = Some 7\<rparr>],
      debug = True, events = []\<rparr>"

text \<open>A callback that writes the index-free value as the class of the marker.\<close>

definition set_class :: loop_fn where
  "set_class =
     (\<lambda>j v ice w. case attr sample ice ''item'' ''class'' v (Some ''write'') w of
                    (Inl e, w1) \<Rightarrow> (Inl e, w1)
                  | (Inr r, w1) \<Rightarrow> (Inr (), w1))"

text \<open>A callback for \<open>into\<close> that writes the value as the text of the markers below.\<close>

definition write_sub :: into_fn where
  "write_sub =
     (\<lambda>v ice w. case text_ice sample ice ''item'' v (Some ''write'') w of
                  (Inl e, w1) \<Rightarrow> (Inl e, w1)
                | (Inr r, w1) \<Rightarrow> (Inr (), w1))"

text \<open>
  A document with a loaded region:
  \<open><div data-ice="box" data-ice-loaded="1"><p data-ice="item">in</p></div><p data-ice="item">out</p>\<close>.
\<close>

definition nested :: world where
  "nested =
     \<lparr>forest =
        [Node 0 Root []
          [Node 1 (Tag ''div'') [(''data-ice'', ''box''), (''data-ice-loaded'', ''1'')]
            [Node 2 (Tag ''p'') [(''data-ice'', ''item'')] [Text ''in'']],
           Node 3 (Tag ''p'') [(''data-ice'', ''item'')] [Text ''out'']]],
      fresh = 4,
      engines = [\<lparr>root = Some 0, autoClose = True, autoDrop = True,
                  html_cache = None, eventbus = None\<rparr>],
      debug = False, events = []\<rparr>"

text \<open>
  A document with markers inside a marker and a marker two levels below a loaded region,
  \<open><div data-ice="item"><span data-ice="item">a</span></div><div data-ice-loaded="1"><div><p data-ice="item">b</p></div></div><p data-ice="item"></p><p data-ice="other"></p>\<close>,
  with one engine over the document and one over the \<open>div\<close> inside the loaded region.
\<close>

definition deep :: world where
  "deep =
     \<lparr>forest =
        [Node 0 Root []
          [Node 1 (Tag ''div'') [(''data-ice'', ''item'')]
            [Node 2 (Tag ''span'') [(''data-ice'', ''item'')] [Text ''a'']],
           Node 3 (Tag ''div'') [(''data-ice-loaded'', ''1'')]
            [Node 4 (Tag ''div'') []
              [Node 5 (Tag ''p'') [(''data-ice'', ''item'')] [Text ''b'']]],
           Node 6 (Tag ''p'') [(''data-ice'', ''item'')] [],
           Node 7 (Tag ''p'') [(''data-ice'', ''other'')] []]],
      fresh = 8,
      engines = [\<lparr>root = Some 0, autoClose = True, autoDrop = True,
                  html_cache = None, eventbus = None\<rparr>,
                 \<lparr>root = Some 4, autoClose = True, autoDrop = True,
                  html_cache = None, eventbus = None\<rparr>],
      debug = False, events = []\<rparr>"

text \<open>
  The list of the sample page after \<open>loop\<close> with the value \<open>a\<close> and the callback
  \<open>set_class\<close>, and \<open>load\<close> of the text \<open>x\<close>, without the loaded flag.
\<close>

definition listing :: "node list" where
  "listing =
     [Node 1 (Tag ''ul'') []
       [Node 3 (Tag ''li'') [] [Text ''z''],
        Node 6 (Tag ''li'') [(''data-ice'', ''item''), (''class'', ''a'')] [Text ''x''],
        Node 7 Root [] [Text [CHR 0x0A]]]]"

definition session :: "call list" where
  "session =
     [CallLoop 0 ''item'' (Arr [Str ''a'']) (Fn set_class),
      CallLoad 0 ''item'' (Str ''x'') None,
      CallHtml 0,
      CallText 0 ''item'' (Str ''y'') None,
      CallHtml 0]"

text \<open>
  The sample page after the inner loop of \<open>loop\<close> ran for its marker with the values
  \<open>a\<close> and \<open>b\<close> and the shorthand \<open>text\<close>, before the clones are put into the list.
\<close>

definition expanded :: world where
  "expanded =
     snd (loop_items sample (text_shorthand sample ''item'') 2 0 [Str ''a'', Str ''b''] [] page)"


section \<open>Properties\<close>

subsection \<open>What the provider's operations leave alone\<close>

lemma engines_write_attr [simp]: "engines (write_attr n key v w) = engines w"
  by (simp add: write_attr_def)

lemma engines_fold_write_attr [simp]:
  "engines (fold (\<lambda>n. write_attr n key v) ns w) = engines w"
  by (induction ns arbitrary: w) simp_all

lemma engines_takeHTML [simp]: "engines (snd (takeHTML P r w)) = engines w"
  by (simp add: takeHTML_def Let_def)

lemma engine_takeHTML [simp]: "engine (snd (takeHTML P r w)) this = engine w this"
  by (simp add: engine_def)

lemma engine_set_engine_other [simp]:
  "other \<noteq> this \<Longrightarrow> engine (set_engine other e w) this = engine w this"
  by (simp add: engine_def set_engine_def)

lemma engine_set_engine_same [simp]:
  "this < length (engines w) \<Longrightarrow> engine (set_engine this e w) this = e"
  by (simp add: engine_def set_engine_def)

subsection \<open>A closed instance\<close>

lemma nodes_closed:
  "root (engine w this) = None \<Longrightarrow> nodes P this ident w = (Inl CanNotOperateAfterClose, w)"
  by (simp add: nodes_def)

lemma html_closed:
  "root (engine w this) = None \<Longrightarrow> html P this w = (html_cache (engine w this), w)"
  by (simp add: html_def)

lemma close_keeps_closed:
  "root (engine w this) = None \<Longrightarrow> root (engine (snd (close P other w)) this) = None"
  apply (cases "other = this")
   apply (simp add: close_def)
  apply (simp add: close_def split: option.splits prod.splits)
  apply (metis engine_takeHTML snd_conv)
  done

lemma html_keeps_closed:
  "root (engine w this) = None \<Longrightarrow> root (engine (snd (html P other w)) this) = None"
  apply (cases "other = this")
   apply (simp add: html_closed)
  apply (simp add: html_def Let_def split: option.splits prod.splits)
  apply (intro allI impI conjI)
   apply (rule close_keeps_closed)
   apply simp
   apply (metis engine_takeHTML snd_conv)
  apply (metis engine_takeHTML snd_conv)
  done

lemma load_source_keeps_closed:
  "root (engine w this) = None \<Longrightarrow> root (engine (snd (load_source P ice w)) this) = None"
  by (cases ice) (simp_all add: load_source_def html_keeps_closed)

lemma load_closed:
  assumes "root (engine w this) = None"
  shows "fst (load P this ident ice mode w) = Inl CanNotOperateAfterClose"
proof -
  obtain h w0 where src: "load_source P ice w = (h, w0)"
    by (cases "load_source P ice w")
  have "root (engine w0 this) = None"
    using load_source_keeps_closed [OF assms, of P ice] src by simp
  then show ?thesis
    by (simp add: load_def src nodes_closed)
qed

text \<open>After \<open>close()\<close> the getter returns the text that \<open>close\<close> took.\<close>

lemma html_after_close:
  assumes "this < length (engines w)" and "root (engine w this) = Some r"
  shows "root (engine (snd (close P this w)) this) = None
    \<and> fst (html P this (snd (close P this w))) = Some (fst (takeHTML P r w))"
proof -
  obtain h w1 where t: "takeHTML P r w = (h, w1)"
    by (cases "takeHTML P r w")
  have len: "this < length (engines w1)"
    using engines_takeHTML [of P r w] assms(1) t by simp
  show ?thesis
    using len by (simp add: close_def assms(2) t html_def)
qed

text \<open>
  C1, as the code has it. On a closed instance (\<open>_$root\<close> is null) \<open>text\<close>, \<open>attr\<close>,
  \<open>load\<close> and \<open>into\<close> fail with the error of kind InvalidState whatever their
  arguments; so does \<open>drop\<close> when \<open>isDrop\<close> is true, and \<open>loop\<close> when \<open>values\<close> is an
  array and the callback is a function or one of the two shorthands. \<open>drop\<close> with
  \<open>isDrop\<close> false returns without failing, and \<open>loop\<close> checks its arguments before the
  state: every value that is no array fails with InvalidArgument. The getter \<open>html\<close>
  returns the cached text and changes nothing.
\<close>

theorem closed_instance_operations:
  assumes "this < length (engines w)" and "root (engine w this) = None"
  shows "text_ice P this ident v mode w = (Inl CanNotOperateAfterClose, w)
    \<and> attr P this ident key v mode w = (Inl CanNotOperateAfterClose, w)
    \<and> fst (load P this ident ice mode w) = Inl CanNotOperateAfterClose
    \<and> into P this ident v icb w = (Inl CanNotOperateAfterClose, w)
    \<and> drop_ice P this ident True w = (Inl CanNotOperateAfterClose, w)
    \<and> loop P this ident (Arr vs) (Fn f) w = (Inl CanNotOperateAfterClose, w)
    \<and> loop P this ident (Arr vs) (Name ''text'') w = (Inl CanNotOperateAfterClose, w)
    \<and> loop P this ident (Arr vs) (Name ''html'') w = (Inl CanNotOperateAfterClose, w)
    \<and> failure_of CanNotOperateAfterClose = InvalidState
    \<and> drop_ice P this ident False w = (Inr ReturnsUndefined, w)
    \<and> ((\<forall>us. vals \<noteq> Arr us) \<longrightarrow> loop P this ident vals cb w = (Inl ValuesMustBeArray, w))
    \<and> failure_of ValuesMustBeArray = InvalidArgument
    \<and> html P this w = (html_cache (engine w this), w)"
proof -
  have l: "(\<forall>us. vals \<noteq> Arr us) \<longrightarrow> loop P this ident vals cb w = (Inl ValuesMustBeArray, w)"
    by (cases vals) (simp_all add: loop_def)
  show ?thesis
    using assms(2) l
    by (simp add: text_ice_def attr_def into_def drop_ice_def loop_def resolve_callback_def
        nodes_closed html_closed load_closed)
qed

theorem closed_instance_operations_witness:
  "0 < length (engines shut) \<and> root (engine shut 0) = None
    \<and> text_ice sample 0 ''item'' (Str ''a'') None shut = (Inl CanNotOperateAfterClose, shut)
    \<and> attr sample 0 ''item'' ''class'' (Str ''a'') None shut = (Inl CanNotOperateAfterClose, shut)
    \<and> fst (load sample 0 ''item'' (Str ''a'') None shut) = Inl CanNotOperateAfterClose
    \<and> into sample 0 ''item'' (Str ''a'') NotFunction shut = (Inl CanNotOperateAfterClose, shut)
    \<and> drop_ice sample 0 ''item'' True shut = (Inl CanNotOperateAfterClose, shut)
    \<and> loop sample 0 ''item'' (Arr [Str ''a'']) (Name ''text'') shut
        = (Inl CanNotOperateAfterClose, shut)
    \<and> loop sample 0 ''item'' Null NotCallable shut = (Inl ValuesMustBeArray, shut)
    \<and> html sample 0 shut = (Some ''<ul><li>z</li></ul>'', shut)"
proof -
  have h1: "0 < length (engines shut)"
    by (simp add: shut_def)
  have h2: "root (engine shut 0) = None"
    by (simp add: shut_def engine_def)
  have c: "html_cache (engine shut 0) = Some ''<ul><li>z</li></ul>''"
    by (simp add: shut_def engine_def)
  show ?thesis
    using h1 h2 c
      closed_instance_operations [OF h1 h2, where P = sample and ident = "''item''"
        and v = "Str ''a''" and mode = None and key = "''class''" and ice = "Str ''a''"
        and icb = NotFunction and vs = "[Str ''a'']" and vals = Null and cb = NotCallable]
    by simp
qed

text \<open>
  C1 as stated fails: on the closed sample engine \<open>drop\<close> with \<open>isDrop\<close> false does
  not fail at all, and \<open>loop\<close> with a string for \<open>values\<close> fails with InvalidArgument.
\<close>

theorem closed_instance_counterexample:
  "root (engine shut 0) = None
    \<and> drop_ice sample 0 ''item'' False shut = (Inr ReturnsUndefined, shut)
    \<and> loop sample 0 ''item'' (Str ''a'') (Name ''text'') shut = (Inl ValuesMustBeArray, shut)
    \<and> failure_of ValuesMustBeArray \<noteq> InvalidState"
  by (simp add: shut_def engine_def drop_ice_def loop_def)

subsection \<open>Marker resolution leaves the trees and the engines alone\<close>

lemma nodes_keeps:
  "nodes P this ident w = (res, w1) \<Longrightarrow>
     forest w1 = forest w \<and> engines w1 = engines w \<and> fresh w1 = fresh w \<and> debug w1 = debug w"
  by (auto simp: nodes_def Let_def trigger_def split: option.splits if_splits)

lemma engine_nodes:
  "nodes P this ident w = (res, w1) \<Longrightarrow> engine w1 e = engine w e"
  by (simp add: engine_def nodes_keeps)

subsection \<open>Construction\<close>




subsection \<open>What the methods return\<close>

lemma text_returns:
  assumes "fst (text_ice P this ident v mode w) = Inr r"
  shows "r = (if autoDrop (engine w this) \<and> js_falsy v then ReturnsUndefined else ReturnsThis)"
proof -
  obtain res w1 where n: "nodes P this ident w = (res, w1)"
    by (cases "nodes P this ident w")
  have e: "engine w1 this = engine w this"
    using engine_nodes [OF n] .
  show ?thesis
    using assms by (auto simp: text_ice_def n e split: prod.splits sum.splits if_splits)
qed

lemma load_returns:
  assumes "fst (load P this ident ice mode w) = Inr r"
  shows "r = (if autoDrop (engine (snd (load_source P ice w)) this)
              \<and> (fst (load_source P ice w) = None \<or> fst (load_source P ice w) = Some [])
           then ReturnsUndefined else ReturnsThis)"
proof -
  obtain h w0 where s: "load_source P ice w = (h, w0)"
    by (cases "load_source P ice w")
  obtain res w1 where n: "nodes P this ident w0 = (res, w1)"
    by (cases "nodes P this ident w0")
  have e: "engine w1 this = engine w0 this"
    using engine_nodes [OF n] .
  show ?thesis
    using assms by (auto simp: load_def s n e split: prod.splits sum.splits if_splits)
qed



subsection \<open>The child engines\<close>

lemma constructor_child:
  "constructor P (Parsed n) None None w = (res, w1) \<Longrightarrow>
     res = Inr (length (engines w)) \<and> default_child w1 (length (engines w))
     \<and> root (engine w1 (length (engines w))) = Some n"
  by (auto simp: constructor_def default_child_def engine_def)

lemma loop_items_checked:
  "loop_items P (checked f) node j vs results w = loop_items P f node j vs results w"
proof (induction vs arbitrary: j results w)
  case Nil
  show ?case by simp
next
  case (Cons v vs)
  show ?case
    apply (simp add: Cons.IH split: prod.splits sum.splits)
    apply (auto simp: checked_def dest: constructor_child)
    done
qed

lemma loop_nodes_checked:
  "loop_nodes P this (checked f) vs ns w = loop_nodes P this f vs ns w"
  by (induction ns arbitrary: w)
    (simp_all add: loop_items_checked split: prod.splits sum.splits option.splits)

lemma into_loop_checked:
  "into_loop P (checked_into g) v ns w = into_loop P g v ns w"
proof (induction ns arbitrary: w)
  case Nil
  show ?case by simp
next
  case (Cons n ns)
  show ?case
    apply (simp add: Cons.IH split: prod.splits sum.splits)
    apply (auto simp: checked_into_def dest: constructor_child)
    done
qed

subsection \<open>Reading back what was written\<close>

lemma lookup_append:
  "lookup n (xs @ ys) = (case lookup n xs of Some x \<Rightarrow> Some x | None \<Rightarrow> lookup n ys)"
  by (induction xs) (simp_all split: option.splits)

lemma lookup1_is_node: "lookup1 n t = Some x \<Longrightarrow> \<exists>k a cs. x = Node n k a cs"
  and lookup_is_node: "lookup n ts = Some x \<Longrightarrow> \<exists>k a cs. x = Node n k a cs"
  by (induction n t and n ts rule: lookup1_lookup.induct) (auto split: option.splits if_splits)

lemma lookup1_modify_set_kids:
  "lookup1 n (modify1 n (set_kids new) t) = map_option (set_kids new) (lookup1 n t)"
  and lookup_modify_set_kids:
  "lookup n (modify n (set_kids new) ts) = map_option (set_kids new) (lookup n ts)"
  by (induction n t and n ts rule: lookup1_lookup.induct) (auto split: option.splits)

lemma children_replace_kids:
  assumes "lookup n f \<noteq> None"
  shows "children_of n (replace_kids n new f) = new"
proof -
  obtain x where x: "lookup n f = Some x"
    using assms by auto
  then obtain k a cs where "x = Node n k a cs"
    using lookup_is_node by blast
  then show ?thesis
    using x by (simp add: children_of_def replace_kids_def lookup_append lookup_modify_set_kids)
qed

lemma read_text_set_text:
  "lookup n (forest w) \<noteq> None \<Longrightarrow> read_text n (set_text n t w) = t"
  by (simp add: read_text_def set_text_def children_replace_kids)

lemma children_set_html:
  "lookup n (forest w) \<noteq> None \<Longrightarrow>
     children_of n (forest (set_html P n t w)) = fst (relabel (fresh w) (parse P t))"
  by (simp add: set_html_def children_replace_kids split: prod.splits)

lemma map_of_put [simp]:
  "map_of (put key v a) key' = (if key' = key then Some v else map_of a key')"
  by (induction a) auto

lemma lookup1_modify_set_attr:
  "lookup1 n (modify1 m (set_attr key v) t) = map_option (modify1 m (set_attr key v)) (lookup1 n t)"
  and lookup_modify_set_attr:
  "lookup n (modify m (set_attr key v) ts) = map_option (modify1 m (set_attr key v)) (lookup n ts)"
  by (induction n t and n ts rule: lookup1_lookup.induct) (auto split: option.splits)

lemma read_attr_write_attr:
  "read_attr n key' (write_attr m key v w) =
     (if lookup n (forest w) \<noteq> None \<and> n = m \<and> key' = key then Some v else read_attr n key' w)"
proof (cases "lookup n (forest w)")
  case None
  then show ?thesis
    by (simp add: read_attr_def write_attr_def lookup_modify_set_attr)
next
  case (Some x)
  then obtain k a cs where "x = Node n k a cs"
    using lookup_is_node by blast
  then show ?thesis
    using Some by (simp add: read_attr_def write_attr_def lookup_modify_set_attr)
qed

subsection \<open>Marker resolution\<close>

lemma filter_loop_eq:
  "filter_loop f ns acc = acc @ filter (\<lambda>n. parents n data_ice_loaded f = []) ns"
  by (induction ns arbitrary: acc) simp_all

lemma filter_ice_eq:
  "filter_ice f ns = filter (\<lambda>n. parents n data_ice_loaded f = []) ns"
  by (simp add: filter_ice_def filter_loop_eq)

lemma query_plain: "plain_id ident \<Longrightarrow> query P ident = Some (data_ice ident)"
  by (simp add: query_def)

lemma nodes_open_eq:
  assumes "root (engine w this) = Some r" and "ident \<noteq> []" and "plain_id ident"
  shows "\<exists>w1. nodes P this ident w = (Inr (resolve r ident (forest w)), w1)
      \<and> forest w1 = forest w \<and> engines w1 = engines w"
proof -
  obtain res w1 where n: "nodes P this ident w = (res, w1)"
    by (cases "nodes P this ident w")
  have "res = Inr (resolve r ident (forest w))"
    using n assms by (auto simp: nodes_def Let_def filter_ice_eq resolve_def query_plain)
  then show ?thesis
    using n nodes_keeps [OF n] by simp
qed

subsection \<open>Removed nodes are out of every tree\<close>

lemma ids_append [simp]: "ids (xs @ ys) = ids xs @ ids ys"
  by (induction xs) simp_all

lemma inner_append [simp]: "inner (xs @ ys) = inner xs @ inner ys"
  by (induction xs) simp_all

lemma lookup1_None_iff: "lookup1 n t = None \<longleftrightarrow> n \<notin> set (ids1 t)"
  and lookup_None_iff: "lookup n ts = None \<longleftrightarrow> n \<notin> set (ids ts)"
  by (induction n t and n ts rule: lookup1_lookup.induct) (auto split: option.splits)

lemma inner_subset_ids: "set (inner f) \<subseteq> set (ids f)"
proof (induction f)
  case Nil
  show ?case by simp
next
  case (Cons t f)
  then show ?case by (cases t) auto
qed

lemma ids_kids_subset: "set (ids (kids t)) \<subseteq> set (ids1 t)"
  by (cases t) auto

lemma lookup1_kids_ids: "lookup1 n t = Some x \<Longrightarrow> set (ids (kids x)) \<subseteq> set (ids (kids t))"
  and lookup_kids_ids: "lookup n ts = Some x \<Longrightarrow> set (ids (kids x)) \<subseteq> set (ids ts)"
proof (induction n t and n ts rule: lookup1_lookup.induct)
  case (4 n t ts)
  show ?case
  proof (cases "lookup1 n t")
    case None
    then show ?thesis using 4 by auto
  next
    case (Some y)
    then show ?thesis using 4 ids_kids_subset [of t] by auto
  qed
qed (auto split: if_splits)

lemma lookup_kids_inner: "lookup n f = Some x \<Longrightarrow> set (ids (kids x)) \<subseteq> set (inner f)"
proof (induction f)
  case Nil
  then show ?case by simp
next
  case (Cons t f)
  then show ?case
    using lookup1_kids_ids [of n t x] by (auto split: option.splits)
qed

lemma subnodes1_ids: "x \<in> set (subnodes1 t) \<Longrightarrow> node_id x = Some i \<Longrightarrow> i \<in> set (ids1 t)"
  and subnodes_ids: "x \<in> set (subnodes ts) \<Longrightarrow> node_id x = Some i \<Longrightarrow> i \<in> set (ids ts)"
  by (induction t and ts rule: subnodes1_subnodes.induct) auto

lemma find_ids_subset: "set (find_ids r sel f) \<subseteq> set (ids (children_of r f))"
  by (auto simp: find_ids_def map_filter_def split: if_splits dest: subnodes_ids)

lemma find_ids_inner: "set (find_ids r sel f) \<subseteq> set (inner f)"
proof (cases "lookup r f")
  case None
  then show ?thesis by (simp add: find_ids_def children_of_def map_filter_simps)
next
  case (Some x)
  then show ?thesis
    using find_ids_subset [of r sel f] lookup_kids_inner [OF Some]
    by (auto simp: children_of_def)
qed

lemma prune1_ids:
  "set (ids (kids (prune1 n t))) \<subseteq> set (ids (kids t)) \<and> n \<notin> set (ids (kids (prune1 n t)))
    \<and> node_id (prune1 n t) = node_id t"
  and prune_ids: "set (ids (prune n ts)) \<subseteq> set (ids ts) \<and> n \<notin> set (ids (prune n ts))"
proof (induction n t and n ts rule: prune1_prune.induct)
  case (4 n t ts)
  then show ?case by (cases t) (auto split: if_splits)
qed auto

lemma inner_prune: "set (inner (prune n f)) \<subseteq> set (inner f) \<and> n \<notin> set (inner (prune n f))"
proof (induction f)
  case Nil
  show ?case by simp
next
  case (Cons t f)
  then show ?case
    using prune1_ids [of n t] by (cases t) (auto split: if_splits)
qed

lemma inner_detach:
  "set (inner (detach n f)) \<subseteq> set (inner f) \<and> n \<notin> set (inner (detach n f))"
proof (cases "lookup n f")
  case None
  then have "n \<notin> set (ids f)"
    by (simp add: lookup_None_iff)
  then show ?thesis
    using None inner_subset_ids [of f] by (auto simp: detach_def)
next
  case (Some x)
  show ?thesis
    using Some inner_prune [of n f] prune1_ids [of n x] lookup_kids_inner [OF Some]
    by (auto simp: detach_def)
qed

lemma inner_fold_detach:
  "set (inner (fold detach ns f)) \<subseteq> set (inner f) - set ns"
proof (induction ns arbitrary: f)
  case Nil
  show ?case by simp
next
  case (Cons n ns)
  show ?case
    using Cons [of "detach n f"] inner_detach [of n f] by auto
qed

lemma removed_not_found:
  "n \<in> set ns \<Longrightarrow> n \<notin> set (find_ids r sel (forest (remove_all ns w)))"
  using find_ids_inner [of r sel "fold detach ns (forest w)"] inner_fold_detach [of ns "forest w"]
  by (auto simp: remove_all_def)

lemma resolve_exists: "n \<in> set (resolve r ident f) \<Longrightarrow> lookup n f \<noteq> None"
  using find_ids_inner [of r "data_ice ident" f] inner_subset_ids [of f]
  by (auto simp: resolve_def lookup_None_iff)

subsection \<open>\<open>attr\<close> writes on every marker\<close>

lemma ids1_modify_set_attr: "ids1 (modify1 m (set_attr key v) t) = ids1 t"
  and ids_modify_set_attr: "ids (modify m (set_attr key v) ts) = ids ts"
  by (induction m "set_attr key v" t and m "set_attr key v" ts rule: modify1_modify.induct) auto

lemma ids_write_attr [simp]: "ids (forest (write_attr m key v w)) = ids (forest w)"
  by (simp add: write_attr_def ids_modify_set_attr)

lemma lookup_write_attr [simp]:
  "lookup n (forest (write_attr m key v w)) = None \<longleftrightarrow> lookup n (forest w) = None"
  by (simp add: lookup_None_iff)

lemma transform_applies:
  "mode_applies P mode v \<Longrightarrow> \<exists>t. transform P mode c v = Inr t"
  by (auto simp: mode_applies_def transform_def)

lemma attr_loop_writes:
  assumes "mode_applies P mode (to_string v)"
  shows "fst (attr_loop P mode key v ns w) = Inr ()
    \<and> ids (forest (snd (attr_loop P mode key v ns w))) = ids (forest w)
    \<and> (\<forall>n. read_attr n key w \<noteq> None \<longrightarrow>
          read_attr n key (snd (attr_loop P mode key v ns w)) \<noteq> None)
    \<and> (\<forall>n\<in>set ns. lookup n (forest w) \<noteq> None \<longrightarrow>
          read_attr n key (snd (attr_loop P mode key v ns w)) \<noteq> None)"
proof (induction ns arbitrary: w)
  case Nil
  show ?case by simp
next
  case (Cons m ns)
  obtain t where t: "transform P mode (case read_attr m key w of None \<Rightarrow> [] | Some c \<Rightarrow> c)
      (to_string v) = Inr t"
    using transform_applies [OF assms] by blast
  show ?case
    using Cons [of "write_attr m key t w"]
    by (auto simp: t read_attr_write_attr)
qed

lemma attr_loop_write_mode:
  "fst (attr_loop P ''write'' key v ns w) = Inr ()
    \<and> (\<forall>n. read_attr n key w = Some (to_string v) \<longrightarrow>
          read_attr n key (snd (attr_loop P ''write'' key v ns w)) = Some (to_string v))
    \<and> (\<forall>n\<in>set ns. lookup n (forest w) \<noteq> None \<longrightarrow>
          read_attr n key (snd (attr_loop P ''write'' key v ns w)) = Some (to_string v))"
proof (induction ns arbitrary: w)
  case Nil
  show ?case by simp
next
  case (Cons m ns)
  have t: "transform P ''write'' c (to_string v) = Inr (to_string v)" for c
    by (simp add: transform_def)
  show ?case
    using Cons [of "write_attr m key (to_string v) w"]
    by (auto simp: t read_attr_write_attr)
qed

text \<open>
  C8. On an open instance and for a non-empty plain id, with \<open>autoDrop\<close> on and a value that is empty or absent,
  \<open>text\<close> removes the resolved markers, writes nothing and returns at once; afterwards
  no query from any node finds a removed marker. \<open>attr\<close> consults no option: under every
  mode that yields a value, and for every key and value, the empty string included, it
  returns the instance, no node leaves or enters the forest, and every resolved marker
  carries the attribute; in mode \<open>write\<close> its value is the (normalised) value given.
\<close>

theorem autoDrop_in_text_not_in_attr:
  assumes "root (engine w this) = Some r" and "ident \<noteq> []" and "plain_id ident"
  shows "(autoDrop (engine w this) \<and> js_falsy v \<longrightarrow>
            text_ice P this ident v mode w =
              (Inr ReturnsUndefined,
               remove_all (resolve r ident (forest w)) (snd (nodes P this ident w)))
            \<and> (\<forall>n\<in>set (resolve r ident (forest w)). \<forall>r' sel.
                  n \<notin> set (find_ids r' sel (forest (snd (text_ice P this ident v mode w))))))
    \<and> (mode_applies P (mode_or_default mode) (to_string (normalize_value v2)) \<longrightarrow>
            fst (attr P this ident key v2 mode w) = Inr ReturnsThis
            \<and> ids (forest (snd (attr P this ident key v2 mode w))) = ids (forest w)
            \<and> (\<forall>n\<in>set (resolve r ident (forest w)).
                  read_attr n key (snd (attr P this ident key v2 mode w)) \<noteq> None)
            \<and> (mode_or_default mode = ''write'' \<longrightarrow>
                 (\<forall>n\<in>set (resolve r ident (forest w)).
                    read_attr n key (snd (attr P this ident key v2 mode w))
                      = Some (to_string (normalize_value v2)))))"
proof -
  obtain w1 where n: "nodes P this ident w = (Inr (resolve r ident (forest w)), w1)"
    and f: "forest w1 = forest w" and e: "engines w1 = engines w"
    using nodes_open_eq [OF assms] by blast
  have e1: "engine w1 this = engine w this"
    by (simp add: engine_def e)
  have text_part: "text_ice P this ident v mode w =
              (Inr ReturnsUndefined,
               remove_all (resolve r ident (forest w)) (snd (nodes P this ident w)))
            \<and> (\<forall>n\<in>set (resolve r ident (forest w)). \<forall>r' sel.
                  n \<notin> set (find_ids r' sel (forest (snd (text_ice P this ident v mode w)))))"
    if "autoDrop (engine w this) \<and> js_falsy v"
    using that by (simp add: text_ice_def n e1 removed_not_found)
  have attr_part: "fst (attr P this ident key v2 mode w) = Inr ReturnsThis
            \<and> ids (forest (snd (attr P this ident key v2 mode w))) = ids (forest w)
            \<and> (\<forall>n\<in>set (resolve r ident (forest w)).
                  read_attr n key (snd (attr P this ident key v2 mode w)) \<noteq> None)"
    if m: "mode_applies P (mode_or_default mode) (to_string (normalize_value v2))"
  proof -
    let ?ns = "resolve r ident (forest w)"
    obtain u w2 where
      l: "attr_loop P (mode_or_default mode) key (normalize_value v2) ?ns w1 = (u, w2)"
      by (cases "attr_loop P (mode_or_default mode) key (normalize_value v2) ?ns w1")
    have ex: "\<forall>n\<in>set ?ns. lookup n (forest w1) \<noteq> None"
      using resolve_exists f by auto
    show ?thesis
      using attr_loop_writes [OF m, of key ?ns w1] ex
      by (auto simp: attr_def n l f)
  qed
  have write_part: "\<forall>n\<in>set (resolve r ident (forest w)).
                    read_attr n key (snd (attr P this ident key v2 mode w))
                      = Some (to_string (normalize_value v2))"
    if m: "mode_or_default mode = ''write''"
  proof -
    let ?ns = "resolve r ident (forest w)"
    obtain u w2 where l: "attr_loop P ''write'' key (normalize_value v2) ?ns w1 = (u, w2)"
      by (cases "attr_loop P ''write'' key (normalize_value v2) ?ns w1")
    have ex: "\<forall>n\<in>set ?ns. lookup n (forest w1) \<noteq> None"
      using resolve_exists f by auto
    show ?thesis
      using attr_loop_write_mode [of P key "normalize_value v2" ?ns w1] ex
      by (auto simp: attr_def n l m)
  qed
  show ?thesis
    using text_part attr_part write_part by blast
qed

theorem autoDrop_in_text_not_in_attr_witness:
  "root (engine page 0) = Some 0 \<and> ''item'' \<noteq> [] \<and> plain_id ''item''
   \<and> autoDrop (engine page 0) \<and> js_falsy (Str [])
   \<and> resolve 0 ''item'' (forest page) = [2]
   \<and> fst (text_ice sample 0 ''item'' (Str []) (Some ''write'') page) = Inr ReturnsUndefined
   \<and> 2 \<notin> set (find_ids 0 (data_ice ''item'')
                 (forest (snd (text_ice sample 0 ''item'' (Str []) (Some ''write'') page))))
   \<and> mode_applies sample (mode_or_default (Some ''write'')) (to_string (normalize_value (Str [])))
   \<and> fst (attr sample 0 ''item'' ''class'' (Str []) (Some ''write'') page) = Inr ReturnsThis
   \<and> read_attr 2 ''class'' (snd (attr sample 0 ''item'' ''class'' (Str []) (Some ''write'') page))
      = Some []"
proof -
  have r: "root (engine page 0) = Some 0"
    by (simp add: page_def engine_def)
  have i: "''item'' \<noteq> []"
    by simp
  have p: "plain_id ''item''"
    by (simp add: plain_id_def)
  have a: "autoDrop (engine page 0) \<and> js_falsy (Str [])"
    by (simp add: page_def engine_def)
  have m: "resolve 0 ''item'' (forest page) = [2]"
    by code_simp
  have ok: "mode_applies sample (mode_or_default (Some ''write''))
      (to_string (normalize_value (Str [])))"
    by (simp add: mode_applies_def mode_or_default_def)
  have w: "mode_or_default (Some ''write'') = ''write''"
    by (simp add: mode_or_default_def)
  have s: "to_string (normalize_value (Str [])) = []"
    by (simp add: normalize_value_def)
  note T = autoDrop_in_text_not_in_attr [OF r i p, where v = "Str []" and P = sample
      and mode = "Some ''write''" and ?v2.0 = "Str []" and key = "''class''"]
  have t1: "fst (text_ice sample 0 ''item'' (Str []) (Some ''write'') page) = Inr ReturnsUndefined"
    using T a by simp
  have t2: "2 \<notin> set (find_ids 0 (data_ice ''item'')
                 (forest (snd (text_ice sample 0 ''item'' (Str []) (Some ''write'') page))))"
    using T a m by (metis list.set_intros(1))
  have t3: "fst (attr sample 0 ''item'' ''class'' (Str []) (Some ''write'') page) = Inr ReturnsThis
    \<and> read_attr 2 ''class'' (snd (attr sample 0 ''item'' ''class'' (Str []) (Some ''write'') page))
      = Some []"
    using T ok w s m by simp
  show ?thesis
    using r i p a m ok t1 t2 t3 by simp
qed

subsection \<open>A failing call and the world\<close>

lemma transform_fails:
  "\<not> mode_applies P mode v \<Longrightarrow> \<exists>e. transform P mode c v = Inl e"
  by (auto simp: mode_applies_def transform_def split: option.splits)

lemma text_loop_applies:
  "mode_applies P mode (to_string v) \<Longrightarrow> fst (text_loop P mode v ns w) = Inr ()"
proof (induction ns arbitrary: w)
  case Nil
  show ?case by simp
next
  case (Cons n ns)
  obtain t where "transform P mode (read_text n w) (to_string v) = Inr t"
    using transform_applies [OF Cons.prems] by blast
  then show ?case
    using Cons by simp
qed

lemma text_loop_fails_at_once:
  assumes "fst (text_loop P mode v ns w) = Inl e"
  shows "snd (text_loop P mode v ns w) = w \<and> ns \<noteq> []"
proof (cases "mode_applies P mode (to_string v)")
  case True
  then show ?thesis
    using assms text_loop_applies [OF True, of ns w] by simp
next
  case False
  show ?thesis
  proof (cases ns)
    case Nil
    then show ?thesis using assms by simp
  next
    case (Cons n ms)
    obtain e' where "transform P mode (read_text n w) (to_string v) = Inl e'"
      using transform_fails [OF False] by blast
    then show ?thesis
      using Cons by simp
  qed
qed

lemma attr_loop_fails_at_once:
  assumes "fst (attr_loop P mode key v ns w) = Inl e"
  shows "snd (attr_loop P mode key v ns w) = w \<and> ns \<noteq> []"
proof (cases "mode_applies P mode (to_string v)")
  case True
  then show ?thesis
    using assms attr_loop_writes [OF True, of key ns w] by simp
next
  case False
  show ?thesis
  proof (cases ns)
    case Nil
    then show ?thesis using assms by simp
  next
    case (Cons n ms)
    obtain e' where "transform P mode (case read_attr n key w of None \<Rightarrow> [] | Some c \<Rightarrow> c)
        (to_string v) = Inl e'"
      using transform_fails [OF False] by blast
    then show ?thesis
      using Cons by simp
  qed
qed

lemma load_loop_applies:
  assumes "load_mode_applies P mode h"
  shows "fst (load_loop P mode h ns w) = Inr ()"
proof (induction ns arbitrary: w)
  case Nil
  show ?case by simp
next
  case (Cons n ns)
  consider "mode = ''write''" | "mode = ''append''" | "mode = ''prepend''"
    | del where "mode = ''remove''" and "regexp P (markup_pattern h) = Some del"
    using assms unfolding load_mode_applies_def by auto
  then show ?case
  proof cases
    case 1
    then show ?thesis using Cons by simp
  next
    case 2
    then show ?thesis using Cons by simp
  next
    case 3
    then show ?thesis using Cons by simp
  next
    case 4
    then show ?thesis using Cons by simp
  qed
qed

lemma load_loop_stops:
  assumes "\<not> load_mode_applies P mode h"
  shows "load_loop P mode h (n # ns) w =
    (Inl (if mode = ''remove'' then RegExpSyntaxError else UnknownMode mode), w)"
proof -
  have m: "mode \<noteq> ''write''" "mode \<noteq> ''append''" "mode \<noteq> ''prepend''"
    and r: "mode = ''remove'' \<Longrightarrow> regexp P (markup_pattern h) = None"
    using assms unfolding load_mode_applies_def by auto
  show ?thesis
  proof (cases "mode = ''remove''")
    case True
    then show ?thesis using r by simp
  next
    case False
    then show ?thesis using m by simp
  qed
qed

lemma load_loop_fails_at_once:
  assumes "fst (load_loop P mode h ns w) = Inl e"
  shows "snd (load_loop P mode h ns w) = w \<and> ns \<noteq> [] \<and> \<not> load_mode_applies P mode h"
proof (cases "load_mode_applies P mode h")
  case True
  then show ?thesis
    using assms load_loop_applies [OF True, of ns w] by simp
next
  case False
  show ?thesis
  proof (cases ns)
    case Nil
    then show ?thesis using assms by simp
  next
    case (Cons n ms)
    then show ?thesis
      using False load_loop_stops [OF False, of n ms w] by simp
  qed
qed

lemma nodes_nonempty_keeps:
  "nodes P this ident w = (Inr ns, w1) \<Longrightarrow> ns \<noteq> [] \<Longrightarrow> w1 = w"
  by (auto simp: nodes_def Let_def split: option.splits if_splits)

lemma nodes_fails_keeps:
  "nodes P this ident w = (Inl e, w1) \<Longrightarrow> w1 = w"
  by (auto simp: nodes_def Let_def split: option.splits if_splits)

lemma text_fails:
  assumes "fst (text_ice P this ident v mode w) = Inl e"
  shows "snd (text_ice P this ident v mode w) = w"
proof -
  obtain res w1 where n: "nodes P this ident w = (res, w1)"
    by (cases "nodes P this ident w")
  show ?thesis
  proof (cases res)
    case (Inl e')
    then show ?thesis
      using n nodes_fails_keeps [of P this ident w e' w1] by (simp add: text_ice_def)
  next
    case (Inr ns)
    let ?l = "text_loop P (mode_or_default mode) (normalize_value v) ns w1"
    have f: "fst ?l = Inl e"
      using assms n Inr by (auto simp: text_ice_def split: if_splits prod.splits sum.splits)
    have "snd ?l = w1 \<and> ns \<noteq> []"
      using text_loop_fails_at_once [OF f] .
    moreover have "ns \<noteq> [] \<Longrightarrow> w1 = w"
      using nodes_nonempty_keeps n Inr by blast
    ultimately show ?thesis
      using assms n Inr by (auto simp: text_ice_def split: if_splits prod.splits sum.splits)
  qed
qed

lemma attr_fails:
  assumes "fst (attr P this ident key v mode w) = Inl e"
  shows "snd (attr P this ident key v mode w) = w"
proof -
  obtain res w1 where n: "nodes P this ident w = (res, w1)"
    by (cases "nodes P this ident w")
  show ?thesis
  proof (cases res)
    case (Inl e')
    then show ?thesis
      using n nodes_fails_keeps [of P this ident w e' w1] by (simp add: attr_def)
  next
    case (Inr ns)
    let ?l = "attr_loop P (mode_or_default mode) key (normalize_value v) ns w1"
    have f: "fst ?l = Inl e"
      using assms n Inr by (auto simp: attr_def split: if_splits prod.splits sum.splits)
    have "snd ?l = w1 \<and> ns \<noteq> []"
      using attr_loop_fails_at_once [OF f] .
    moreover have "ns \<noteq> [] \<Longrightarrow> w1 = w"
      using nodes_nonempty_keeps n Inr by blast
    ultimately show ?thesis
      using assms n Inr by (auto simp: attr_def split: if_splits prod.splits sum.splits)
  qed
qed

lemma drop_fails:
  "fst (drop_ice P this ident isDrop w) = Inl e \<Longrightarrow> snd (drop_ice P this ident isDrop w) = w"
  by (auto simp: drop_ice_def split: if_splits prod.splits sum.splits dest: nodes_fails_keeps)

lemma load_fails:
  assumes "fst (load P this ident ice mode w) = Inl e"
  shows "snd (load P this ident ice mode w) = snd (load_source P ice w)
    \<or> (\<exists>ns. ns \<noteq> [] \<and> fst (nodes P this ident (snd (load_source P ice w))) = Inr ns
          \<and> \<not> load_mode_applies P (mode_or_default mode) (fst (load_source P ice w))
          \<and> snd (load P this ident ice mode w) = flag_loaded ns (snd (load_source P ice w)))"
proof -
  obtain h w0 where s: "load_source P ice w = (h, w0)"
    by (cases "load_source P ice w")
  obtain res w1 where n: "nodes P this ident w0 = (res, w1)"
    by (cases "nodes P this ident w0")
  show ?thesis
  proof (cases res)
    case (Inl e')
    then show ?thesis
      using n s nodes_fails_keeps [of P this ident w0 e' w1] by (simp add: load_def)
  next
    case (Inr ns)
    let ?l = "load_loop P (mode_or_default mode) h ns (flag_loaded ns w1)"
    have f: "fst ?l = Inl e"
      using assms n s Inr by (auto simp: load_def split: if_splits prod.splits sum.splits)
    have l: "snd ?l = flag_loaded ns w1 \<and> ns \<noteq> [] \<and> \<not> load_mode_applies P (mode_or_default mode) h"
      using load_loop_fails_at_once [OF f] .
    moreover have "w1 = w0"
      using nodes_nonempty_keeps n Inr l by blast
    ultimately show ?thesis
      using assms n s Inr by (auto simp: load_def split: if_splits prod.splits sum.splits)
  qed
qed

subsection \<open>What \<open>_takeHTML\<close> hands to the serialiser\<close>

lemma find_ids_loaded: "find_ids r data_ice_loaded f = loaded_tags (children_of r f)"
  by (simp add: find_ids_def loaded_tags_def)

lemma subnodes1_strip:
  "subnodes1 (modify1 n (remove_attr key) t) = map (modify1 n (remove_attr key)) (subnodes1 t)"
  and subnodes_strip:
  "subnodes (modify n (remove_attr key) ts) = map (modify1 n (remove_attr key)) (subnodes ts)"
  by (induction n "remove_attr key" t and n "remove_attr key" ts rule: modify1_modify.induct) auto

lemma strip_node_flag:
  "(if is_tag (modify1 n (remove_attr ''data-ice-loaded'') x)
        \<and> data_ice_loaded (modify1 n (remove_attr ''data-ice-loaded'') x)
    then node_id (modify1 n (remove_attr ''data-ice-loaded'') x) else None)
   = (if node_id x = Some n then None
      else if is_tag x \<and> data_ice_loaded x then node_id x else None)"
proof (cases x)
  case (Text s)
  then show ?thesis by simp
next
  case (Node i k a cs)
  have "map_of (filter (\<lambda>p. fst p \<noteq> key) a) key = None" for key :: string
    by (induction a) auto
  then show ?thesis
    using Node by (cases k) (auto simp: data_ice_loaded_def)
qed

lemma map_filter_map: "List.map_filter g (map h xs) = List.map_filter (\<lambda>x. g (h x)) xs"
  by (induction xs) (simp_all split: option.splits)

lemma loaded_without:
  "set (List.map_filter (\<lambda>x. if node_id x = Some n then None
                              else if is_tag x \<and> data_ice_loaded x then node_id x else None) xs)
   = set (List.map_filter (\<lambda>x. if is_tag x \<and> data_ice_loaded x then node_id x else None) xs) - {n}"
  by (induction xs) (auto split: option.splits)

lemma loaded_tags_strip:
  "set (loaded_tags (modify n (remove_attr ''data-ice-loaded'') cs)) = set (loaded_tags cs) - {n}"
  by (simp add: loaded_tags_def subnodes_strip map_filter_map strip_node_flag loaded_without)

lemma loaded_tags_fold_strip:
  "set (loaded_tags (fold (\<lambda>n. modify n (remove_attr ''data-ice-loaded'')) ns cs))
     = set (loaded_tags cs) - set ns"
proof (induction ns arbitrary: cs)
  case Nil
  show ?case by simp
next
  case (Cons n ns)
  show ?case
    using Cons [of "modify n (remove_attr ''data-ice-loaded'') cs"] loaded_tags_strip [of n cs]
    by auto
qed

lemma lookup1_strip:
  "lookup1 r (modify1 n (remove_attr key) t) = map_option (modify1 n (remove_attr key)) (lookup1 r t)"
  and lookup_strip:
  "lookup r (modify n (remove_attr key) ts) = map_option (modify1 n (remove_attr key)) (lookup r ts)"
  by (induction r t and r ts rule: lookup1_lookup.induct) (auto split: option.splits)

lemma kids_strip: "kids (modify1 n (remove_attr key) t) = modify n (remove_attr key) (kids t)"
  by (cases t) auto

lemma children_strip:
  "children_of r (modify n (remove_attr key) f) = modify n (remove_attr key) (children_of r f)"
  by (cases "lookup r f") (simp_all add: children_of_def lookup_strip kids_strip)

lemma children_fold_strip:
  "children_of r (fold (\<lambda>n. modify n (remove_attr key)) ns f)
     = fold (\<lambda>n. modify n (remove_attr key)) ns (children_of r f)"
  by (induction ns arbitrary: f) (simp_all add: children_strip)

lemma stripped_clean:
  "clean (children_of r (fold (\<lambda>n. modify n (remove_attr ''data-ice-loaded''))
             (find_ids r data_ice_loaded f) f))"
proof -
  have "set (loaded_tags (children_of r (fold (\<lambda>n. modify n (remove_attr ''data-ice-loaded''))
             (find_ids r data_ice_loaded f) f))) = {}"
    by (simp add: children_fold_strip loaded_tags_fold_strip find_ids_loaded)
  then show ?thesis
    by (simp add: clean_def)
qed

lemma takeHTML_serialized: "serialized P (fst (takeHTML P r w))"
  using stripped_clean [of r "forest w"]
  by (auto simp: takeHTML_def Let_def read_html_def serialized_def)

subsection \<open>The caches under \<open>close\<close> and \<open>html\<close>\<close>

lemma caches_clean_engines: "engines w' = engines w \<Longrightarrow> caches_clean P w' = caches_clean P w"
  by (simp add: caches_clean_def)

lemma caches_clean_engine:
  "caches_clean P w \<Longrightarrow> html_cache (engine w this) = Some s \<Longrightarrow> serialized P s"
  by (auto simp: caches_clean_def engine_def split: if_splits)

lemma caches_clean_set_engine:
  assumes "caches_clean P w" and "\<And>s. html_cache e = Some s \<Longrightarrow> serialized P s"
  shows "caches_clean P (set_engine this e w)"
  using assms set_update_subset_insert [of "engines w" this e]
  by (auto simp: caches_clean_def set_engine_def)

lemma caches_clean_takeHTML: "caches_clean P (snd (takeHTML P r w)) = caches_clean P w"
  by (rule caches_clean_engines) simp

lemma close_keeps:
  assumes "caches_clean P w"
  shows "caches_clean P (snd (close P this w))"
proof (cases "root (engine w this)")
  case None
  then show ?thesis using assms by (simp add: close_def)
next
  case (Some r)
  obtain h w1 where t: "takeHTML P r w = (h, w1)"
    by (cases "takeHTML P r w")
  have h: "serialized P h"
    using takeHTML_serialized [of P r w] t by simp
  have c: "caches_clean P w1"
    using caches_clean_takeHTML [of P r w] t assms by simp
  show ?thesis
    using Some t h by (auto simp: close_def intro!: caches_clean_set_engine [OF c])
qed

lemma html_keeps:
  assumes "caches_clean P w"
  shows "caches_clean P (snd (html P this w))
    \<and> (\<forall>s. fst (html P this w) = Some s \<longrightarrow> serialized P s)"
proof (cases "root (engine w this)")
  case None
  then show ?thesis
    using assms caches_clean_engine [OF assms] by (auto simp: html_def)
next
  case (Some r)
  obtain h w1 where t: "takeHTML P r w = (h, w1)"
    by (cases "takeHTML P r w")
  have h: "serialized P h"
    using takeHTML_serialized [of P r w] t by simp
  have c: "caches_clean P w1"
    using caches_clean_takeHTML [of P r w] t assms by simp
  let ?w2 = "set_engine this ((engine w1 this)\<lparr>html_cache := Some h\<rparr>) w1"
  have c2: "caches_clean P ?w2"
    using h by (auto intro!: caches_clean_set_engine [OF c])
  let ?w3 = "if autoClose (engine ?w2 this) then snd (close P this ?w2) else ?w2"
  have c3: "caches_clean P ?w3"
    using c2 close_keeps [OF c2] by simp
  have "html P this w = (html_cache (engine ?w3 this), ?w3)"
    using Some t by (simp add: html_def Let_def)
  then show ?thesis
    using c3 caches_clean_engine [OF c3] by auto
qed

subsection \<open>The engines under the operations\<close>

lemma engines_remove_all [simp]: "engines (remove_all ns w) = engines w"
  by (simp add: remove_all_def)

lemma engines_set_text [simp]: "engines (set_text n s w) = engines w"
  by (simp add: set_text_def)

lemma engines_set_html [simp]: "engines (set_html P n s w) = engines w"
  by (simp add: set_html_def split: prod.splits)

lemma engines_flag_loaded [simp]: "engines (flag_loaded ns w) = engines w"
  by (simp add: flag_loaded_def)

lemma engines_load_root [simp]: "engines (snd (load_root P s w)) = engines w"
  by (simp add: load_root_def split: prod.splits)

lemma engines_clone [simp]: "engines (snd (clone n w)) = engines w"
  by (simp add: clone_def split: prod.splits option.splits)

lemma engines_nodes [simp]: "engines (snd (nodes P this ident w)) = engines w"
  using nodes_keeps [of P this ident w "fst (nodes P this ident w)" "snd (nodes P this ident w)"]
  by simp

lemma engines_text_loop [simp]: "engines (snd (text_loop P mode v ns w)) = engines w"
  by (induction ns arbitrary: w) (simp_all split: sum.splits)

lemma engines_attr_loop [simp]: "engines (snd (attr_loop P mode key v ns w)) = engines w"
  by (induction ns arbitrary: w) (simp_all split: sum.splits)


lemma load_loop_step:
  "(\<exists>e. load_loop P mode h (n # ns) w = (Inl e, w))
   \<or> (\<exists>w'. engines w' = engines w \<and> load_loop P mode h (n # ns) w = load_loop P mode h ns w')"
proof (cases "load_mode_applies P mode h")
  case False
  then show ?thesis
    using load_loop_stops [OF False, of n ns w] by simp
next
  case True
  consider "mode = ''write''" | "mode = ''append''" | "mode = ''prepend''"
    | del where "mode = ''remove''" and "regexp P (markup_pattern h) = Some del"
    using True unfolding load_mode_applies_def by auto
  then show ?thesis
  proof cases
    case 1
    let ?w' = "case h of None \<Rightarrow> set_text n [] w | Some s \<Rightarrow> set_html P n s (set_text n [] w)"
    have "engines ?w' = engines w"
      by (cases h) simp_all
    moreover have "load_loop P mode h (n # ns) w = load_loop P mode h ns ?w'"
      using 1 by simp
    ultimately show ?thesis by blast
  next
    case 2
    let ?w' = "set_html P n (read_html P n w @ markup_text h) w"
    have "engines ?w' = engines w" by simp
    moreover have "load_loop P mode h (n # ns) w = load_loop P mode h ns ?w'"
      using 2 by simp
    ultimately show ?thesis by blast
  next
    case 3
    let ?w' = "set_html P n (markup_text h @ read_html P n w) w"
    have "engines ?w' = engines w" by simp
    moreover have "load_loop P mode h (n # ns) w = load_loop P mode h ns ?w'"
      using 3 by simp
    ultimately show ?thesis by blast
  next
    case 4
    let ?w' = "set_html P n (del (read_html P n w)) w"
    have "engines ?w' = engines w" by simp
    moreover have "load_loop P mode h (n # ns) w = load_loop P mode h ns ?w'"
      using 4 by simp
    ultimately show ?thesis by blast
  qed
qed

lemma engines_load_loop [simp]: "engines (snd (load_loop P mode h ns w)) = engines w"
proof (induction ns arbitrary: w)
  case Nil
  show ?case by simp
next
  case (Cons n ns)
  show ?case
    using load_loop_step [of P mode h n ns w] Cons by (metis snd_conv)
qed

lemma engines_text_ice [simp]: "engines (snd (text_ice P this ident v mode w)) = engines w"
proof -
  obtain res w1 where n: "nodes P this ident w = (res, w1)"
    by (cases "nodes P this ident w")
  have e: "engines w1 = engines w"
    using engines_nodes [of P this ident w] n by simp
  show ?thesis
  proof (cases res)
    case (Inl err)
    then show ?thesis by (simp add: text_ice_def n e)
  next
    case (Inr ns)
    obtain u w2 where l: "text_loop P (mode_or_default mode) (normalize_value v) ns w1 = (u, w2)"
      by (cases "text_loop P (mode_or_default mode) (normalize_value v) ns w1")
    have "engines w2 = engines w1"
      using engines_text_loop [of P "mode_or_default mode" "normalize_value v" ns w1] l by simp
    then show ?thesis
      by (cases u) (simp_all add: text_ice_def n Inr l e)
  qed
qed

lemma engines_attr [simp]: "engines (snd (attr P this ident key v mode w)) = engines w"
proof -
  obtain res w1 where n: "nodes P this ident w = (res, w1)"
    by (cases "nodes P this ident w")
  have e: "engines w1 = engines w"
    using engines_nodes [of P this ident w] n by simp
  show ?thesis
  proof (cases res)
    case (Inl err)
    then show ?thesis by (simp add: attr_def n e)
  next
    case (Inr ns)
    obtain u w2 where l: "attr_loop P (mode_or_default mode) key (normalize_value v) ns w1 = (u, w2)"
      by (cases "attr_loop P (mode_or_default mode) key (normalize_value v) ns w1")
    have "engines w2 = engines w1"
      using engines_attr_loop [of P "mode_or_default mode" key "normalize_value v" ns w1] l by simp
    then show ?thesis
      by (cases u) (simp_all add: attr_def n Inr l e)
  qed
qed

lemma engines_drop [simp]: "engines (snd (drop_ice P this ident isDrop w)) = engines w"
proof -
  obtain res w1 where n: "nodes P this ident w = (res, w1)"
    by (cases "nodes P this ident w")
  have e: "engines w1 = engines w"
    using engines_nodes [of P this ident w] n by simp
  show ?thesis
    by (cases res) (simp_all add: drop_ice_def n e)
qed

lemma text_keeps: "caches_clean P (snd (text_ice P this ident v mode w)) = caches_clean P w"
  by (rule caches_clean_engines) simp

lemma attr_keeps: "caches_clean P (snd (attr P this ident key v mode w)) = caches_clean P w"
  by (rule caches_clean_engines) simp

lemma drop_keeps: "caches_clean P (snd (drop_ice P this ident isDrop w)) = caches_clean P w"
  by (rule caches_clean_engines) simp

lemma load_source_keeps:
  "caches_clean P w \<Longrightarrow> caches_clean P (snd (load_source P ice w))"
  by (cases ice) (simp_all add: load_source_def html_keeps)

lemma engines_load: "engines (snd (load P this ident ice mode w)) = engines (snd (load_source P ice w))"
proof -
  obtain h w0 where s: "load_source P ice w = (h, w0)"
    by (cases "load_source P ice w")
  obtain res w1 where n: "nodes P this ident w0 = (res, w1)"
    by (cases "nodes P this ident w0")
  have e: "engines w1 = engines w0"
    using engines_nodes [of P this ident w0] n by simp
  show ?thesis
  proof (cases res)
    case (Inl err)
    then show ?thesis by (simp add: load_def s n e)
  next
    case (Inr ns)
    obtain u w2 where l: "load_loop P (mode_or_default mode) h ns (flag_loaded ns w1) = (u, w2)"
      by (cases "load_loop P (mode_or_default mode) h ns (flag_loaded ns w1)")
    have "engines w2 = engines w1"
      using engines_load_loop [of P "mode_or_default mode" h ns "flag_loaded ns w1"] l by simp
    then show ?thesis
      by (cases u) (simp_all add: load_def s n Inr l e)
  qed
qed

lemma load_keeps: "caches_clean P w \<Longrightarrow> caches_clean P (snd (load P this ident ice mode w))"
  using load_source_keeps [of P w ice] caches_clean_engines [OF engines_load, of P P this ident ice mode w]
  by simp

lemma engines_constructor:
  "engines (snd (constructor P src opts bus w)) = engines w
   \<or> (\<exists>e. html_cache e = None \<and> engines (snd (constructor P src opts bus w)) = engines w @ [e])"
proof (cases src)
  case Absent
  then show ?thesis by (simp add: constructor_def)
next
  case (Markup s)
  obtain r w1 where l: "load_root P s w = (r, w1)"
    by (cases "load_root P s w")
  have "engines w1 = engines w"
    using engines_load_root [of P s w] l by simp
  then show ?thesis
    using Markup l by (simp add: constructor_def)
next
  case (Parsed n)
  then show ?thesis by (simp add: constructor_def)
next
  case Foreign
  then show ?thesis by (simp add: constructor_def)
qed

lemma constructor_keeps:
  assumes "caches_clean P w"
  shows "caches_clean P (snd (constructor P src opts bus w))"
  using assms engines_constructor [of P src opts bus w]
  by (auto simp: caches_clean_def)

lemma text_shorthand_keeps: "keeps_caches P (text_shorthand P ident j v ice)"
proof -
  have "snd (text_shorthand P ident j v ice w) = snd (text_ice P ice ident v None w)" for w
    by (simp add: text_shorthand_def split: prod.splits sum.splits)
  then show ?thesis
    by (simp add: keeps_caches_def text_keeps)
qed

lemma load_shorthand_keeps: "keeps_caches P (load_shorthand P ident j v ice)"
proof -
  have "snd (load_shorthand P ident j v ice w) = snd (load P ice ident v None w)" for w
    by (simp add: load_shorthand_def split: prod.splits sum.splits)
  then show ?thesis
    by (simp add: keeps_caches_def load_keeps)
qed

lemma loop_items_keeps:
  assumes cb: "\<And>j v ice. keeps_caches P (cb j v ice)"
  shows "caches_clean P w \<Longrightarrow> caches_clean P (snd (loop_items P cb node j vs results w))"
proof (induction vs arbitrary: j results w)
  case Nil
  then show ?case by simp
next
  case (Cons v vs)
  obtain holder w1 where a: "load_root P ''<div/>'' w = (holder, w1)"
    by (cases "load_root P ''<div/>'' w")
  obtain clonedNode w2 where b: "clone node w1 = (clonedNode, w2)"
    by (cases "clone node w1")
  obtain textNode w3 where c: "load_root P [CHR 0x0A] w2 = (textNode, w3)"
    by (cases "load_root P [CHR 0x0A] w2")
  let ?w3 = "w3\<lparr>forest := append_nodes holder [clonedNode] (forest w3)\<rparr>"
  have e: "engines ?w3 = engines w"
    using engines_load_root [of P "''<div/>''" w] engines_clone [of node w1]
      engines_load_root [of P "[CHR 0x0A]" w2] a b c by simp
  have c3: "caches_clean P ?w3"
    using Cons.prems caches_clean_engines [OF e] by simp
  obtain res w4 where d: "constructor P (Parsed holder) None None ?w3 = (res, w4)"
    by (cases "constructor P (Parsed holder) None None ?w3")
  have c4: "caches_clean P w4"
    using constructor_keeps [OF c3, of "Parsed holder" None None] d by simp
  show ?case
  proof (cases res)
    case (Inl err)
    then show ?thesis using c4 by (simp add: a b c d)
  next
    case (Inr ice)
    obtain u w5 where f: "cb j v ice w4 = (u, w5)"
      by (cases "cb j v ice w4")
    have c5: "caches_clean P w5"
      using cb [of j v ice] c4 f by (auto simp: keeps_caches_def)
    show ?thesis
    proof (cases u)
      case (Inl err)
      then show ?thesis using c5 by (simp add: a b c d Inr f)
    next
      case (Inr x)
      then show ?thesis
        using Cons.IH [OF c5] by (simp add: a b c d \<open>res = Inr ice\<close> f)
    qed
  qed
qed

lemma loop_nodes_keeps:
  assumes cb: "\<And>j v ice. keeps_caches P (cb j v ice)"
  shows "caches_clean P w \<Longrightarrow> caches_clean P (snd (loop_nodes P this cb vs ns w))"
proof (induction ns arbitrary: w)
  case Nil
  then show ?case by simp
next
  case (Cons node ns)
  obtain res w1 where a: "loop_items P cb node 0 vs [] w = (res, w1)"
    by (cases "loop_items P cb node 0 vs [] w")
  have c1: "caches_clean P w1"
    using loop_items_keeps [of P cb w node 0 vs "[]"] cb Cons.prems a by simp
  show ?case
  proof (cases res)
    case (Inl err)
    then show ?thesis using c1 by (simp add: a)
  next
    case (Inr results)
    have m: "caches_clean P (remove_all [node] (w1\<lparr>forest := append_nodes t results (forest w1)\<rparr>))"
      for t
      using c1 by (simp add: caches_clean_def)
    show ?thesis
    proof (cases "parent node (forest w1)")
      case (Some p)
      then show ?thesis
        using Cons.IH [OF m [of p]] by (simp add: a Inr)
    next
      case None
      show ?thesis
      proof (cases "root (engine w1 this)")
        case None
        then show ?thesis
          using c1 \<open>parent node (forest w1) = None\<close> by (simp add: a Inr)
      next
        case (Some r)
        then show ?thesis
          using Cons.IH [OF m [of r]] \<open>parent node (forest w1) = None\<close> by (simp add: a Inr)
      qed
    qed
  qed
qed

lemma resolve_callback_keeps:
  assumes "resolve_callback P ident cb = Inr f"
    and "callbacks_keep P (CallLoop this ident vs cb)"
  shows "keeps_caches P (f j v ice)"
proof (cases cb)
  case (Fn g)
  then show ?thesis using assms by (simp add: resolve_callback_def)
next
  case (Name s)
  then show ?thesis
    using assms text_shorthand_keeps [of P ident j v ice] load_shorthand_keeps [of P ident j v ice]
    by (auto simp: resolve_callback_def split: if_splits)
next
  case NotCallable
  then show ?thesis using assms by (simp add: resolve_callback_def)
qed

lemma loop_keeps:
  assumes "callbacks_keep P (CallLoop this ident vals cb)" and c: "caches_clean P w"
  shows "caches_clean P (snd (loop P this ident vals cb w))"
proof (cases "\<exists>vs. vals = Arr vs")
  case False
  then show ?thesis
    using c by (cases vals) (simp_all add: loop_def)
next
  case True
  then obtain vs where v: "vals = Arr vs" by blast
  show ?thesis
  proof (cases "resolve_callback P ident cb")
    case (Inl err)
    then show ?thesis using c by (simp add: loop_def v)
  next
    case (Inr f)
    have k: "\<And>j x ice. keeps_caches P (f j x ice)"
      using resolve_callback_keeps [OF Inr assms(1)] .
    obtain res w1 where n: "nodes P this ident w = (res, w1)"
      by (cases "nodes P this ident w")
    have c1: "caches_clean P w1"
      using c engines_nodes [of P this ident w] n by (simp add: caches_clean_def)
    show ?thesis
    proof (cases res)
      case (Inl err)
      then show ?thesis using c1 by (simp add: loop_def v \<open>resolve_callback P ident cb = Inr f\<close> n)
    next
      case (Inr ns)
      obtain u w2 where l: "loop_nodes P this f vs ns w1 = (u, w2)"
        by (cases "loop_nodes P this f vs ns w1")
      have c2: "caches_clean P w2"
        using loop_nodes_keeps [of P f w1 this vs ns] k c1 l by simp
      have c3: "caches_clean P (remove_all ns w1)"
        using c1 by (simp add: caches_clean_def)
      show ?thesis
        using c2 c3
        by (cases u) (simp_all add: loop_def v \<open>resolve_callback P ident cb = Inr f\<close> n Inr l)
    qed
  qed
qed

lemma into_loop_keeps:
  assumes cb: "\<And>ice. keeps_caches P (cb v ice)"
  shows "caches_clean P w \<Longrightarrow> caches_clean P (snd (into_loop P cb v ns w))"
proof (induction ns arbitrary: w)
  case Nil
  then show ?case by simp
next
  case (Cons node ns)
  obtain res w1 where d: "constructor P (Parsed node) None None w = (res, w1)"
    by (cases "constructor P (Parsed node) None None w")
  have c1: "caches_clean P w1"
    using constructor_keeps [OF Cons.prems, of "Parsed node" None None] d by simp
  show ?case
  proof (cases res)
    case (Inl err)
    then show ?thesis using c1 by (simp add: d)
  next
    case (Inr ice)
    obtain u w2 where f: "cb v ice w1 = (u, w2)"
      by (cases "cb v ice w1")
    have c2: "caches_clean P w2"
      using cb [of ice] c1 f by (auto simp: keeps_caches_def)
    show ?thesis
    proof (cases u)
      case (Inl err)
      then show ?thesis using c2 by (simp add: d Inr f)
    next
      case (Inr x)
      then show ?thesis
        using Cons.IH [OF c2] by (simp add: d \<open>res = Inr ice\<close> f)
    qed
  qed
qed

lemma into_keeps:
  assumes "callbacks_keep P (CallInto this ident v cb)" and c: "caches_clean P w"
  shows "caches_clean P (snd (into P this ident v cb w))"
proof -
  obtain res w1 where n: "nodes P this ident w = (res, w1)"
    by (cases "nodes P this ident w")
  have c1: "caches_clean P w1"
    using c engines_nodes [of P this ident w] n by (simp add: caches_clean_def)
  have c3: "caches_clean P (remove_all ns w1)" for ns
    using c1 by (simp add: caches_clean_def)
  show ?thesis
  proof (cases res)
    case (Inl err)
    then show ?thesis using c1 by (simp add: into_def n)
  next
    case (Inr ns)
    show ?thesis
    proof (cases "v = Str [] \<or> v = Null \<or> v = Undefined \<or> v = Arr []")
      case True
      then show ?thesis using c3 [of ns] by (auto simp: into_def n Inr)
    next
      case False
      show ?thesis
      proof (cases cb)
        case NotFunction
        then show ?thesis using False c1 by (simp add: into_def n Inr)
      next
        case (IntoFn g)
        obtain u w2 where l: "into_loop P g v ns w1 = (u, w2)"
          by (cases "into_loop P g v ns w1")
        have k: "\<And>ice. keeps_caches P (g v ice)"
          using assms(1) IntoFn by simp
        have c2: "caches_clean P w2"
          using into_loop_keeps [of P g v w1 ns] k c1 l by simp
        show ?thesis
          using False c2 by (cases u) (simp_all add: into_def n Inr IntoFn l)
      qed
    qed
  qed
qed

lemma setter_keeps:
  "caches_clean P w \<Longrightarrow> caches_clean P (set_autoClose this val w)"
  "caches_clean P w \<Longrightarrow> caches_clean P (set_autoDrop this val w)"
  "caches_clean P w \<Longrightarrow> caches_clean P (set_debug v w)"
proof -
  assume c: "caches_clean P w"
  show "caches_clean P (set_autoClose this val w)"
    unfolding set_autoClose_def
    using caches_clean_engine [OF c, of this] by (auto intro!: caches_clean_set_engine [OF c])
  show "caches_clean P (set_autoDrop this val w)"
    unfolding set_autoDrop_def
    using caches_clean_engine [OF c, of this] by (auto intro!: caches_clean_set_engine [OF c])
  show "caches_clean P (set_debug v w)"
    using c by (simp add: set_debug_def caches_clean_def)
qed

lemma perform_keeps:
  assumes "callbacks_keep P c" and "caches_clean P w"
  shows "caches_clean P (snd (perform P c w))
    \<and> (\<forall>s. fst (perform P c w) = Some s \<longrightarrow> serialized P s)"
proof (cases c)
  case (CallLoop this ident vs cb)
  then show ?thesis using assms loop_keeps by simp
next
  case (CallInto this ident v cb)
  then show ?thesis using assms into_keeps by simp
next
  case (CallHtml this)
  then show ?thesis using assms html_keeps [of P w this] by simp
qed (use assms in \<open>simp_all add: constructor_keeps setter_keeps attr_keeps close_keeps drop_keeps
      load_keeps text_keeps\<close>)

text \<open>
  C7. Start in a world whose cached outputs are serialisations of forests without a tag
  carrying \<open>data-ice-loaded\<close> (the world without engines is one), and make any sequence
  of calls of the public operations, on any instances, with callbacks that themselves
  keep the caches so. Then every string the getter \<open>html\<close> returns is what the
  provider renders from a forest in which no tag carries \<open>data-ice-loaded\<close>:
  \<open>_takeHTML\<close> strips the flag from every tag below the root before it serialises, and
  the cache only ever holds what \<open>_takeHTML\<close> returned.
\<close>

theorem outputs_without_loaded_flag:
  assumes "caches_clean P w" and "\<forall>c\<in>set cs. callbacks_keep P c"
  shows "(\<forall>s\<in>set (fst (run P cs w)). serialized P s) \<and> caches_clean P (snd (run P cs w))"
  using assms
proof (induction cs arbitrary: w)
  case Nil
  then show ?case by simp
next
  case (Cons c cs)
  obtain out w1 where p: "perform P c w = (out, w1)"
    by (cases "perform P c w")
  have k: "caches_clean P w1 \<and> (\<forall>s. out = Some s \<longrightarrow> serialized P s)"
    using perform_keeps [of P c w] Cons.prems p by simp
  obtain outs w2 where r: "run P cs w1 = (outs, w2)"
    by (cases "run P cs w1")
  have "(\<forall>s\<in>set outs. serialized P s) \<and> caches_clean P w2"
    using Cons.IH [of w1] k Cons.prems r by simp
  then show ?case
    using k by (cases out) (simp_all add: p r)
qed

theorem outputs_without_loaded_flag_witness:
  "caches_clean sample page
   \<and> callbacks_keep sample (CallLoop 0 ''item'' (Arr [Str ''a'']) (Fn set_class))
   \<and> fst (run sample session page) = [show_nodes listing, show_nodes listing]
   \<and> read_attr 6 ''data-ice-loaded'' (snd (run sample session page)) = Some ''1''
   \<and> serialized sample (show_nodes listing)"
proof -
  have c: "caches_clean sample page"
    by (simp add: caches_clean_def page_def)
  have "snd (set_class j v ice w) = snd (attr sample ice ''item'' ''class'' v (Some ''write'') w)"
    for j v ice w
    by (simp add: set_class_def split: prod.splits sum.splits)
  then have "keeps_caches sample (set_class j v ice)" for j v ice
    by (simp add: keeps_caches_def attr_keeps)
  then have k1: "callbacks_keep sample (CallLoop 0 ''item'' (Arr [Str ''a'']) (Fn set_class))"
    by simp
  then have k: "\<forall>c\<in>set session. callbacks_keep sample c"
    by (simp add: session_def)
  have r: "fst (run sample session page) = [show_nodes listing, show_nodes listing]"
    by code_simp
  have a: "read_attr 6 ''data-ice-loaded'' (snd (run sample session page)) = Some ''1''"
    by code_simp
  show ?thesis
    using c k1 r a outputs_without_loaded_flag [OF c k] by simp
qed

subsection \<open>The list expansion: one item\<close>

lemma loop_items_prepare:
  "loop_items P cb node j (v # vs) results w =
     (case prepare P node w of
        (clonedNode, textNode, res, w4) \<Rightarrow>
          (case res of
             Inl e \<Rightarrow> (Inl e, w4)
           | Inr ice \<Rightarrow>
               (case cb j v ice w4 of
                  (Inl e, w5) \<Rightarrow> (Inl e, w5)
                | (Inr u, w5) \<Rightarrow>
                    loop_items P cb node (Suc j) vs (results @ [clonedNode, textNode]) w5)))"
  by (simp add: prepare_def split: prod.splits sum.splits)

lemma relabel1_bounds:
  "relabel1 k t = (t', k') \<Longrightarrow> k \<le> k' \<and> (\<forall>i\<in>set (ids1 t'). k \<le> i \<and> i < k')"
  and relabel_bounds:
  "relabel k ts = (ts', k') \<Longrightarrow> k \<le> k' \<and> (\<forall>i\<in>set (ids ts'). k \<le> i \<and> i < k')"
proof (induction k t and k ts arbitrary: t' k' and ts' k' rule: relabel1_relabel.induct)
  case (1 k s)
  then show ?case by auto
next
  case (2 k i kd a cs)
  obtain cs' k1 where r: "relabel (Suc k) cs = (cs', k1)"
    by (cases "relabel (Suc k) cs")
  then show ?case
    using 2 by fastforce
next
  case (3 k)
  then show ?case by auto
next
  case (4 k t ts)
  obtain t1 k1 where a: "relabel1 k t = (t1, k1)"
    by (cases "relabel1 k t")
  obtain ts1 k2 where b: "relabel k1 ts = (ts1, k2)"
    by (cases "relabel k1 ts")
  show ?case
    using 4(1) [OF a] 4(2) [OF a [symmetric] b] 4(3) a b by fastforce
qed


lemma prune1_absent: "n \<notin> set (ids1 t) \<Longrightarrow> prune1 n t = t"
  and prune_absent: "n \<notin> set (ids ts) \<Longrightarrow> prune n ts = ts"
proof (induction n t and n ts rule: prune1_prune.induct)
  case (4 n t ts)
  then show ?case by (cases t) auto
qed auto

lemma modify1_absent: "n \<notin> set (ids1 t) \<Longrightarrow> modify1 n g t = t"
  and modify_absent: "n \<notin> set (ids ts) \<Longrightarrow> modify n g ts = ts"
  by (induction n g t and n g ts rule: modify1_modify.induct) auto

lemma prune_append: "prune n (xs @ ys) = prune n xs @ prune n ys"
  by (induction xs) auto

lemma modify_append: "modify n g (xs @ ys) = modify n g xs @ modify n g ys"
  by (induction xs) auto

lemma prepare_explicit:
  assumes b: "bounded w" and l: "lookup node (forest w) = Some t"
    and d: "relabel (Suc (fresh w)) (parse P ''<div/>'') = (divs, k1)"
    and c: "relabel1 k1 t = (c, k2)"
    and n: "relabel (Suc k2) (parse P [CHR 0x0A]) = (nls, k3)"
  shows "prepare P node w =
    (k1, k2, Inr (length (engines w)),
     w\<lparr>forest := forest w @ [Node (fresh w) Root [] (divs @ [c]), Node k2 Root [] nls],
       fresh := k3,
       engines := engines w @
         [\<lparr>root = Some (fresh w), autoClose = True, autoDrop = True, html_cache = None,
           eventbus = None\<rparr>]\<rparr>)"
proof -
  let ?h = "fresh w"
  let ?F = "forest w"
  let ?hd = "Node ?h Root [] divs"
  let ?nd = "Node k2 Root [] nls"
  obtain kd a cs where t: "t = Node node kd a cs"
    using lookup_is_node [OF l] by blast
  obtain cs' where c': "c = Node k1 kd a cs'" and k12: "k1 < k2"
    using c relabel_bounds [of "Suc k1" cs] unfolding t
    by (cases "relabel (Suc k1) cs") auto
  have old: "\<forall>i\<in>set (ids ?F). i < ?h"
    using b by (simp add: bounded_def)
  have db: "Suc ?h \<le> k1" "\<forall>i\<in>set (ids divs). Suc ?h \<le> i \<and> i < k1"
    using relabel_bounds [OF d] by auto
  have nb: "\<forall>i\<in>set (ids nls). Suc k2 \<le> i"
    using relabel_bounds [OF n] by auto
  have cb: "\<forall>i\<in>set (ids1 c). k1 \<le> i \<and> i < k2"
    using relabel1_bounds [OF c] by auto
  have h_old: "?h \<notin> set (ids ?F)" and k1_old: "k1 \<notin> set (ids ?F)"
    using old db(1) by auto
  have k1_hd: "k1 \<notin> set (ids1 ?hd)" and h_divs: "?h \<notin> set (ids divs)"
    using db by auto
  have k1_nd: "k1 \<notin> set (ids1 ?nd)" and h_nd: "?h \<notin> set (ids1 ?nd)"
    using nb k12 db(1) by auto
  have w1: "load_root P ''<div/>'' w = (?h, w\<lparr>forest := ?F @ [?hd], fresh := k1\<rparr>)"
    by (simp add: load_root_def d)
  have w2: "clone node (w\<lparr>forest := ?F @ [?hd], fresh := k1\<rparr>)
      = (k1, w\<lparr>forest := ?F @ [?hd, c], fresh := k2\<rparr>)"
    by (simp add: clone_def lookup_append l c)
  have w3: "load_root P [CHR 0x0A] (w\<lparr>forest := ?F @ [?hd, c], fresh := k2\<rparr>)
      = (k2, w\<lparr>forest := ?F @ [?hd, c, ?nd], fresh := k3\<rparr>)"
    by (simp add: load_root_def n)
  have "lookup k1 ?F = None" and "lookup k1 divs = None"
    using k1_old k1_hd by (simp_all add: lookup_None_iff)
  then have look: "lookup k1 (?F @ [?hd, c, ?nd]) = Some c"
    using db(1) by (simp add: lookup_append c')
  have pr: "prune k1 (?F @ [?hd, c, ?nd]) = ?F @ [?hd, ?nd]"
    using prune_absent [OF k1_old] prune1_absent [OF k1_hd] prune1_absent [OF k1_nd] db(1) k12
    by (simp add: prune_append c')
  have mo: "modify ?h (add_kid c) (?F @ [?hd, ?nd]) = ?F @ [Node ?h Root [] (divs @ [c]), ?nd]"
    using modify_absent [OF h_old] modify_absent [OF h_divs] modify1_absent [OF h_nd] db(1) k12
    by (simp add: modify_append)
  have ap: "append_nodes ?h [k1] (?F @ [?hd, c, ?nd]) = ?F @ [Node ?h Root [] (divs @ [c]), ?nd]"
    by (simp add: append_nodes_def move_into_def look pr mo)
  show ?thesis
    by (simp add: prepare_def w1 w2 w3 ap constructor_def)
qed

subsection \<open>The list expansion: where the clones go\<close>

lemma subtree_ids_Cons:
  "subtree_ids n (t # ts) = (if n \<in> set (ids1 t) then subtree_ids1 n t else subtree_ids n ts)"
proof (cases "lookup1 n t")
  case None
  then have "n \<notin> set (ids1 t)" by (simp add: lookup1_None_iff)
  then show ?thesis using None by (simp add: subtree_ids_def)
next
  case (Some x)
  then have "n \<in> set (ids1 t)" using lookup1_None_iff [of n t] by auto
  then show ?thesis using Some by (simp add: subtree_ids_def subtree_ids1_def)
qed

lemma subtree_ids1_Node:
  "subtree_ids1 n (Node i k a cs) = (if i = n then set (ids1 (Node i k a cs)) else subtree_ids n cs)"
  by (simp add: subtree_ids_def subtree_ids1_def)

lemma subtree_ids_absent: "n \<notin> set (ids ts) \<Longrightarrow> subtree_ids n ts = {}"
  by (simp add: subtree_ids_def lookup_None_iff [symmetric])

lemma node_id_prune1 [simp]: "node_id (prune1 n t) = node_id t"
  by (cases t) auto

lemma lookup1_prune:
  "distinct (ids1 t) \<Longrightarrow> p \<notin> subtree_ids1 n t \<Longrightarrow>
     lookup1 p (prune1 n t) = map_option (prune1 n) (lookup1 p t)"
  and lookup_prune:
  "distinct (ids ts) \<Longrightarrow> p \<notin> subtree_ids n ts \<Longrightarrow>
     lookup p (prune n ts) = map_option (prune1 n) (lookup p ts)"
proof (induction n t and n ts rule: prune1_prune.induct)
  case (1 n s)
  show ?case by simp
next
  case (2 n i k a cs)
  show ?case
  proof (cases "i = p")
    case True
    then show ?thesis by simp
  next
    case False
    have "p \<notin> subtree_ids n cs"
    proof (cases "i = n")
      case True
      then have "n \<notin> set (ids cs)" using 2(2) by simp
      then show ?thesis by (simp add: subtree_ids_absent)
    next
      case False
      then show ?thesis using 2(3) by (simp add: subtree_ids1_Node)
    qed
    then show ?thesis
      using False 2 by simp
  qed
next
  case (3 n)
  show ?case by simp
next
  case (4 n t ts)
  have dt: "distinct (ids1 t)" and dts: "distinct (ids ts)"
    and dis: "set (ids1 t) \<inter> set (ids ts) = {}"
    using 4(4) by auto
  show ?case
  proof (cases "node_id t = Some n")
    case True
    then have nt: "n \<in> set (ids1 t)" by (cases t) auto
    then have "n \<notin> set (ids ts)" using dis by auto
    then have s: "p \<notin> subtree_ids n ts" by (simp add: subtree_ids_absent)
    have "lookup1 n t = Some t" using True by (cases t) auto
    then have "p \<notin> set (ids1 t)"
      using 4(5) nt by (simp add: subtree_ids_Cons subtree_ids1_def)
    then have "lookup1 p t = None" by (simp add: lookup1_None_iff)
    then show ?thesis
      using True 4(1) [OF True dts s] by simp
  next
    case False
    have s1: "p \<notin> subtree_ids1 n t" and s2: "p \<notin> subtree_ids n ts"
    proof -
      show "p \<notin> subtree_ids1 n t"
      proof (cases "n \<in> set (ids1 t)")
        case True
        then show ?thesis using 4(5) by (simp add: subtree_ids_Cons)
      next
        case False
        then show ?thesis by (simp add: subtree_ids1_def lookup1_None_iff [symmetric])
      qed
      show "p \<notin> subtree_ids n ts"
      proof (cases "n \<in> set (ids1 t)")
        case True
        then have "n \<notin> set (ids ts)" using dis by auto
        then show ?thesis by (simp add: subtree_ids_absent)
      next
        case False
        then show ?thesis using 4(5) by (simp add: subtree_ids_Cons)
      qed
    qed
    show ?thesis
      using False 4(2) [OF False dt s1] 4(3) [OF False dts s2]
      by (simp split: option.splits)
  qed
qed

lemma lookup1_modify_add:
  "r \<notin> set (ids1 t) \<Longrightarrow>
     lookup1 r (modify1 p (add_kid t) x) = map_option (modify1 p (add_kid t)) (lookup1 r x)"
  and lookup_modify_add:
  "r \<notin> set (ids1 t) \<Longrightarrow>
     lookup r (modify p (add_kid t) xs) = map_option (modify1 p (add_kid t)) (lookup r xs)"
proof (induction r x and r xs rule: lookup1_lookup.induct)
  case (2 n i k a cs)
  have "lookup1 n t = None" using 2(2) by (simp add: lookup1_None_iff)
  then show ?case
    using 2 by (auto simp: lookup_append split: option.splits)
qed (auto split: option.splits)

lemma lookup1_subtree:
  "distinct (ids1 t) \<Longrightarrow> lookup1 n t = Some x \<Longrightarrow> distinct (ids1 x) \<and> set (ids1 x) \<subseteq> set (ids1 t)"
  and lookup_subtree:
  "distinct (ids ts) \<Longrightarrow> lookup n ts = Some x \<Longrightarrow> distinct (ids1 x) \<and> set (ids1 x) \<subseteq> set (ids ts)"
  by (induction n t and n ts rule: lookup1_lookup.induct) (auto split: option.splits if_splits)

lemma top_ids_prune:
  "List.map_filter node_id (prune n cs) = filter (\<lambda>i. i \<noteq> n) (List.map_filter node_id cs)"
  by (induction cs) (auto split: option.splits)

lemma ids1_prune1_subset: "set (ids1 (prune1 n t)) \<subseteq> set (ids1 t)"
  using prune1_ids [of n t] by (cases t) auto

lemma kids_prune1: "kids (prune1 n t) = prune n (kids t)"
  by (cases t) auto

lemma top_ids_append:
  "List.map_filter node_id (xs @ ys) = List.map_filter node_id xs @ List.map_filter node_id ys"
  by (induction xs) (auto split: option.splits)

lemma children_prune:
  assumes "distinct (ids f)" and "p \<notin> subtree_ids n f"
  shows "children_of p (prune n f) = prune n (children_of p f)"
  using lookup_prune [OF assms]
  by (cases "lookup p f") (auto simp: children_of_def kids_prune1)

lemma kid_ids_move_into:
  assumes d: "distinct (ids f)" and n: "lookup n f = Some t" and p: "p \<in> set (ids f)"
    and pt: "p \<notin> set (ids1 t)"
  shows "kid_ids p (move_into p n f) = filter (\<lambda>i. i \<noteq> n) (kid_ids p f) @ [n]"
proof -
  obtain x where x: "lookup p f = Some x"
    using p lookup_None_iff [of p f] by auto
  obtain k a cs where xn: "x = Node p k a cs"
    using lookup_is_node [OF x] by blast
  have sub: "p \<notin> subtree_ids n f"
    using pt n by (simp add: subtree_ids_def)
  have l1: "lookup p (prune n f) = Some (Node p k a (prune n cs))"
    using lookup_prune [OF d sub] x xn by simp
  have "distinct (ids1 x)"
    using lookup_subtree [OF d x] by simp
  then have "p \<notin> set (ids cs)"
    using xn by simp
  then have "p \<notin> set (ids (prune n cs))"
    using prune_ids [of n cs] by auto
  then have m: "modify p (add_kid t) (prune n cs) = prune n cs"
    by (rule modify_absent)
  have l2: "lookup p (modify p (add_kid t) (prune n f)) = Some (Node p k a (prune n cs @ [t]))"
    using lookup_modify_add [OF pt, of p "prune n f"] l1 m by simp
  obtain k' a' cs' where tn: "t = Node n k' a' cs'"
    using lookup_is_node [OF n] by blast
  show ?thesis
    using l2 x xn tn
    by (simp add: kid_ids_def children_of_def move_into_def n top_ids_prune top_ids_append)
qed

lemma kid_ids_detach:
  assumes d: "distinct (ids f)" and n: "lookup n f = Some t" and p: "p \<in> set (ids f)"
    and pt: "p \<notin> set (ids1 t)"
  shows "kid_ids p (detach n f) = filter (\<lambda>i. i \<noteq> n) (kid_ids p f)"
proof -
  obtain x where x: "lookup p f = Some x"
    using p lookup_None_iff [of p f] by auto
  obtain k a cs where xn: "x = Node p k a cs"
    using lookup_is_node [OF x] by blast
  have sub: "p \<notin> subtree_ids n f"
    using pt n by (simp add: subtree_ids_def)
  have l1: "lookup p (prune n f) = Some (Node p k a (prune n cs))"
    using lookup_prune [OF d sub] x xn by simp
  show ?thesis
    using l1 x xn
    by (simp add: kid_ids_def children_of_def detach_def n lookup_append top_ids_prune)
qed

lemma subtree_ids_subset: "distinct (ids ts) \<Longrightarrow> subtree_ids n ts \<subseteq> set (ids ts)"
  using lookup_subtree [of ts n] by (auto simp: subtree_ids_def split: option.splits)

lemma subtree_ids1_other:
  "node_id t \<noteq> Some n \<Longrightarrow> subtree_ids1 n t = subtree_ids n (kids t)"
  by (cases t) (auto simp: subtree_ids1_def subtree_ids_def)

lemma subtree_ids1_self:
  "node_id t = Some n \<Longrightarrow> subtree_ids1 n t = set (ids1 t)"
  by (cases t) (auto simp: subtree_ids1_def)

lemma ids1_prune1:
  "distinct (ids1 t) \<Longrightarrow>
     distinct (ids1 (prune1 n t))
     \<and> set (ids1 (prune1 n t)) = set (ids1 t) - subtree_ids n (kids t)"
  and ids_prune:
  "distinct (ids ts) \<Longrightarrow>
     distinct (ids (prune n ts)) \<and> set (ids (prune n ts)) = set (ids ts) - subtree_ids n ts"
proof (induction n t and n ts rule: prune1_prune.induct)
  case (1 n s)
  show ?case by (simp add: subtree_ids_def)
next
  case (2 n i k a cs)
  have d: "distinct (ids cs)" and i: "i \<notin> set (ids cs)"
    using 2(2) by auto
  have "subtree_ids n cs \<subseteq> set (ids cs)"
    using subtree_ids_subset [OF d] .
  then show ?case
    using 2(1) [OF d] i by auto
next
  case (3 n)
  show ?case by (simp add: subtree_ids_def)
next
  case (4 n t ts)
  have dt: "distinct (ids1 t)" and dts: "distinct (ids ts)"
    and dis: "set (ids1 t) \<inter> set (ids ts) = {}"
    using 4(4) by auto
  show ?case
  proof (cases "node_id t = Some n")
    case True
    then have nt: "n \<in> set (ids1 t)" by (cases t) auto
    then have "n \<notin> set (ids ts)" using dis by auto
    then have "prune n ts = ts" by (rule prune_absent)
    then show ?thesis
      using True nt dts dis by (auto simp: subtree_ids_Cons subtree_ids1_self)
  next
    case False
    have a: "distinct (ids1 (prune1 n t))"
      "set (ids1 (prune1 n t)) = set (ids1 t) - subtree_ids n (kids t)"
      using 4(2) [OF False dt] by auto
    have b: "distinct (ids (prune n ts))"
      "set (ids (prune n ts)) = set (ids ts) - subtree_ids n ts"
      using 4(3) [OF False dts] by auto
    have kids_d: "distinct (ids (kids t))"
      using dt by (cases t) auto
    have s1: "subtree_ids n (kids t) \<subseteq> set (ids1 t)"
      using subtree_ids_subset [OF kids_d] ids_kids_subset [of t] by auto
    have s2: "subtree_ids n ts \<subseteq> set (ids ts)"
      using subtree_ids_subset [OF dts] .
    show ?thesis
    proof (cases "n \<in> set (ids1 t)")
      case True
      then have "n \<notin> set (ids ts)" using dis by auto
      then have "subtree_ids n ts = {}" by (rule subtree_ids_absent)
      then show ?thesis
        using False True a b dis s1
        by (auto simp: subtree_ids_Cons subtree_ids1_other)
    next
      case n: False
      then have "n \<notin> set (ids (kids t))" using ids_kids_subset [of t] by auto
      then have "subtree_ids n (kids t) = {}" by (rule subtree_ids_absent)
      then show ?thesis
        using False n a b dis s2
        by (auto simp: subtree_ids_Cons)
    qed
  qed
qed

lemma ids1_modify_add_gen:
  "g = add_kid t \<Longrightarrow> distinct (ids1 x) \<Longrightarrow> distinct (ids1 t) \<Longrightarrow>
     set (ids1 x) \<inter> set (ids1 t) = {} \<Longrightarrow>
     distinct (ids1 (modify1 p g x))
     \<and> set (ids1 (modify1 p g x))
        = set (ids1 x) \<union> (if p \<in> set (ids1 x) then set (ids1 t) else {})"
  and ids_modify_add_gen:
  "g = add_kid t \<Longrightarrow> distinct (ids xs) \<Longrightarrow> distinct (ids1 t) \<Longrightarrow>
     set (ids xs) \<inter> set (ids1 t) = {} \<Longrightarrow>
     distinct (ids (modify p g xs))
     \<and> set (ids (modify p g xs))
        = set (ids xs) \<union> (if p \<in> set (ids xs) then set (ids1 t) else {})"
proof (induction p g x and p g xs rule: modify1_modify.induct)
  case (1 n f s)
  show ?case by simp
next
  case (2 n f i k a cs)
  have d: "distinct (ids cs)" and i: "i \<notin> set (ids cs)" and it: "i \<notin> set (ids1 t)"
    and dis: "set (ids cs) \<inter> set (ids1 t) = {}"
    using "2.prems" by auto
  show ?case
  proof (cases "i = n")
    case True
    then have "modify n f cs = cs"
      using i modify_absent by auto
    then show ?thesis
      using True "2.prems" by auto
  next
    case False
    then show ?thesis
      using "2.IH"(2) [OF False "2.prems"(1) d "2.prems"(3) dis] i it by auto
  qed
next
  case (3 n f)
  show ?case by simp
next
  case (4 n f x xs)
  have dx: "distinct (ids1 x)" and dxs: "distinct (ids xs)"
    and dis: "set (ids1 x) \<inter> set (ids xs) = {}"
    and d1: "set (ids1 x) \<inter> set (ids1 t) = {}" and d2: "set (ids xs) \<inter> set (ids1 t) = {}"
    using "4.prems" by auto
  show ?case
    using "4.IH"(1) [OF "4.prems"(1) dx "4.prems"(3) d1]
      "4.IH"(2) [OF "4.prems"(1) dxs "4.prems"(3) d2] dis d1 d2
    by (auto split: if_splits)
qed

lemma ids_modify_add:
  "distinct (ids xs) \<Longrightarrow> distinct (ids1 t) \<Longrightarrow> set (ids xs) \<inter> set (ids1 t) = {} \<Longrightarrow>
     distinct (ids (modify p (add_kid t) xs))
     \<and> set (ids (modify p (add_kid t) xs))
        = set (ids xs) \<union> (if p \<in> set (ids xs) then set (ids1 t) else {})"
  by (rule ids_modify_add_gen) simp_all

lemma ids_move_into:
  assumes d: "distinct (ids f)" and n: "lookup n f = Some t" and p: "p \<in> set (ids f)"
    and pt: "p \<notin> set (ids1 t)"
  shows "distinct (ids (move_into p n f)) \<and> set (ids (move_into p n f)) = set (ids f)"
proof -
  have s: "subtree_ids n f = set (ids1 t)"
    using n by (simp add: subtree_ids_def)
  have a: "distinct (ids (prune n f))" "set (ids (prune n f)) = set (ids f) - set (ids1 t)"
    using ids_prune [OF d, of n] s by auto
  have t: "distinct (ids1 t)" "set (ids1 t) \<subseteq> set (ids f)"
    using lookup_subtree [OF d n] by auto
  have dis: "set (ids (prune n f)) \<inter> set (ids1 t) = {}"
    using a by auto
  show ?thesis
    using ids_modify_add [OF a(1) t(1) dis, of p] a(2) t(2) p pt
    by (auto simp: move_into_def n)
qed

lemma subtree_ids_move_into:
  assumes d: "distinct (ids f)" and n: "lookup n f = Some t"
    and rt: "r \<notin> set (ids1 t)" and pr: "p \<notin> subtree_ids r f"
  shows "subtree_ids r (move_into p n f) \<subseteq> subtree_ids r f"
proof (cases "lookup r f")
  case None
  have "r \<notin> subtree_ids n f"
    using rt n by (simp add: subtree_ids_def)
  then have "lookup r (prune n f) = None"
    using lookup_prune [OF d, of r n] None by simp
  then have "lookup r (move_into p n f) = None"
    using lookup_modify_add [OF rt, of p "prune n f"] by (simp add: move_into_def n)
  then show ?thesis by (simp add: subtree_ids_def)
next
  case (Some x)
  have "r \<notin> subtree_ids n f"
    using rt n by (simp add: subtree_ids_def)
  then have a: "lookup r (prune n f) = Some (prune1 n x)"
    using lookup_prune [OF d, of r n] Some by simp
  have px: "p \<notin> set (ids1 x)"
    using pr Some by (simp add: subtree_ids_def)
  then have "p \<notin> set (ids1 (prune1 n x))"
    using ids1_prune1_subset [of n x] by auto
  then have "modify1 p (add_kid t) (prune1 n x) = prune1 n x"
    by (rule modify1_absent)
  then have "lookup r (move_into p n f) = Some (prune1 n x)"
    using lookup_modify_add [OF rt, of p "prune n f"] a by (simp add: move_into_def n)
  then show ?thesis
    using Some ids1_prune1_subset [of n x] by (simp add: subtree_ids_def)
qed

lemma apart_move_into:
  assumes d: "distinct (ids f)" and p: "p \<in> set (ids f)" and dr: "distinct (r # rs)"
    and a: "apart p (r # rs) f"
  shows "distinct (ids (move_into p r f)) \<and> p \<in> set (ids (move_into p r f))
    \<and> apart p rs (move_into p r f)
    \<and> kid_ids p (move_into p r f) = filter (\<lambda>i. i \<noteq> r) (kid_ids p f) @ [r]"
proof -
  have rin: "r \<in> set (ids f)"
    using a by (simp add: apart_def)
  then obtain t where t: "lookup r f = Some t"
    using lookup_None_iff [of r f] by auto
  have st: "subtree_ids r f = set (ids1 t)"
    using t by (simp add: subtree_ids_def)
  have pt: "p \<notin> set (ids1 t)"
    using a st by (simp add: apart_def)
  have m: "distinct (ids (move_into p r f))" "set (ids (move_into p r f)) = set (ids f)"
    using ids_move_into [OF d t p pt] by auto
  have k: "kid_ids p (move_into p r f) = filter (\<lambda>i. i \<noteq> r) (kid_ids p f) @ [r]"
    using kid_ids_move_into [OF d t p pt] .
  have "apart p rs (move_into p r f)"
    unfolding apart_def
  proof (intro ballI conjI impI)
    fix x assume x: "x \<in> set rs"
    then have xr: "x \<noteq> r" using dr by auto
    have xin: "x \<in> set (ids f)" and px: "p \<notin> subtree_ids x f"
      using a x by (auto simp: apart_def)
    have xt: "x \<notin> set (ids1 t)"
      using a x xr st by (auto simp: apart_def)
    have sub: "subtree_ids x (move_into p r f) \<subseteq> subtree_ids x f"
      using subtree_ids_move_into [OF d t xt px] .
    show "x \<in> set (ids (move_into p r f))"
      using xin m by simp
    show "p \<notin> subtree_ids x (move_into p r f)"
      using sub px by auto
    fix y assume y: "y \<in> set rs" "y \<noteq> x"
    have "y \<notin> subtree_ids x f"
      using a x y by (auto simp: apart_def)
    then show "y \<notin> subtree_ids x (move_into p r f)"
      using sub by auto
  qed
  then show ?thesis
    using m p k by simp
qed

lemma append_nodes_kids:
  "distinct (ids f) \<Longrightarrow> p \<in> set (ids f) \<Longrightarrow> distinct (rs @ xs) \<Longrightarrow> apart p (rs @ xs) f \<Longrightarrow>
     distinct (ids (append_nodes p rs f)) \<and> p \<in> set (ids (append_nodes p rs f))
     \<and> apart p xs (append_nodes p rs f)
     \<and> kid_ids p (append_nodes p rs f) = filter (\<lambda>i. i \<notin> set rs) (kid_ids p f) @ rs"
proof (induction rs arbitrary: f)
  case Nil
  then show ?case by (simp add: append_nodes_def)
next
  case (Cons r rs)
  have dr: "distinct (r # (rs @ xs))"
    using Cons.prems(3) by simp
  have a: "apart p (r # (rs @ xs)) f"
    using Cons.prems(4) by simp
  let ?f = "move_into p r f"
  have s: "distinct (ids ?f)" "p \<in> set (ids ?f)" "apart p (rs @ xs) ?f"
    "kid_ids p ?f = filter (\<lambda>i. i \<noteq> r) (kid_ids p f) @ [r]"
    using apart_move_into [OF Cons.prems(1,2) dr a] by auto
  have d2: "distinct (rs @ xs)" and rn: "r \<notin> set rs"
    using Cons.prems(3) by auto
  have ih: "distinct (ids (append_nodes p rs ?f)) \<and> p \<in> set (ids (append_nodes p rs ?f))
     \<and> apart p xs (append_nodes p rs ?f)
     \<and> kid_ids p (append_nodes p rs ?f) = filter (\<lambda>i. i \<notin> set rs) (kid_ids p ?f) @ rs"
    using Cons.IH [OF s(1,2) d2 s(3)] .
  have e: "append_nodes p (r # rs) f = append_nodes p rs ?f"
    by (simp add: append_nodes_def)
  have fl: "filter (\<lambda>i. i \<notin> set rs) (filter (\<lambda>i. i \<noteq> r) (kid_ids p f) @ [r])
      = filter (\<lambda>i. i \<notin> set (r # rs)) (kid_ids p f) @ [r]"
    using rn by (auto intro: filter_cong)
  show ?case
    using ih by (simp add: e s(4) fl del: filter_append)
qed

lemma loop_step_kids:
  assumes d: "distinct (ids f)" and p: "p \<in> set (ids f)" and dr: "distinct (rs @ [node])"
    and a: "apart p (rs @ [node]) f"
  shows "kid_ids p (detach node (append_nodes p rs f))
     = filter (\<lambda>i. i \<noteq> node \<and> i \<notin> set rs) (kid_ids p f) @ rs"
proof -
  let ?f = "append_nodes p rs f"
  have s: "distinct (ids ?f)" "p \<in> set (ids ?f)" "apart p [node] ?f"
    "kid_ids p ?f = filter (\<lambda>i. i \<notin> set rs) (kid_ids p f) @ rs"
    using append_nodes_kids [OF d p dr a] by auto
  have nin: "node \<in> set (ids ?f)" and pn: "p \<notin> subtree_ids node ?f"
    using s(3) by (auto simp: apart_def)
  obtain t where t: "lookup node ?f = Some t"
    using nin lookup_None_iff [of node ?f] by auto
  have pt: "p \<notin> set (ids1 t)"
    using pn t by (simp add: subtree_ids_def)
  have nr: "node \<notin> set rs"
    using dr by auto
  have "kid_ids p (detach node ?f) = filter (\<lambda>i. i \<noteq> node) (kid_ids p ?f)"
    using kid_ids_detach [OF s(1) t s(2) pt] .
  moreover have "filter (\<lambda>i. i \<noteq> node) rs = rs"
    using nr by (induction rs) auto
  ultimately show ?thesis
    by (simp add: s(4) conj_commute)
qed

lemma loop_items_results:
  "fst (loop_items P cb node j vs results w) = Inr rs \<Longrightarrow>
     length rs = length results + 2 * length vs \<and> take (length results) rs = results"
proof (induction vs arbitrary: j results w)
  case Nil
  then show ?case by simp
next
  case (Cons v vs)
  obtain c t res w4 where pr: "prepare P node w = (c, t, res, w4)"
    by (cases "prepare P node w")
  show ?case
  proof (cases res)
    case (Inl e)
    then show ?thesis using Cons.prems by (simp add: loop_items_prepare pr del: loop_items.simps)
  next
    case (Inr ice)
    obtain u w5 where cbr: "cb j v ice w4 = (u, w5)"
      by (cases "cb j v ice w4")
    show ?thesis
    proof (cases u)
      case (Inl e)
      then show ?thesis using Cons.prems by (simp add: loop_items_prepare pr Inr cbr del: loop_items.simps)
    next
      case u: (Inr x)
      have "fst (loop_items P cb node (Suc j) vs (results @ [c, t]) w5) = Inr rs"
        using Cons.prems by (simp add: loop_items_prepare pr Inr cbr u del: loop_items.simps)
      then have "length rs = length (results @ [c, t]) + 2 * length vs
          \<and> take (length (results @ [c, t])) rs = results @ [c, t]"
        by (rule Cons.IH)
      then show ?thesis
        by (auto simp: take_Suc_conv_app_nth dest: arg_cong [where f = "take (length results)"])
    qed
  qed
qed

lemma loop_empty:
  assumes "root (engine w this) = Some r" and "ident \<noteq> []" and "plain_id ident"
    and "resolve_callback P ident cb = Inr g"
  shows "loop P this ident (Arr []) cb w =
      (Inr ReturnsUndefined, remove_all (resolve r ident (forest w)) (snd (nodes P this ident w)))
    \<and> (\<forall>n\<in>set (resolve r ident (forest w)). \<forall>r' sel.
          n \<notin> set (find_ids r' sel (forest (snd (loop P this ident (Arr []) cb w)))))"
proof -
  obtain w1 where n: "nodes P this ident w = (Inr (resolve r ident (forest w)), w1)"
    using nodes_open_eq [OF assms(1,2,3)] by blast
  show ?thesis
    by (simp add: loop_def assms(4) n removed_not_found)
qed

lemma loop_nodes_step:
  assumes "loop_items P g node 0 vs [] w = (Inr rs, w1)" and "root (engine w1 this) = Some r"
  shows "loop_nodes P this g vs (node # ns) w =
    loop_nodes P this g vs ns
      (remove_all [node]
        (w1\<lparr>forest := append_nodes (case parent node (forest w1) of None \<Rightarrow> r | Some p \<Rightarrow> p)
                         rs (forest w1)\<rparr>))"
  using assms by (simp split: option.splits)

text \<open>
  C5, as the code has it. With the empty array \<open>loop\<close> removes every resolved marker
  and no query finds it again. Otherwise, for a marker \<open>N\<close> and each value in turn, the
  inner loop prepares a new root container holding a \<open>div\<close> and a fresh copy of \<open>N\<close> as
  \<open>N\<close> is then, a new text node with a line break and a new child engine over the
  container, none of them sharing a node with the world before; it calls the callback and
  collects the clone and the text node, so that \<open>n\<close> values give \<open>n\<close> clones, each followed
  by its text node, in the order of the values. Then the collected nodes are appended to
  the parent of \<open>N\<close> (to the root when \<open>N\<close> has no parent tag): they become its last
  children, in their order, after the children that were there, and \<open>N\<close> is removed.
\<close>

theorem loop_expansion:
  "(root (engine w this) = Some r \<and> ident \<noteq> [] \<and> plain_id ident
      \<and> resolve_callback P ident cb = Inr g0 \<longrightarrow>
      loop P this ident (Arr []) cb w =
        (Inr ReturnsUndefined, remove_all (resolve r ident (forest w)) (snd (nodes P this ident w)))
      \<and> (\<forall>n\<in>set (resolve r ident (forest w)). \<forall>r' sel.
            n \<notin> set (find_ids r' sel (forest (snd (loop P this ident (Arr []) cb w))))))
   \<and> loop_items P g node j (v # vs) results w =
       (case prepare P node w of
          (clonedNode, textNode, res, w4) \<Rightarrow>
            (case res of
               Inl e \<Rightarrow> (Inl e, w4)
             | Inr ice \<Rightarrow>
                 (case g j v ice w4 of
                    (Inl e, w5) \<Rightarrow> (Inl e, w5)
                  | (Inr u, w5) \<Rightarrow>
                      loop_items P g node (Suc j) vs (results @ [clonedNode, textNode]) w5)))
   \<and> (bounded w \<and> lookup node (forest w) = Some t
        \<and> relabel (Suc (fresh w)) (parse P ''<div/>'') = (divs, k1)
        \<and> relabel1 k1 t = (c, k2)
        \<and> relabel (Suc k2) (parse P [CHR 0x0A]) = (nls, k3) \<longrightarrow>
      prepare P node w =
        (k1, k2, Inr (length (engines w)),
         w\<lparr>forest := forest w @ [Node (fresh w) Root [] (divs @ [c]), Node k2 Root [] nls],
           fresh := k3,
           engines := engines w @
             [\<lparr>root = Some (fresh w), autoClose = True, autoDrop = True, html_cache = None,
               eventbus = None\<rparr>]\<rparr>)
      \<and> (\<forall>i\<in>set (ids1 c). i \<notin> set (ids (forest w))))
   \<and> (fst (loop_items P g node j vs results w) = Inr rs \<longrightarrow>
        length rs = length results + 2 * length vs \<and> take (length results) rs = results)
   \<and> (loop_items P g node 0 vs [] w = (Inr rs, w1) \<and> root (engine w1 this) = Some r \<longrightarrow>
        loop_nodes P this g vs (node # ns) w =
          loop_nodes P this g vs ns
            (remove_all [node]
              (w1\<lparr>forest := append_nodes
                               (case parent node (forest w1) of None \<Rightarrow> r | Some p \<Rightarrow> p)
                               rs (forest w1)\<rparr>)))
   \<and> (distinct (ids (forest w1)) \<and> p \<in> set (ids (forest w1)) \<and> distinct (rs @ [node])
        \<and> apart p (rs @ [node]) (forest w1) \<longrightarrow>
        kid_ids p (forest (remove_all [node] (w1\<lparr>forest := append_nodes p rs (forest w1)\<rparr>)))
          = filter (\<lambda>i. i \<noteq> node \<and> i \<notin> set rs) (kid_ids p (forest w1)) @ rs
        \<and> (\<forall>r' sel. node \<notin> set (find_ids r' sel
              (forest (remove_all [node] (w1\<lparr>forest := append_nodes p rs (forest w1)\<rparr>))))))"
proof (intro conjI impI)
  assume a: "root (engine w this) = Some r \<and> ident \<noteq> [] \<and> plain_id ident
      \<and> resolve_callback P ident cb = Inr g0"
  show "loop P this ident (Arr []) cb w =
        (Inr ReturnsUndefined, remove_all (resolve r ident (forest w)) (snd (nodes P this ident w)))"
    and "\<forall>n\<in>set (resolve r ident (forest w)). \<forall>r' sel.
            n \<notin> set (find_ids r' sel (forest (snd (loop P this ident (Arr []) cb w))))"
    using loop_empty [of w this r ident P cb g0] a by auto
next
  show "loop_items P g node j (v # vs) results w =
       (case prepare P node w of
          (clonedNode, textNode, res, w4) \<Rightarrow>
            (case res of
               Inl e \<Rightarrow> (Inl e, w4)
             | Inr ice \<Rightarrow>
                 (case g j v ice w4 of
                    (Inl e, w5) \<Rightarrow> (Inl e, w5)
                  | (Inr u, w5) \<Rightarrow>
                      loop_items P g node (Suc j) vs (results @ [clonedNode, textNode]) w5)))"
    by (rule loop_items_prepare)
next
  assume a: "bounded w \<and> lookup node (forest w) = Some t
        \<and> relabel (Suc (fresh w)) (parse P ''<div/>'') = (divs, k1)
        \<and> relabel1 k1 t = (c, k2)
        \<and> relabel (Suc k2) (parse P [CHR 0x0A]) = (nls, k3)"
  show "prepare P node w =
        (k1, k2, Inr (length (engines w)),
         w\<lparr>forest := forest w @ [Node (fresh w) Root [] (divs @ [c]), Node k2 Root [] nls],
           fresh := k3,
           engines := engines w @
             [\<lparr>root = Some (fresh w), autoClose = True, autoDrop = True, html_cache = None,
               eventbus = None\<rparr>]\<rparr>)"
    using prepare_explicit [of w node t P divs k1 c k2 nls k3] a by simp
  have "Suc (fresh w) \<le> k1"
    using relabel_bounds [of "Suc (fresh w)" "parse P ''<div/>''" divs k1] a by simp
  moreover have "\<forall>i\<in>set (ids1 c). k1 \<le> i"
    using relabel1_bounds [of k1 t c k2] a by simp
  moreover have "\<forall>i\<in>set (ids (forest w)). i < fresh w"
    using a by (simp add: bounded_def)
  ultimately show "\<forall>i\<in>set (ids1 c). i \<notin> set (ids (forest w))"
    by fastforce
next
  assume "fst (loop_items P g node j vs results w) = Inr rs"
  then show "length rs = length results + 2 * length vs" and "take (length results) rs = results"
    using loop_items_results [of P g node j vs results w rs] by auto
next
  assume "loop_items P g node 0 vs [] w = (Inr rs, w1) \<and> root (engine w1 this) = Some r"
  then show "loop_nodes P this g vs (node # ns) w =
          loop_nodes P this g vs ns
            (remove_all [node]
              (w1\<lparr>forest := append_nodes
                               (case parent node (forest w1) of None \<Rightarrow> r | Some p \<Rightarrow> p)
                               rs (forest w1)\<rparr>))"
    using loop_nodes_step [of P g node vs w rs w1 this r ns] by simp
next
  assume a: "distinct (ids (forest w1)) \<and> p \<in> set (ids (forest w1)) \<and> distinct (rs @ [node])
        \<and> apart p (rs @ [node]) (forest w1)"
  show "kid_ids p (forest (remove_all [node] (w1\<lparr>forest := append_nodes p rs (forest w1)\<rparr>)))
          = filter (\<lambda>i. i \<noteq> node \<and> i \<notin> set rs) (kid_ids p (forest w1)) @ rs"
    using loop_step_kids [of "forest w1" p rs node] a by (simp add: remove_all_def)
  show "\<forall>r' sel. node \<notin> set (find_ids r' sel
              (forest (remove_all [node] (w1\<lparr>forest := append_nodes p rs (forest w1)\<rparr>))))"
    using removed_not_found [of node "[node]"] by simp
qed

subsection \<open>Marker resolution, read from the top\<close>

lemma ancestors1_None_iff: "ancestors1 n t = None \<longleftrightarrow> n \<notin> set (ids1 t)"
  and ancestors_None_iff: "ancestors n ts = None \<longleftrightarrow> n \<notin> set (ids ts)"
  by (induction n t and n ts rule: ancestors1_ancestors.induct) (auto split: option.splits)

lemma below1_outside: "r \<notin> set (ids1 t) \<Longrightarrow> below1 r ident False u t = []"
  and below_outside: "r \<notin> set (ids ts) \<Longrightarrow> below r ident False u ts = []"
  by (induction r ident "False" u t and r ident "False" u ts rule: below1_below.induct) auto

lemma matches_Nil [simp]: "matches ident [] = []"
  by (simp add: matches_def List.map_filter_def)

lemma map_filter_app: "List.map_filter g (xs @ ys) = List.map_filter g xs @ List.map_filter g ys"
  by (simp add: List.map_filter_def)

lemma matches_Cons_Text [simp]: "matches ident (Text s # ts) = matches ident ts"
  by (simp add: matches_def List.map_filter_def)

lemma matches_Cons_Node:
  "matches ident (Node i k a cs # ts) =
     (if is_tag (Node i k a cs) \<and> data_ice ident (Node i k a cs) then [i] else [])
     @ matches ident cs @ matches ident ts"
  by (simp add: matches_def List.map_filter_def)

lemma matches_subset: "set (matches ident cs) \<subseteq> set (ids cs)"
  by (auto simp: matches_def List.map_filter_def split: if_splits dest: subnodes_ids)

lemma chain_Node_self [simp]: "chain i [Node i k a cs] = []"
  by (simp add: chain_def)

text \<open>Inside the subtree: the filter of the source against the walk from the top.\<close>

lemma filter_below1:
  "distinct (ids1 t) \<Longrightarrow>
     filter (\<lambda>n. \<not> u \<and> filter flagged (chain n [t]) = []) (matches ident [t])
       = below1 r ident True u t"
  and filter_below:
  "distinct (ids ts) \<Longrightarrow>
     filter (\<lambda>n. \<not> u \<and> filter flagged (chain n ts) = []) (matches ident ts)
       = below r ident True u ts"
proof (induction r ident "True" u t and r ident "True" u ts rule: below1_below.induct)
  case (1 r ident blocked s)
  show ?case by simp
next
  case (2 r ident blocked i k a cs)
  let ?x = "Node i k a cs"
  have d: "distinct (ids cs)" and ni: "i \<notin> set (ids cs)"
    using 2(2) by simp_all
  have up: "chain n [?x] = chain n cs @ [?x]" if "n \<in> set (matches ident cs)" for n
  proof -
    have m: "n \<in> set (ids cs)"
      using that matches_subset by blast
    then have "n \<noteq> i"
      using ni by blast
    moreover obtain up where "ancestors n cs = Some up"
      using m ancestors_None_iff [of n cs] by (cases "ancestors n cs") auto
    ultimately show ?thesis
      by (simp add: chain_def)
  qed
  have "filter (\<lambda>n. \<not> blocked \<and> filter flagged (chain n [?x]) = []) (matches ident cs)
      = filter (\<lambda>n. \<not> (blocked \<or> flagged ?x) \<and> filter flagged (chain n cs) = [])
          (matches ident cs)"
    by (rule filter_cong) (auto simp: up)
  also have "\<dots> = below r ident True (blocked \<or> flagged ?x) cs"
    using 2(1) d by simp
  finally have rest: "filter (\<lambda>n. \<not> blocked \<and> filter flagged (chain n [?x]) = [])
      (matches ident cs) = below r ident True (blocked \<or> flagged ?x) cs" .
  have here: "chain i [?x] = []"
    by (simp add: chain_def)
  show ?case
    using rest here
    by (cases blocked; cases "flagged ?x") (simp_all add: matches_Cons_Node)
next
  case (3 r ident blocked)
  show ?case by simp
next
  case (4 r ident blocked t ts)
  have d1: "distinct (ids1 t)" and d2: "distinct (ids ts)"
    and dj: "set (ids1 t) \<inter> set (ids ts) = {}"
    using 4(3) by simp_all
  have split: "matches ident (t # ts) = matches ident [t] @ matches ident ts"
    by (simp add: matches_def map_filter_app)
  have a1: "chain n (t # ts) = chain n [t]" if "n \<in> set (matches ident [t])" for n
  proof -
    have "n \<in> set (ids1 t)"
      using that matches_subset [of ident "[t]"] by auto
    then obtain up where "ancestors1 n t = Some up"
      using ancestors1_None_iff [of n t] by (cases "ancestors1 n t") auto
    then show ?thesis
      by (simp add: chain_def)
  qed
  have a2: "chain n (t # ts) = chain n ts" if "n \<in> set (matches ident ts)" for n
  proof -
    have "n \<in> set (ids ts)"
      using that matches_subset by blast
    then have "n \<notin> set (ids1 t)"
      using dj by blast
    then have "ancestors1 n t = None"
      using ancestors1_None_iff by blast
    then show ?thesis
      by (simp add: chain_def)
  qed
  have f1: "filter (\<lambda>n. \<not> blocked \<and> filter flagged (chain n (t # ts)) = []) (matches ident [t])
      = filter (\<lambda>n. \<not> blocked \<and> filter flagged (chain n [t]) = []) (matches ident [t])"
    by (rule filter_cong) (auto simp: a1)
  have f2: "filter (\<lambda>n. \<not> blocked \<and> filter flagged (chain n (t # ts)) = []) (matches ident ts)
      = filter (\<lambda>n. \<not> blocked \<and> filter flagged (chain n ts) = []) (matches ident ts)"
    by (rule filter_cong) (auto simp: a2)
  show ?case
    using 4(1) [OF d1] 4(2) [OF d2] by (simp add: split f1 f2)
qed

text \<open>Down to the root of the engine: nothing is found outside its subtree.\<close>

lemma below1_reach:
  "distinct (ids1 t) \<Longrightarrow> lookup1 r t = Some x \<Longrightarrow>
     below1 r ident False u t
       = below r ident True (u \<or> flagged x \<or> filter flagged (chain r [t]) \<noteq> []) (kids x)
     \<and> (\<forall>n\<in>set (ids (kids x)). chain n [t] = chain n (kids x) @ [x] @ chain r [t])"
  and below_reach:
  "distinct (ids ts) \<Longrightarrow> lookup r ts = Some x \<Longrightarrow>
     below r ident False u ts
       = below r ident True (u \<or> flagged x \<or> filter flagged (chain r ts) \<noteq> []) (kids x)
     \<and> (\<forall>n\<in>set (ids (kids x)). chain n ts = chain n (kids x) @ [x] @ chain r ts)"
proof (induction r ident "False" u t and r ident "False" u ts arbitrary: x and x
    rule: below1_below.induct)
  case (1 r ident blocked s)
  then show ?case by simp
next
  case (2 r ident blocked i k a cs)
  let ?t = "Node i k a cs"
  have d: "distinct (ids cs)" and ni: "i \<notin> set (ids cs)"
    using 2(2) by simp_all
  show ?case
  proof (cases "i = r")
    case True
    then have x: "x = ?t"
      using 2(3) by simp
    have up: "chain n [?t] = chain n cs @ [?t]" if n: "n \<in> set (ids cs)" for n
    proof -
      have "n \<noteq> i"
        using n ni by blast
      moreover obtain up where "ancestors n cs = Some up"
        using n ancestors_None_iff [of n cs] by (cases "ancestors n cs") auto
      ultimately show ?thesis
        by (simp add: chain_def)
    qed
    show ?thesis
      using True up by (simp add: x chain_def)
  next
    case False
    then have l: "lookup r cs = Some x"
      using 2(3) by simp
    have r_in: "r \<in> set (ids cs)"
      using l lookup_None_iff [of r cs] by auto
    obtain upr where ur: "ancestors r cs = Some upr"
      using r_in ancestors_None_iff [of r cs] by (cases "ancestors r cs") auto
    have ar: "chain r [?t] = chain r cs @ [?t]"
      using False ur by (simp add: chain_def)
    note IH = 2(1) [OF _ d l]
    have sub: "set (ids (kids x)) \<subseteq> set (ids cs)"
      using l lookup_kids_inner [of r cs x] inner_subset_ids [of cs] by blast
    have up: "chain n [?t] = chain n cs @ [?t]" if "n \<in> set (ids (kids x))" for n
    proof -
      have m: "n \<in> set (ids cs)"
        using that sub by blast
      then have "n \<noteq> i"
        using ni by blast
      moreover obtain up where "ancestors n cs = Some up"
        using m ancestors_None_iff [of n cs] by (cases "ancestors n cs") auto
      ultimately show ?thesis
        by (simp add: chain_def)
    qed
    show ?thesis
      using False IH up ar
      by (cases blocked; cases "flagged x"; cases "filter flagged (chain r cs) = []";
          cases "flagged ?t") simp_all
  qed
next
  case (3 r ident blocked)
  then show ?case by simp
next
  case (4 r ident blocked t ts)
  have d1: "distinct (ids1 t)" and d2: "distinct (ids ts)"
    and dj: "set (ids1 t) \<inter> set (ids ts) = {}"
    using 4(3) by simp_all
  show ?case
  proof (cases "lookup1 r t")
    case None
    then have l: "lookup r ts = Some x"
      using 4(4) by simp
    have out: "r \<notin> set (ids1 t)"
      using None lookup1_None_iff by blast
    have ar: "chain r (t # ts) = chain r ts"
      using out ancestors1_None_iff [of r t] by (simp add: chain_def)
    have sub: "set (ids (kids x)) \<subseteq> set (ids ts)"
      using l lookup_kids_inner [of r ts x] inner_subset_ids [of ts] by blast
    have an: "chain n (t # ts) = chain n ts" if "n \<in> set (ids (kids x))" for n
    proof -
      have "n \<notin> set (ids1 t)"
        using that sub dj by blast
      then show ?thesis
        using ancestors1_None_iff [of n t] by (simp add: chain_def)
    qed
    show ?thesis
      using 4(2) [OF d2 l] below1_outside [OF out] ar an by simp
  next
    case (Some y)
    then have y: "y = x"
      using 4(4) by simp
    have l: "lookup1 r t = Some x"
      using Some y by simp
    have r_in: "r \<in> set (ids1 t)"
      using l lookup1_None_iff [of r t] by auto
    then have out: "r \<notin> set (ids ts)"
      using dj by blast
    obtain upr where ur: "ancestors1 r t = Some upr"
      using r_in ancestors1_None_iff [of r t] by (cases "ancestors1 r t") auto
    have ar: "chain r (t # ts) = chain r [t]"
      using ur by (simp add: chain_def)
    have sub: "set (ids (kids x)) \<subseteq> set (ids1 t)"
      using l lookup1_kids_ids [of r t x] ids_kids_subset [of t] by blast
    have an: "chain n (t # ts) = chain n [t]" if "n \<in> set (ids (kids x))" for n
    proof -
      have "n \<in> set (ids1 t)"
        using that sub by blast
      then obtain up where "ancestors1 n t = Some up"
        using ancestors1_None_iff [of n t] by (cases "ancestors1 n t") auto
      then show ?thesis
        by (simp add: chain_def)
    qed
    show ?thesis
      using 4(1) [OF d1 l] below_outside [OF out] ar an by simp
  qed
qed

lemma find_ids_matches:
  "lookup r f = Some x \<Longrightarrow> find_ids r (data_ice ident) f = matches ident (kids x)"
  by (simp add: find_ids_def matches_def children_of_def)

lemma flagged_fun: "(\<lambda>x. is_tag x \<and> data_ice_loaded x) = flagged"
  by (rule ext) (simp add: flagged_def)

lemma parents_chain: "parents n data_ice_loaded f = filter flagged (chain n f)"
  by (simp add: parents_def chain_def flagged_fun split: option.splits)

lemma resolve_markers:
  assumes "distinct (ids f)"
  shows "resolve r ident f = markers r ident f"
proof (cases "lookup r f")
  case None
  then have "r \<notin> set (ids f)"
    using lookup_None_iff by blast
  then show ?thesis
    using None by (simp add: resolve_def find_ids_def children_of_def markers_def below_outside
        List.map_filter_def)
next
  case (Some x)
  have dk: "distinct (ids (kids x))"
    using lookup_subtree [of f r x] assms Some
    by (cases x) auto
  note R = below_reach [OF assms Some, of ident False]
  have "resolve r ident f
      = filter (\<lambda>n. filter flagged (chain n f) = []) (matches ident (kids x))"
    by (simp add: resolve_def find_ids_matches [OF Some] parents_chain)
  also have "\<dots> = filter (\<lambda>n. \<not> (flagged x \<or> filter flagged (chain r f) \<noteq> [])
      \<and> filter flagged (chain n (kids x)) = []) (matches ident (kids x))"
  proof (rule filter_cong)
    fix n assume "n \<in> set (matches ident (kids x))"
    then have "n \<in> set (ids (kids x))"
      using matches_subset by blast
    then have "chain n f = chain n (kids x) @ [x] @ chain r f"
      using R by blast
    then show "(filter flagged (chain n f) = []) =
      (\<not> (flagged x \<or> filter flagged (chain r f) \<noteq> []) \<and> filter flagged (chain n (kids x)) = [])"
      by auto
  qed simp
  also have "\<dots> = below r ident True (flagged x \<or> filter flagged (chain r f) \<noteq> []) (kids x)"
    using filter_below [OF dk] by simp
  finally show ?thesis
    using R by (simp add: markers_def)
qed

text \<open>
  C4, as the code has it. On an open instance and for a non-empty plain id (one without
  double quote and backslash), \<open>_nodes\<close> returns the markers as the specification
  resolves them: the descendants of the root with \<open>data-ice="id"\<close> in document order,
  without those under an ancestor carrying \<open>data-ice-loaded\<close>; where the identities of
  the forest are distinct this is the list that one walk from the top collects. It
  does not fail, and it changes nothing but the list of events: one \<open>log:debug\<close> event is
  sent when the result is empty, debugging is on and the instance has an event bus. For
  any non-empty id \<open>_nodes\<close> leaves trees, engines and the debug switch alone; it fails
  only for an id that is not plain and whose selector string the provider rejects, and
  for an id that is not plain and whose string the provider accepts it returns the tags
  that selector matches (filtered in the same way), whatever their \<open>data-ice\<close>.
\<close>

theorem marker_resolution:
  assumes "root (engine w this) = Some r" and "ident \<noteq> []"
  shows "(plain_id ident \<longrightarrow>
            fst (nodes P this ident w) = Inr (resolve r ident (forest w))
            \<and> (distinct (ids (forest w)) \<longrightarrow>
                 fst (nodes P this ident w) = Inr (markers r ident (forest w)))
            \<and> events (snd (nodes P this ident w)) =
                (case eventbus (engine w this) of
                   None \<Rightarrow> events w
                 | Some bus \<Rightarrow>
                     if resolve r ident (forest w) = [] \<and> debug w
                     then events w @ [(bus, ''log:debug'', ''node not found. id = '' @ ident)]
                     else events w))
    \<and> forest (snd (nodes P this ident w)) = forest w
    \<and> engines (snd (nodes P this ident w)) = engines w
    \<and> fresh (snd (nodes P this ident w)) = fresh w
    \<and> debug (snd (nodes P this ident w)) = debug w
    \<and> (\<forall>e. fst (nodes P this ident w) = Inl e \<longrightarrow>
          e = SelectorSyntaxError \<and> \<not> plain_id ident \<and> select P (selector ident) = None
          \<and> snd (nodes P this ident w) = w)
    \<and> (\<forall>sel. \<not> plain_id ident \<and> select P (selector ident) = Some sel \<longrightarrow>
          fst (nodes P this ident w) =
            Inr (filter (\<lambda>n. parents n data_ice_loaded (forest w) = [])
                   (find_ids r sel (forest w))))"
proof -
  have plain: "fst (nodes P this ident w) = Inr (resolve r ident (forest w))
      \<and> events (snd (nodes P this ident w)) =
                (case eventbus (engine w this) of
                   None \<Rightarrow> events w
                 | Some bus \<Rightarrow>
                     if resolve r ident (forest w) = [] \<and> debug w
                     then events w @ [(bus, ''log:debug'', ''node not found. id = '' @ ident)]
                     else events w)" if "plain_id ident"
    using assms that
    by (auto simp: nodes_def Let_def filter_ice_eq resolve_def trigger_def query_plain
        split: option.splits)
  have keeps: "forest (snd (nodes P this ident w)) = forest w
    \<and> engines (snd (nodes P this ident w)) = engines w
    \<and> fresh (snd (nodes P this ident w)) = fresh w
    \<and> debug (snd (nodes P this ident w)) = debug w"
    using nodes_keeps [of P this ident w "fst (nodes P this ident w)" "snd (nodes P this ident w)"]
    by simp
  have fails: "e = SelectorSyntaxError \<and> \<not> plain_id ident \<and> select P (selector ident) = None
          \<and> snd (nodes P this ident w) = w" if "fst (nodes P this ident w) = Inl e" for e
    using assms that
    by (auto simp: nodes_def Let_def query_def split: option.splits if_splits)
  have other: "fst (nodes P this ident w) =
            Inr (filter (\<lambda>n. parents n data_ice_loaded (forest w) = [])
                   (find_ids r sel (forest w)))"
    if "\<not> plain_id ident \<and> select P (selector ident) = Some sel" for sel
    using assms that
    by (auto simp: nodes_def Let_def query_def filter_ice_eq split: option.splits)
  have top_down: "fst (nodes P this ident w) = Inr (markers r ident (forest w))"
    if "plain_id ident" and "distinct (ids (forest w))"
    using plain [OF that(1)] resolve_markers [OF that(2), of r ident] by simp
  show ?thesis
    using plain top_down keeps fails other by blast
qed


theorem marker_resolution_witness:
  "root (engine deep 0) = Some 0 \<and> ''item'' \<noteq> [] \<and> plain_id ''item''
   \<and> distinct (ids (forest deep))
   \<and> markers 0 ''item'' (forest deep) = [1, 2, 6]
   \<and> nodes sample 0 ''item'' deep = (Inr [1, 2, 6], deep)
   \<and> root (engine deep 1) = Some 4
   \<and> markers 4 ''item'' (forest deep) = []
   \<and> nodes sample 1 ''item'' deep = (Inr [], deep)
   \<and> root (engine plain 0) = Some 0 \<and> ''none'' \<noteq> [] \<and> plain_id ''none''
   \<and> fst (nodes sample 0 ''none'' plain) = Inr []
   \<and> events (snd (nodes sample 0 ''none'' plain)) = [(7, ''log:debug'', ''node not found. id = none'')]
   \<and> \<not> plain_id injected \<and> select sample (selector injected) \<noteq> None
   \<and> fst (nodes sample 0 injected page) = Inr [1]"
proof -
  have r0: "root (engine deep 0) = Some 0" and r1: "root (engine deep 1) = Some 4"
    by (simp_all add: deep_def engine_def)
  have r2: "root (engine plain 0) = Some 0" and r3: "root (engine page 0) = Some 0"
    by (simp_all add: plain_def page_def engine_def)
  have n1: "''item'' \<noteq> []" and n2: "''none'' \<noteq> []" and n3: "injected \<noteq> []"
    by (simp_all add: injected_def)
  have p1: "plain_id ''item''" and p2: "plain_id ''none''" and p3: "\<not> plain_id injected"
    by (simp_all add: plain_id_def injected_def)
  have d: "distinct (ids (forest deep))"
    by (simp add: deep_def)
  have m0: "markers 0 ''item'' (forest deep) = [1, 2, 6]"
    by code_simp
  have m1: "markers 4 ''item'' (forest deep) = []"
    by code_simp
  have m2: "resolve 0 ''none'' (forest plain) = []"
    by code_simp
  have m3: "resolve 0 ''item'' (forest deep) = [1, 2, 6]"
    by code_simp
  have m4: "resolve 4 ''item'' (forest deep) = []"
    by code_simp
  have b: "eventbus (engine deep 0) = None \<and> eventbus (engine deep 1) = None
      \<and> eventbus (engine plain 0) = Some 7 \<and> debug plain \<and> events plain = []"
    by (simp add: deep_def plain_def engine_def)
  have s: "select sample (selector injected)
      = Some (\<lambda>x. data_ice ''x'' x \<or> tag_is ''ul'' x \<or> get_attr ''class'' x = Some [])"
    by (simp add: sample_def)
  have f: "filter (\<lambda>n. parents n data_ice_loaded (forest page) = [])
      (find_ids 0 (\<lambda>x. data_ice ''x'' x \<or> tag_is ''ul'' x \<or> get_attr ''class'' x = Some [])
         (forest page)) = [1]"
    by code_simp
  note A = marker_resolution [OF r0 n1, of sample]
  note B = marker_resolution [OF r1 n1, of sample]
  note C = marker_resolution [OF r2 n2, of sample]
  note D = marker_resolution [OF r3 n3, of sample]
  have w0: "nodes sample 0 ''item'' deep = (Inr [1, 2, 6], deep)"
    using A p1 d m0 m3 b by (simp add: prod_eq_iff world.equality)
  have w1: "nodes sample 1 ''item'' deep = (Inr [], deep)"
    using B p1 d m1 m4 b by (simp add: prod_eq_iff world.equality)
  have w2: "fst (nodes sample 0 ''none'' plain) = Inr []
      \<and> events (snd (nodes sample 0 ''none'' plain))
          = [(7, ''log:debug'', ''node not found. id = none'')]"
    using C p2 m2 b by simp
  have w3: "fst (nodes sample 0 injected page) = Inr [1]"
    using D p3 s f by simp
  show ?thesis
    using r0 r1 r2 n1 n2 p1 p2 p3 d m0 m1 w0 w1 w2 w3 s by simp
qed

text \<open>
  C4 as stated fails: the id is put into the selector string as it is. On the sample
  page no tag carries the id \<open>x"],ul,[class="\<close> as its \<open>data-ice\<close>, yet \<open>_nodes\<close> returns the
  \<open>ul\<close>, which the selector list \<open>[data-ice="x"],ul,[class=""]\<close> matches; and for the id
  \<open>a"],\<close> it fails.
\<close>

theorem marker_resolution_counterexample:
  "root (engine page 0) = Some 0 \<and> injected \<noteq> []
   \<and> markers 0 injected (forest page) = []
   \<and> resolve 0 injected (forest page) = []
   \<and> fst (nodes sample 0 injected page) = Inr [1]
   \<and> fst (nodes sample 0 (''a'' @ [CHR 0x22] @ ''],'') page) = Inl SelectorSyntaxError"
proof -
  have 1: "root (engine page 0) = Some 0 \<and> injected \<noteq> []"
    by (simp add: page_def engine_def injected_def)
  have 2: "markers 0 injected (forest page) = []"
    by code_simp
  have 3: "resolve 0 injected (forest page) = []"
    by code_simp
  have 4: "fst (nodes sample 0 injected page) = Inr [1]"
    by code_simp
  have 5: "fst (nodes sample 0 (''a'' @ [CHR 0x22] @ ''],'') page) = Inl SelectorSyntaxError"
    by code_simp
  show ?thesis
    using 1 2 3 4 5 by simp
qed

subsection \<open>The child engines, one by one\<close>

lemma prepare_engines:
  "prepare P node w = (c, t, res, w4) \<Longrightarrow>
     res = Inr (length (engines w)) \<and> engines w4 = engines w @ [child_over (fresh w)]"
  by (auto simp: prepare_def load_root_def clone_def constructor_def child_over_def
      split: prod.splits option.splits)

lemma loop_items_child:
  "loop_items P g node j (v # vs) results w =
     (case prepare P node w of
        (c, t, res, w4) \<Rightarrow>
          (case g j v (length (engines w)) w4 of
             (Inl e, w5) \<Rightarrow> (Inl e, w5)
           | (Inr u, w5) \<Rightarrow> loop_items P g node (Suc j) vs (results @ [c, t]) w5))"
proof -
  obtain c t res w4 where p: "prepare P node w = (c, t, res, w4)"
    by (cases "prepare P node w") auto
  show ?thesis
    using prepare_engines [OF p] by (simp add: loop_items_prepare p del: loop_items.simps)
qed

lemma into_loop_child:
  "into_loop P g v (node # ns) w =
     (case g v (length (engines w)) (w\<lparr>engines := engines w @ [child_over node]\<rparr>) of
        (Inl e, w2) \<Rightarrow> (Inl e, w2)
      | (Inr u, w2) \<Rightarrow> into_loop P g v ns w2)"
  by (simp add: constructor_def child_over_def)

lemma has_defaults_child [simp]: "has_defaults (child_over n)"
  by (simp add: has_defaults_def child_over_def)

lemma loop_items_engines:
  assumes g: "\<And>j v ice w'. engines (snd (g j v ice w')) = engines w'"
  shows "\<exists>added. engines (snd (loop_items P g node j vs results w)) = engines w @ added
      \<and> (\<forall>e\<in>set added. has_defaults e)
      \<and> (\<forall>rs. fst (loop_items P g node j vs results w) = Inr rs \<longrightarrow> length added = length vs)"
proof (induction vs arbitrary: j results w)
  case Nil
  show ?case by simp
next
  case (Cons v vs)
  obtain c t res w4 where p: "prepare P node w = (c, t, res, w4)"
    by (cases "prepare P node w") auto
  have e4: "engines w4 = engines w @ [child_over (fresh w)]"
    using prepare_engines [OF p] by simp
  obtain r5 w5 where c5: "g j v (length (engines w)) w4 = (r5, w5)"
    by (cases "g j v (length (engines w)) w4")
  have e5: "engines w5 = engines w @ [child_over (fresh w)]"
    using g [of j v "length (engines w)" w4] c5 e4 by simp
  show ?case
  proof (cases r5)
    case (Inl e)
    have "loop_items P g node j (v # vs) results w = (Inl e, w5)"
      by (simp add: loop_items_child p c5 Inl del: loop_items.simps)
    then show ?thesis
      using e5 by simp
  next
    case (Inr u)
    have step: "loop_items P g node j (v # vs) results w
        = loop_items P g node (Suc j) vs (results @ [c, t]) w5"
      by (simp add: loop_items_child p c5 Inr del: loop_items.simps)
    obtain added where a: "engines (snd (loop_items P g node (Suc j) vs (results @ [c, t]) w5))
          = engines w5 @ added"
      and d: "\<forall>e\<in>set added. has_defaults e"
      and n: "\<forall>rs. fst (loop_items P g node (Suc j) vs (results @ [c, t]) w5) = Inr rs
          \<longrightarrow> length added = length vs"
      using Cons [of "Suc j" "results @ [c, t]" w5] by blast
    show ?thesis
      unfolding step
      by (rule exI [of _ "child_over (fresh w) # added"]) (use a d n e5 in simp)
  qed
qed

lemma loop_nodes_engines:
  assumes g: "\<And>j v ice w'. engines (snd (g j v ice w')) = engines w'"
  shows "\<exists>added. engines (snd (loop_nodes P this g vs ns w)) = engines w @ added
      \<and> (\<forall>e\<in>set added. has_defaults e)
      \<and> (fst (loop_nodes P this g vs ns w) = Inr () \<longrightarrow> length added = length ns * length vs)"
proof (induction ns arbitrary: w)
  case Nil
  show ?case by simp
next
  case (Cons node ns)
  obtain res w1 where l: "loop_items P g node 0 vs [] w = (res, w1)"
    by (cases "loop_items P g node 0 vs [] w")
  obtain a1 where a1: "engines w1 = engines w @ a1" and d1: "\<forall>e\<in>set a1. has_defaults e"
    and n1: "\<forall>rs. res = Inr rs \<longrightarrow> length a1 = length vs"
    using loop_items_engines [where g = g and P = P and node = node and j = 0 and vs = vs and results = "[]" and w = w] g l by auto
  show ?case
  proof (cases res)
    case (Inl e)
    then show ?thesis
      using a1 d1 by (simp add: l)
  next
    case (Inr rs)
    have len: "length a1 = length vs"
      using n1 Inr by simp
    have rec: "\<exists>added. engines (snd (loop_nodes P this g vs ns w')) = engines w1 @ added
      \<and> (\<forall>e\<in>set added. has_defaults e)
      \<and> (fst (loop_nodes P this g vs ns w') = Inr () \<longrightarrow> length added = length ns * length vs)"
      if "engines w' = engines w1" for w'
      using Cons [of w'] that by simp
    show ?thesis
    proof (cases "parent node (forest w1)")
      case (Some p)
      let ?w = "remove_all [node] (w1\<lparr>forest := append_nodes p rs (forest w1)\<rparr>)"
      obtain a2 where a2: "engines (snd (loop_nodes P this g vs ns ?w)) = engines w1 @ a2"
        and d2: "\<forall>e\<in>set a2. has_defaults e"
        and n2: "fst (loop_nodes P this g vs ns ?w) = Inr () \<longrightarrow> length a2 = length ns * length vs"
        using rec [of ?w] by auto
      show ?thesis
        by (rule exI [of _ "a1 @ a2"]) (use a1 a2 d1 d2 n2 len in \<open>auto simp: l Inr Some\<close>)
    next
      case None
      show ?thesis
      proof (cases "root (engine w1 this)")
        case N: None
        show ?thesis
          using a1 d1 by (simp add: l Inr None N)
      next
        case (Some r)
        let ?w = "remove_all [node] (w1\<lparr>forest := append_nodes r rs (forest w1)\<rparr>)"
        obtain a2 where a2: "engines (snd (loop_nodes P this g vs ns ?w)) = engines w1 @ a2"
          and d2: "\<forall>e\<in>set a2. has_defaults e"
          and n2: "fst (loop_nodes P this g vs ns ?w) = Inr () \<longrightarrow> length a2 = length ns * length vs"
          using rec [of ?w] by auto
        show ?thesis
          by (rule exI [of _ "a1 @ a2"]) (use a1 a2 d1 d2 n2 len in \<open>auto simp: l Inr None Some\<close>)
      qed
    qed
  qed
qed

lemma into_loop_engines:
  assumes g: "\<And>v ice w'. engines (snd (g v ice w')) = engines w'"
  shows "\<exists>k \<le> length ns. engines (snd (into_loop P g v ns w))
        = engines w @ map child_over (take k ns)
      \<and> (fst (into_loop P g v ns w) = Inr () \<longrightarrow> k = length ns)"
proof (induction ns arbitrary: w)
  case Nil
  show ?case by simp
next
  case (Cons node ns)
  let ?w1 = "w\<lparr>engines := engines w @ [child_over node]\<rparr>"
  obtain r2 w2 where c: "g v (length (engines w)) ?w1 = (r2, w2)"
    by (cases "g v (length (engines w)) ?w1")
  have e2: "engines w2 = engines w @ [child_over node]"
    using g [of v "length (engines w)" ?w1] c by simp
  show ?case
  proof (cases r2)
    case (Inl e)
    have "into_loop P g v (node # ns) w = (Inl e, w2)"
      by (simp add: into_loop_child c Inl del: into_loop.simps)
    then show ?thesis
      using e2 by (intro exI [of _ 1]) simp
  next
    case (Inr u)
    have step: "into_loop P g v (node # ns) w = into_loop P g v ns w2"
      by (simp add: into_loop_child c Inr del: into_loop.simps)
    obtain k where k: "k \<le> length ns"
      and a: "engines (snd (into_loop P g v ns w2)) = engines w2 @ map child_over (take k ns)"
      and n: "fst (into_loop P g v ns w2) = Inr () \<longrightarrow> k = length ns"
      using Cons [of w2] by blast
    show ?thesis
      unfolding step
      by (rule exI [of _ "Suc k"]) (use k a n e2 in simp)
  qed
qed


lemma loop_children:
  assumes "root (engine w this) = Some r" and "ident \<noteq> []" and "plain_id ident"
    and "vs \<noteq> []" and g: "\<And>j v ice w'. engines (snd (g j v ice w')) = engines w'"
  shows "\<exists>added. engines (snd (loop P this ident (Arr vs) (Fn g) w)) = engines w @ added
      \<and> (\<forall>e\<in>set added. has_defaults e)
      \<and> (fst (loop P this ident (Arr vs) (Fn g) w) = Inr ReturnsThis \<longrightarrow>
            length added = length (resolve r ident (forest w)) * length vs)"
proof -
  let ?ns = "resolve r ident (forest w)"
  obtain w1 where n: "nodes P this ident w = (Inr ?ns, w1)" and e: "engines w1 = engines w"
    using nodes_open_eq [OF assms(1,2,3)] by blast
  obtain res w2 where l: "loop_nodes P this g vs ?ns w1 = (res, w2)"
    by (cases "loop_nodes P this g vs ?ns w1")
  have lp: "loop P this ident (Arr vs) (Fn g) w
      = (case res of Inl e \<Rightarrow> (Inl e, w2) | Inr u \<Rightarrow> (Inr ReturnsThis, w2))"
    using assms(4) by (simp add: loop_def resolve_callback_def n l split: sum.splits)
  obtain added where a: "engines w2 = engines w @ added" and d: "\<forall>e\<in>set added. has_defaults e"
    and c: "res = Inr () \<longrightarrow> length added = length ?ns * length vs"
    using loop_nodes_engines [where g = g and P = P and this = this and vs = vs and ns = ?ns and w = w1] g l e by auto
  show ?thesis
    by (rule exI [of _ added]) (use a d c in \<open>cases res; simp add: lp\<close>)
qed

lemma into_children:
  assumes "root (engine w this) = Some r" and "ident \<noteq> []" and "plain_id ident"
    and "\<not> (v = Str [] \<or> v = Null \<or> v = Undefined \<or> v = Arr [])"
    and g: "\<And>v ice w'. engines (snd (g v ice w')) = engines w'"
  shows "\<exists>k \<le> length (resolve r ident (forest w)).
      engines (snd (into P this ident v (IntoFn g) w))
        = engines w @ map child_over (take k (resolve r ident (forest w)))
      \<and> (fst (into P this ident v (IntoFn g) w) = Inr ReturnsThis \<longrightarrow>
            k = length (resolve r ident (forest w)))"
proof -
  let ?ns = "resolve r ident (forest w)"
  obtain w1 where n: "nodes P this ident w = (Inr ?ns, w1)" and e: "engines w1 = engines w"
    using nodes_open_eq [OF assms(1,2,3)] by blast
  obtain res w2 where l: "into_loop P g v ?ns w1 = (res, w2)"
    by (cases "into_loop P g v ?ns w1")
  have lp: "into P this ident v (IntoFn g) w
      = (case res of Inl e \<Rightarrow> (Inl e, w2) | Inr u \<Rightarrow> (Inr ReturnsThis, w2))"
    using assms(4) by (simp add: into_def n l split: sum.splits)
  obtain k where k: "k \<le> length ?ns"
    and a: "engines w2 = engines w @ map child_over (take k ?ns)"
    and c: "res = Inr () \<longrightarrow> k = length ?ns"
    using into_loop_engines [where g = g and P = P and v = v and ns = ?ns and w = w1] g l e by auto
  show ?thesis
    by (rule exI [of _ k]) (use k a c in \<open>cases res; simp add: lp\<close>)
qed

text \<open>
  C9. For each value the inner loop of \<open>loop\<close> makes one new engine, over the container
  that holds the clone, and calls the callback on exactly that engine; \<open>into\<close> makes one
  new engine over each marker, in the order of the markers, and calls the callback on
  it. Every such engine has \<open>autoClose\<close> and \<open>autoDrop\<close> on, no event bus and no cached
  output, whatever the options and the event bus of the engine \<open>loop\<close> or \<open>into\<close> is
  called on. With a callback that leaves the list of engines alone, \<open>loop\<close> on an open
  instance with a plain id and \<open>n\<close> values leaves the engines there were as they are and
  adds only engines with the defaults, \<open>n\<close> for each resolved marker when it completes;
  \<open>into\<close> with a value that is not empty adds the children over the first markers, over
  all of them when it completes. A callback that checks the defaults before it runs
  behaves as the unchecked one.
\<close>

theorem child_engines_have_defaults:
  "loop_items P g node j (v # vs) results w =
     (case prepare P node w of
        (c, t, res, w4) \<Rightarrow>
          (case g j v (length (engines w)) w4 of
             (Inl e, w5) \<Rightarrow> (Inl e, w5)
           | (Inr u, w5) \<Rightarrow> loop_items P g node (Suc j) vs (results @ [c, t]) w5))
   \<and> engines (snd (snd (snd (prepare P node w)))) =
       engines w @ [\<lparr>root = Some (fresh w), autoClose = True, autoDrop = True,
                      html_cache = None, eventbus = None\<rparr>]
   \<and> into_loop P h v (node # ns) w =
       (case h v (length (engines w))
               (w\<lparr>engines := engines w @
                  [\<lparr>root = Some node, autoClose = True, autoDrop = True,
                    html_cache = None, eventbus = None\<rparr>]\<rparr>) of
          (Inl e, w2) \<Rightarrow> (Inl e, w2)
        | (Inr u, w2) \<Rightarrow> into_loop P h v ns w2)
   \<and> (root (engine w this) = Some r \<and> ident \<noteq> [] \<and> plain_id ident \<and> us \<noteq> []
        \<and> (\<forall>j v ice w'. engines (snd (g j v ice w')) = engines w') \<longrightarrow>
       take (length (engines w)) (engines (snd (loop P this ident (Arr us) (Fn g) w))) = engines w
       \<and> (\<forall>e\<in>set (drop (length (engines w))
                      (engines (snd (loop P this ident (Arr us) (Fn g) w)))).
             autoClose e \<and> autoDrop e \<and> eventbus e = None)
       \<and> (fst (loop P this ident (Arr us) (Fn g) w) = Inr ReturnsThis \<longrightarrow>
             length (engines (snd (loop P this ident (Arr us) (Fn g) w)))
               = length (engines w) + length (resolve r ident (forest w)) * length us))
   \<and> (root (engine w this) = Some r \<and> ident \<noteq> [] \<and> plain_id ident
        \<and> \<not> (v = Str [] \<or> v = Null \<or> v = Undefined \<or> v = Arr [])
        \<and> (\<forall>v ice w'. engines (snd (h v ice w')) = engines w') \<longrightarrow>
       (\<exists>k\<le>length (resolve r ident (forest w)).
          engines (snd (into P this ident v (IntoFn h) w)) =
            engines w @
              map (\<lambda>n. \<lparr>root = Some n, autoClose = True, autoDrop = True,
                         html_cache = None, eventbus = None\<rparr>)
                (take k (resolve r ident (forest w))))
       \<and> (fst (into P this ident v (IntoFn h) w) = Inr ReturnsThis \<longrightarrow>
             engines (snd (into P this ident v (IntoFn h) w)) =
               engines w @
                 map (\<lambda>n. \<lparr>root = Some n, autoClose = True, autoDrop = True,
                            html_cache = None, eventbus = None\<rparr>)
                   (resolve r ident (forest w))))
   \<and> loop P this ident vals (Fn (checked f)) w = loop P this ident vals (Fn f) w
   \<and> into P this ident v (IntoFn (checked_into f2)) w = into P this ident v (IntoFn f2) w"
proof (intro conjI impI)
  show "loop_items P g node j (v # vs) results w =
     (case prepare P node w of
        (c, t, res, w4) \<Rightarrow>
          (case g j v (length (engines w)) w4 of
             (Inl e, w5) \<Rightarrow> (Inl e, w5)
           | (Inr u, w5) \<Rightarrow> loop_items P g node (Suc j) vs (results @ [c, t]) w5))"
    by (rule loop_items_child)
  show "engines (snd (snd (snd (prepare P node w)))) =
       engines w @ [\<lparr>root = Some (fresh w), autoClose = True, autoDrop = True,
                      html_cache = None, eventbus = None\<rparr>]"
    using prepare_engines [of P node w]
    by (cases "prepare P node w") (simp add: child_over_def)
  show "into_loop P h v (node # ns) w =
       (case h v (length (engines w))
               (w\<lparr>engines := engines w @
                  [\<lparr>root = Some node, autoClose = True, autoDrop = True,
                    html_cache = None, eventbus = None\<rparr>]\<rparr>) of
          (Inl e, w2) \<Rightarrow> (Inl e, w2)
        | (Inr u, w2) \<Rightarrow> into_loop P h v ns w2)"
    using into_loop_child [of P h v node ns w] by (simp add: child_over_def)
  show "loop P this ident vals (Fn (checked f)) w = loop P this ident vals (Fn f) w"
    by (simp add: loop_def resolve_callback_def loop_nodes_checked
        split: jsval.splits prod.splits sum.splits)
  show "into P this ident v (IntoFn (checked_into f2)) w = into P this ident v (IntoFn f2) w"
    by (simp add: into_def into_loop_checked split: prod.splits sum.splits)
next
  assume a: "root (engine w this) = Some r \<and> ident \<noteq> [] \<and> plain_id ident \<and> us \<noteq> []
        \<and> (\<forall>j v ice w'. engines (snd (g j v ice w')) = engines w')"
  let ?w = "snd (loop P this ident (Arr us) (Fn g) w)"
  obtain added where e: "engines ?w = engines w @ added"
    and d: "\<forall>e\<in>set added. has_defaults e"
    and c: "fst (loop P this ident (Arr us) (Fn g) w) = Inr ReturnsThis \<longrightarrow>
            length added = length (resolve r ident (forest w)) * length us"
    using loop_children [where w = w and this = this and r = r and ident = ident and vs = us and g = g and P = P] a by auto
  show "take (length (engines w)) (engines ?w) = engines w"
    by (simp add: e)
  show "\<forall>e\<in>set (drop (length (engines w)) (engines ?w)).
      autoClose e \<and> autoDrop e \<and> eventbus e = None"
    using d by (simp add: e has_defaults_def)
  show "length (engines ?w) = length (engines w) + length (resolve r ident (forest w)) * length us"
    if "fst (loop P this ident (Arr us) (Fn g) w) = Inr ReturnsThis"
    using c that by (simp add: e)
next
  assume a: "root (engine w this) = Some r \<and> ident \<noteq> [] \<and> plain_id ident
        \<and> \<not> (v = Str [] \<or> v = Null \<or> v = Undefined \<or> v = Arr [])
        \<and> (\<forall>v ice w'. engines (snd (h v ice w')) = engines w')"
  let ?w = "snd (into P this ident v (IntoFn h) w)"
  let ?ns = "resolve r ident (forest w)"
  obtain k where k: "k \<le> length ?ns"
    and e: "engines ?w = engines w @ map child_over (take k ?ns)"
    and c: "fst (into P this ident v (IntoFn h) w) = Inr ReturnsThis \<longrightarrow> k = length ?ns"
    using into_children [where w = w and this = this and r = r and ident = ident and v = v and g = h and P = P] a by auto
  have co: "child_over = (\<lambda>n. \<lparr>root = Some n, autoClose = True, autoDrop = True,
                         html_cache = None, eventbus = None\<rparr>)"
    by (rule ext) (simp add: child_over_def)
  show "\<exists>k\<le>length ?ns. engines ?w = engines w @
              map (\<lambda>n. \<lparr>root = Some n, autoClose = True, autoDrop = True,
                         html_cache = None, eventbus = None\<rparr>) (take k ?ns)"
    using k e unfolding co by blast
  show "engines ?w = engines w @
                 map (\<lambda>n. \<lparr>root = Some n, autoClose = True, autoDrop = True,
                            html_cache = None, eventbus = None\<rparr>) ?ns"
    if "fst (into P this ident v (IntoFn h) w) = Inr ReturnsThis"
    using c that e unfolding co by simp
qed


theorem child_engines_have_defaults_witness:
  "\<not> autoClose (engine plain 0) \<and> \<not> autoDrop (engine plain 0) \<and> eventbus (engine plain 0) = Some 7
   \<and> root (engine plain 0) = Some 0 \<and> ''item'' \<noteq> [] \<and> plain_id ''item''
   \<and> (\<forall>j v ice w'. engines (snd (set_class j v ice w')) = engines w')
   \<and> (\<forall>v ice w'. engines (snd (write_sub v ice w')) = engines w')
   \<and> resolve 0 ''item'' (forest plain) = [2]
   \<and> fst (loop sample 0 ''item'' (Arr [Str ''a'', Str ''b'']) (Fn set_class) plain) = Inr ReturnsThis
   \<and> length (engines (snd (loop sample 0 ''item'' (Arr [Str ''a'', Str ''b'']) (Fn set_class) plain)))
        = 3
   \<and> engines (snd (loop sample 0 ''item'' (Arr [Str ''a'', Str ''b'']) (Fn set_class) plain)) =
        engines plain @
          [\<lparr>root = Some 4, autoClose = True, autoDrop = True, html_cache = None, eventbus = None\<rparr>,
           \<lparr>root = Some 8, autoClose = True, autoDrop = True, html_cache = None, eventbus = None\<rparr>]
   \<and> fst (into sample 0 ''item'' (Str ''v'') (IntoFn write_sub) plain) = Inr ReturnsThis
   \<and> engines (snd (into sample 0 ''item'' (Str ''v'') (IntoFn write_sub) plain)) =
        engines plain @
          [\<lparr>root = Some 2, autoClose = True, autoDrop = True, html_cache = None, eventbus = None\<rparr>]
   \<and> fst (loop sample 0 ''item'' (Arr [Str ''a'']) (Fn (checked set_class)) plain)
      = Inr ReturnsThis"
proof -
  have o: "\<not> autoClose (engine plain 0) \<and> \<not> autoDrop (engine plain 0)
      \<and> eventbus (engine plain 0) = Some 7 \<and> root (engine plain 0) = Some 0
      \<and> length (engines plain) = 1"
    by (simp add: plain_def engine_def)
  have i: "''item'' \<noteq> [] \<and> plain_id ''item''"
    by (simp add: plain_id_def)
  have g: "engines (snd (set_class j v ice w')) = engines w'" for j v ice w'
  proof -
    have "snd (set_class j v ice w') = snd (attr sample ice ''item'' ''class'' v (Some ''write'') w')"
      by (simp add: set_class_def split: prod.splits sum.splits)
    then show ?thesis
      by simp
  qed
  have h: "engines (snd (write_sub v ice w')) = engines w'" for v ice w'
  proof -
    have "snd (write_sub v ice w') = snd (text_ice sample ice ''item'' v (Some ''write'') w')"
      by (simp add: write_sub_def split: prod.splits sum.splits)
    then show ?thesis
      by simp
  qed
  have m: "resolve 0 ''item'' (forest plain) = [2]"
    by code_simp
  have l1: "fst (loop sample 0 ''item'' (Arr [Str ''a'', Str ''b'']) (Fn set_class) plain)
      = Inr ReturnsThis"
    by code_simp
  have l2: "engines (snd (loop sample 0 ''item'' (Arr [Str ''a'', Str ''b'']) (Fn set_class) plain)) =
        engines plain @
          [\<lparr>root = Some 4, autoClose = True, autoDrop = True, html_cache = None, eventbus = None\<rparr>,
           \<lparr>root = Some 8, autoClose = True, autoDrop = True, html_cache = None, eventbus = None\<rparr>]"
    by code_simp
  have n1: "fst (into sample 0 ''item'' (Str ''v'') (IntoFn write_sub) plain) = Inr ReturnsThis"
    by code_simp
  have c1: "fst (loop sample 0 ''item'' (Arr [Str ''a'']) (Fn set_class) plain) = Inr ReturnsThis"
    by code_simp
  note T = child_engines_have_defaults [where P = sample and w = plain and this = 0 and r = 0
      and ident = "''item''" and us = "[Str ''a'', Str ''b'']" and g = set_class
      and v = "Str ''v''" and h = write_sub and vals = "Arr [Str ''a'']" and f = set_class]
  have len: "length (engines (snd (loop sample 0 ''item'' (Arr [Str ''a'', Str ''b'']) (Fn set_class)
      plain))) = 3"
    using T o i g m l1 by simp
  have ie: "engines (snd (into sample 0 ''item'' (Str ''v'') (IntoFn write_sub) plain)) =
        engines plain @
          [\<lparr>root = Some 2, autoClose = True, autoDrop = True, html_cache = None, eventbus = None\<rparr>]"
    using T o i h m n1 by simp
  have ck: "fst (loop sample 0 ''item'' (Arr [Str ''a'']) (Fn (checked set_class)) plain)
      = Inr ReturnsThis"
    using T c1 by simp
  show ?thesis
    using o i g h m l1 l2 n1 len ie ck by simp
qed

subsection \<open>Replacing the children of a node\<close>

lemma subtree_ids1_subset: "distinct (ids1 t) \<Longrightarrow> subtree_ids1 n t \<subseteq> set (ids1 t)"
  using lookup1_subtree [of t n] by (auto simp: subtree_ids1_def split: option.splits)

lemma subtree_ids1_absent: "n \<notin> set (ids1 t) \<Longrightarrow> subtree_ids1 n t = {}"
  using lookup1_None_iff [of n t] by (simp add: subtree_ids1_def)

lemma subtree_ids_Nil [simp]: "subtree_ids n [] = {}"
  by (simp add: subtree_ids_def)

lemma lookup1_modify_kids_gen:
  "g = set_kids new \<Longrightarrow> distinct (ids1 t) \<Longrightarrow> m \<notin> subtree_ids1 x t \<Longrightarrow> x \<notin> set (ids new) \<Longrightarrow>
     lookup1 x (modify1 m g t) = (if x \<in> subtree_ids1 m t then None else lookup1 x t)"
  and lookup_modify_kids_gen:
  "g = set_kids new \<Longrightarrow> distinct (ids ts) \<Longrightarrow> m \<notin> subtree_ids x ts \<Longrightarrow> x \<notin> set (ids new) \<Longrightarrow>
     lookup x (modify m g ts) = (if x \<in> subtree_ids m ts then None else lookup x ts)"
proof (induction m g t and m g ts rule: modify1_modify.induct)
  case (1 n g s)
  then show ?case by (simp add: subtree_ids1_def)
next
  case (2 n g i k a cs)
  let ?t = "Node i k a cs"
  note g = "2.prems"(1)
  have d: "distinct (ids cs)" and ni: "i \<notin> set (ids cs)"
    using "2.prems"(2) by simp_all
  show ?case
  proof (cases "i = n")
    case True
    have xn: "x \<noteq> n"
      using "2.prems"(3) True by (auto simp: subtree_ids1_Node)
    have none: "lookup x new = None"
      using "2.prems"(4) lookup_None_iff by blast
    show ?thesis
      using True xn none lookup1_None_iff [of x ?t]
      by (auto simp: subtree_ids1_Node g)
  next
    case False
    show ?thesis
    proof (cases "i = x")
      case True
      then have "n \<notin> set (ids cs)"
        using "2.prems"(3) by (simp add: subtree_ids1_Node)
      then have "modify n g cs = cs" and "subtree_ids n cs = {}"
        by (simp_all add: modify_absent subtree_ids_absent)
      then show ?thesis
        using True False by (simp add: subtree_ids1_Node)
    next
      case F: False
      have "n \<notin> subtree_ids x cs"
        using "2.prems"(3) F by (simp add: subtree_ids1_Node)
      then show ?thesis
        using "2.IH"(2) g d "2.prems"(4) False F by (simp add: subtree_ids1_Node)
    qed
  qed
next
  case (3 n g)
  then show ?case by simp
next
  case (4 n g t ts)
  have d1: "distinct (ids1 t)" and d2: "distinct (ids ts)"
    and dj: "set (ids1 t) \<inter> set (ids ts) = {}"
    using "4.prems"(2) by simp_all
  have s1: "subtree_ids1 y t \<subseteq> set (ids1 t)" for y
    using subtree_ids1_subset [OF d1] .
  have s2: "subtree_ids y ts \<subseteq> set (ids ts)" for y
    using subtree_ids_subset [OF d2] .
  show ?case
  proof (cases "x \<in> set (ids1 t)")
    case True
    then have xts: "x \<notin> set (ids ts)"
      using dj by blast
    have m1: "n \<notin> subtree_ids1 x t"
      using "4.prems"(3) True by (simp add: subtree_ids_Cons)
    have l1: "lookup1 x (modify1 n g t)
        = (if x \<in> subtree_ids1 n t then None else lookup1 x t)"
      using "4.IH"(1) [OF "4.prems"(1) d1 m1 "4.prems"(4)] .
    have l2: "lookup x (modify n g ts) = None"
      using "4.IH"(2) [OF "4.prems"(1) d2 _ "4.prems"(4)] xts lookup_None_iff [of x ts]
      by (simp add: subtree_ids_absent)
    obtain y where y: "lookup1 x t = Some y"
      using True lookup1_None_iff [of x t] by (cases "lookup1 x t") auto
    show ?thesis
    proof (cases "n \<in> set (ids1 t)")
      case T: True
      then show ?thesis
        using l1 l2 y by (simp add: subtree_ids_Cons)
    next
      case False
      then have "subtree_ids1 n t = {}"
        by (simp add: subtree_ids1_absent)
      moreover have "x \<notin> subtree_ids n ts"
        using s2 xts by blast
      ultimately show ?thesis
        using l1 l2 y False by (simp add: subtree_ids_Cons)
    qed
  next
    case False
    have m2: "n \<notin> subtree_ids x ts"
      using "4.prems"(3) False by (simp add: subtree_ids_Cons)
    have e: "subtree_ids1 x t = {}"
      using False by (simp add: subtree_ids1_absent)
    have l1: "lookup1 x (modify1 n g t) = None"
      using "4.IH"(1) [OF "4.prems"(1) d1 _ "4.prems"(4)] e False lookup1_None_iff [of x t] by simp
    have l2: "lookup x (modify n g ts)
        = (if x \<in> subtree_ids n ts then None else lookup x ts)"
      using "4.IH"(2) [OF "4.prems"(1) d2 m2 "4.prems"(4)] .
    have lx: "lookup1 x t = None"
      using False lookup1_None_iff by blast
    show ?thesis
    proof (cases "n \<in> set (ids1 t)")
      case True
      then have "n \<notin> set (ids ts)"
        using dj by blast
      then have "subtree_ids n ts = {}"
        by (simp add: subtree_ids_absent)
      moreover have "x \<notin> subtree_ids1 n t"
        using s1 False by blast
      ultimately show ?thesis
        using l1 l2 lx True by (simp add: subtree_ids_Cons)
    next
      case F: False
      then show ?thesis
        using l1 l2 lx by (simp add: subtree_ids_Cons)
    qed
  qed
qed

lemma lookup_modify_kids:
  "distinct (ids ts) \<Longrightarrow> m \<notin> subtree_ids x ts \<Longrightarrow> x \<notin> set (ids new) \<Longrightarrow>
     lookup x (modify m (set_kids new) ts) = (if x \<in> subtree_ids m ts then None else lookup x ts)"
  by (rule lookup_modify_kids_gen) simp_all

lemma lookup1_within:
  "distinct (ids1 t) \<Longrightarrow> lookup1 m t = Some y \<Longrightarrow> x \<in> set (ids (kids y)) \<Longrightarrow>
     lookup1 x t = lookup x (kids y)"
  and lookup_within:
  "distinct (ids ts) \<Longrightarrow> lookup m ts = Some y \<Longrightarrow> x \<in> set (ids (kids y)) \<Longrightarrow>
     lookup x ts = lookup x (kids y)"
proof (induction m t and m ts rule: lookup1_lookup.induct)
  case (1 n s)
  then show ?case by simp
next
  case (2 n i k a cs)
  show ?case
  proof (cases "i = n")
    case True
    then show ?thesis
      using 2 by auto
  next
    case False
    have sub: "set (ids (kids y)) \<subseteq> set (ids cs)"
      using 2(3) False lookup_kids_inner [of n cs y] inner_subset_ids [of cs] by auto
    then have "x \<noteq> i"
      using 2(2,4) by auto
    then show ?thesis
      using 2 False by simp
  qed
next
  case (3 n)
  then show ?case by simp
next
  case (4 n t ts)
  have d1: "distinct (ids1 t)" and d2: "distinct (ids ts)"
    and dj: "set (ids1 t) \<inter> set (ids ts) = {}"
    using 4(3) by simp_all
  show ?case
  proof (cases "lookup1 n t")
    case None
    then have l: "lookup n ts = Some y"
      using 4(4) by simp
    have "set (ids (kids y)) \<subseteq> set (ids ts)"
      using l lookup_kids_inner [of n ts y] inner_subset_ids [of ts] by blast
    then have "x \<notin> set (ids1 t)"
      using 4(5) dj by blast
    then have "lookup1 x t = None"
      using lookup1_None_iff by blast
    then show ?thesis
      using 4(2) [OF None d2 l 4(5)] by simp
  next
    case (Some z)
    then have l: "lookup1 n t = Some y"
      using 4(4) by simp
    have "set (ids (kids y)) \<subseteq> set (ids1 t)"
      using l lookup1_kids_ids [of n t y] ids_kids_subset [of t] by blast
    then have "x \<in> set (ids1 t)"
      using 4(5) by blast
    then obtain u where "lookup1 x t = Some u"
      using lookup1_None_iff [of x t] by (cases "lookup1 x t") auto
    then show ?thesis
      using 4(1) [OF d1 l 4(5)] by simp
  qed
qed

lemma ids1_modify_kids_gen:
  "g = set_kids new \<Longrightarrow> distinct (ids1 t) \<Longrightarrow> distinct (ids new) \<Longrightarrow>
     set (ids new) \<inter> set (ids1 t) = {} \<Longrightarrow>
     distinct (ids1 (modify1 m g t))
     \<and> set (ids1 (modify1 m g t))
        = (set (ids1 t) - (subtree_ids1 m t - {m}))
          \<union> (if m \<in> set (ids1 t) then set (ids new) else {})"
  and ids_modify_kids_gen:
  "g = set_kids new \<Longrightarrow> distinct (ids ts) \<Longrightarrow> distinct (ids new) \<Longrightarrow>
     set (ids new) \<inter> set (ids ts) = {} \<Longrightarrow>
     distinct (ids (modify m g ts))
     \<and> set (ids (modify m g ts))
        = (set (ids ts) - (subtree_ids m ts - {m}))
          \<union> (if m \<in> set (ids ts) then set (ids new) else {})"
proof (induction m g t and m g ts rule: modify1_modify.induct)
  case (1 n g s)
  then show ?case by (simp add: subtree_ids1_def)
next
  case (2 n g i k a cs)
  note g = "2.prems"(1)
  have d: "distinct (ids cs)" and ni: "i \<notin> set (ids cs)"
    using "2.prems"(2) by simp_all
  have dn: "distinct (ids new)" and inew: "i \<notin> set (ids new)"
    and dj: "set (ids new) \<inter> set (ids cs) = {}"
    using "2.prems"(3,4) by auto
  show ?case
  proof (cases "i = n")
    case True
    show ?thesis
      using True dn inew ni by (auto simp: g subtree_ids1_Node)
  next
    case False
    have sub: "subtree_ids n cs \<subseteq> set (ids cs)"
      using subtree_ids_subset [OF d] .
    note IH = "2.IH"(2) [OF False g d dn dj]
    show ?thesis
      using False IH ni inew sub by (auto simp: subtree_ids1_Node)
  qed
next
  case (3 n g)
  then show ?case by simp
next
  case (4 n g t ts)
  have d1: "distinct (ids1 t)" and d2: "distinct (ids ts)"
    and dj: "set (ids1 t) \<inter> set (ids ts) = {}"
    using "4.prems"(2) by simp_all
  have dn: "distinct (ids new)" and j1: "set (ids new) \<inter> set (ids1 t) = {}"
    and j2: "set (ids new) \<inter> set (ids ts) = {}"
    using "4.prems"(3,4) by auto
  have s1: "subtree_ids1 n t \<subseteq> set (ids1 t)"
    using subtree_ids1_subset [OF d1] .
  have s2: "subtree_ids n ts \<subseteq> set (ids ts)"
    using subtree_ids_subset [OF d2] .
  note A = "4.IH"(1) [OF "4.prems"(1) d1 dn j1]
  note B = "4.IH"(2) [OF "4.prems"(1) d2 dn j2]
  show ?case
  proof (cases "n \<in> set (ids1 t)")
    case True
    then have nts: "n \<notin> set (ids ts)"
      using dj by blast
    have m2: "modify n g ts = ts"
      using nts by (simp add: modify_absent)
    show ?thesis
      using A True nts m2 dj j2 d2 s1 by (auto simp: subtree_ids_Cons)
  next
    case False
    have m1: "modify1 n g t = t"
      using False by (simp add: modify1_absent)
    show ?thesis
      using B False m1 dj j1 d1 s2 by (auto simp: subtree_ids_Cons)
  qed
qed

lemma children_ids:
  assumes "distinct (ids f)"
  shows "set (ids (children_of m f)) = subtree_ids m f - {m} \<and> distinct (ids (children_of m f))"
proof (cases "lookup m f")
  case None
  then show ?thesis
    by (simp add: children_of_def subtree_ids_def)
next
  case (Some y)
  obtain k a cs where y: "y = Node m k a cs"
    using lookup_is_node [OF Some] by blast
  have "distinct (ids1 y)"
    using lookup_subtree [OF assms Some] by simp
  then show ?thesis
    using Some by (auto simp: children_of_def subtree_ids_def y)
qed

lemma ids_replace_kids:
  assumes d: "distinct (ids f)" and dn: "distinct (ids new)"
    and dj: "set (ids new) \<inter> set (ids f) = {}"
  shows "distinct (ids (replace_kids m new f))
    \<and> set (ids (replace_kids m new f))
       = set (ids f) \<union> (if m \<in> set (ids f) then set (ids new) else {})"
proof -
  have M: "distinct (ids (modify m (set_kids new) f))
     \<and> set (ids (modify m (set_kids new) f))
        = (set (ids f) - (subtree_ids m f - {m}))
          \<union> (if m \<in> set (ids f) then set (ids new) else {})"
    by (rule ids_modify_kids_gen) (use d dn dj in simp_all)
  have C: "set (ids (children_of m f)) = subtree_ids m f - {m}"
    and CD: "distinct (ids (children_of m f))"
    using children_ids [OF d] by simp_all
  have sub: "subtree_ids m f \<subseteq> set (ids f)"
    using subtree_ids_subset [OF d] .
  show ?thesis
    using M C CD sub dj by (auto simp: replace_kids_def)
qed

lemma lookup_replace_kids:
  assumes d: "distinct (ids f)" and m: "m \<notin> subtree_ids x f" and x: "x \<notin> set (ids new)"
  shows "lookup x (replace_kids m new f) = lookup x f"
proof (cases "x \<in> subtree_ids m f")
  case True
  then obtain y where y: "lookup m f = Some y" and xy: "x \<in> set (ids1 y)"
    by (auto simp: subtree_ids_def split: option.splits)
  obtain k a cs where yn: "y = Node m k a cs"
    using lookup_is_node [OF y] by blast
  have "x \<noteq> m"
    using m True by auto
  then have xk: "x \<in> set (ids (kids y))"
    using xy yn by simp
  have "lookup x f = lookup x (kids y)"
    using lookup_within [OF d y xk] .
  then show ?thesis
    using True y lookup_modify_kids [OF d m x]
    by (simp add: replace_kids_def lookup_append children_of_def)
next
  case False
  have "lookup x (children_of m f) = None" if "lookup x f = None"
  proof -
    have "x \<notin> set (ids f)"
      using that lookup_None_iff by blast
    moreover have "set (ids (children_of m f)) \<subseteq> set (ids f)"
      using children_ids [OF d, of m] subtree_ids_subset [OF d, of m] by auto
    ultimately show ?thesis
      using lookup_None_iff by blast
  qed
  then show ?thesis
    using False lookup_modify_kids [OF d m x]
    by (simp add: replace_kids_def lookup_append split: option.splits)
qed

subsection \<open>The resolved markers come ancestors first\<close>

lemma ancestors_first_append:
  "ancestors_first (xs @ ys) f =
     (ancestors_first xs f \<and> ancestors_first ys f
      \<and> (\<forall>a\<in>set xs. \<forall>m\<in>set ys. a \<notin> subtree_ids m f))"
  by (induction xs) auto

lemma ancestors_first_cong:
  "(\<And>m. m \<in> set ns \<Longrightarrow> subtree_ids m g = subtree_ids m f) \<Longrightarrow>
     ancestors_first ns g = ancestors_first ns f"
  by (induction ns) auto

lemma below1_subset: "set (below1 r ident ins blk t) \<subseteq> set (ids1 t)"
  and below_subset: "set (below r ident ins blk ts) \<subseteq> set (ids ts)"
  by (induction r ident ins blk t and r ident ins blk ts rule: below1_below.induct) auto

lemma below1_ordered:
  "distinct (ids1 t) \<Longrightarrow>
     ancestors_first (below1 r ident ins blk t) [t] \<and> distinct (below1 r ident ins blk t)"
  and below_ordered:
  "distinct (ids ts) \<Longrightarrow>
     ancestors_first (below r ident ins blk ts) ts \<and> distinct (below r ident ins blk ts)"
proof (induction r ident ins blk t and r ident ins blk ts rule: below1_below.induct)
  case (1 r ident inside blocked s)
  show ?case by simp
next
  case (2 r ident inside blocked i k a cs)
  let ?t = "Node i k a cs"
  let ?bs = "below r ident (inside \<or> i = r) (blocked \<or> flagged ?t) cs"
  have d: "distinct (ids cs)" and ni: "i \<notin> set (ids cs)"
    using 2(2) by simp_all
  have sub: "set ?bs \<subseteq> set (ids cs)"
    by (rule below_subset)
  have st: "subtree_ids m [?t] = subtree_ids m cs" if "m \<in> set ?bs" for m
  proof -
    have "m \<noteq> i"
      using that sub ni by blast
    then show ?thesis
      by (simp add: subtree_ids_def split: option.splits)
  qed
  have o: "ancestors_first ?bs [?t]"
    using ancestors_first_cong [of ?bs "[?t]" cs] st 2(1) [OF d] by blast
  have c: "i \<notin> subtree_ids m [?t]" if "m \<in> set ?bs" for m
    using st [OF that] subtree_ids_subset [OF d, of m] ni by blast
  show ?case
    using o c 2(1) [OF d] sub ni by auto
next
  case (3 r ident inside blocked)
  show ?case by simp
next
  case (4 r ident inside blocked t ts)
  let ?b1 = "below1 r ident inside blocked t"
  let ?b2 = "below r ident inside blocked ts"
  have d1: "distinct (ids1 t)" and d2: "distinct (ids ts)"
    and dj: "set (ids1 t) \<inter> set (ids ts) = {}"
    using 4(3) by simp_all
  have s1: "set ?b1 \<subseteq> set (ids1 t)"
    by (rule below1_subset)
  have s2: "set ?b2 \<subseteq> set (ids ts)"
    by (rule below_subset)
  have t1: "subtree_ids m (t # ts) = subtree_ids m [t]" if "m \<in> set ?b1" for m
    using that s1 by (auto simp: subtree_ids_Cons)
  have t2: "subtree_ids m (t # ts) = subtree_ids m ts" if "m \<in> set ?b2" for m
    using that s2 dj by (auto simp: subtree_ids_Cons)
  have o1: "ancestors_first ?b1 (t # ts)"
    using ancestors_first_cong [of ?b1 "t # ts" "[t]"] t1 4(1) [OF d1] by blast
  have o2: "ancestors_first ?b2 (t # ts)"
    using ancestors_first_cong [of ?b2 "t # ts" ts] t2 4(2) [OF d2] by blast
  have c: "a \<notin> subtree_ids m (t # ts)" if "a \<in> set ?b1" and "m \<in> set ?b2" for a m
  proof -
    have "subtree_ids m (t # ts) \<subseteq> set (ids ts)"
      using t2 [OF that(2)] subtree_ids_subset [OF d2, of m] by simp
    moreover have "a \<notin> set (ids ts)"
      using that(1) s1 dj by blast
    ultimately show ?thesis
      by blast
  qed
  have dd: "set ?b1 \<inter> set ?b2 = {}"
    using s1 s2 dj by blast
  show ?case
    using o1 o2 c dd 4(1) [OF d1] 4(2) [OF d2] by (auto simp: ancestors_first_append)
qed

lemma resolve_ordered:
  assumes "distinct (ids f)"
  shows "ancestors_first (resolve r ident f) f \<and> distinct (resolve r ident f)
    \<and> set (resolve r ident f) \<subseteq> set (ids f)"
  using below_ordered [OF assms, of r ident False False] below_subset [of r ident False False f]
  by (simp add: resolve_markers [OF assms] markers_def)

subsection \<open>\<open>text\<close> and \<open>attr\<close> on every marker\<close>

lemma subtree_ids_lookup: "lookup x g = lookup x f \<Longrightarrow> subtree_ids x g = subtree_ids x f"
  by (simp add: subtree_ids_def)

lemma children_lookup: "lookup x g = lookup x f \<Longrightarrow> children_of x g = children_of x f"
  by (simp add: children_of_def)

lemma in_ids_lookup: "x \<in> set (ids f) \<longleftrightarrow> lookup x f \<noteq> None"
  using lookup_None_iff [of x f] by simp

lemma subtree_replace_kids:
  assumes "lookup n f \<noteq> None"
  shows "subtree_ids n (replace_kids n new f) = insert n (set (ids new))"
proof -
  obtain y where y: "lookup n f = Some y"
    using assms by auto
  obtain k a cs where "y = Node n k a cs"
    using lookup_is_node [OF y] by blast
  then show ?thesis
    using y by (simp add: subtree_ids_def replace_kids_def lookup_append lookup_modify_set_kids)
qed

lemma set_text_step:
  assumes d: "distinct (ids (forest w))"
  shows "distinct (ids (forest (set_text n t w)))
    \<and> set (ids (forest (set_text n t w))) = set (ids (forest w))
    \<and> (\<forall>x. n \<notin> subtree_ids x (forest w) \<longrightarrow>
          lookup x (forest (set_text n t w)) = lookup x (forest w))
    \<and> (n \<in> set (ids (forest w)) \<longrightarrow>
          children_of n (forest (set_text n t w)) = [Text t]
          \<and> subtree_ids n (forest (set_text n t w)) = {n})"
proof -
  have i: "distinct (ids (replace_kids n [Text t] (forest w)))
      \<and> set (ids (replace_kids n [Text t] (forest w))) = set (ids (forest w))"
    using ids_replace_kids [OF d, of "[Text t]" n] by simp
  have l: "lookup x (replace_kids n [Text t] (forest w)) = lookup x (forest w)"
    if "n \<notin> subtree_ids x (forest w)" for x
    using lookup_replace_kids [OF d that, of "[Text t]"] by simp
  have c: "children_of n (replace_kids n [Text t] (forest w)) = [Text t]
      \<and> subtree_ids n (replace_kids n [Text t] (forest w)) = {n}"
    if "n \<in> set (ids (forest w))"
    using that children_replace_kids [of n "forest w" "[Text t]"]
      subtree_replace_kids [of n "forest w" "[Text t]"]
    by (simp add: in_ids_lookup)
  show ?thesis
    using i l c by (simp add: set_text_def)
qed

lemma read_text_lookup:
  "lookup n (forest w') = lookup n (forest w) \<Longrightarrow> read_text n w' = read_text n w"
  by (simp add: read_text_def children_of_def)

lemma text_loop_all:
  assumes ok: "mode_applies P m (to_string v)"
  shows "distinct (ids (forest w)) \<Longrightarrow> distinct ns \<Longrightarrow> ancestors_first ns (forest w) \<Longrightarrow>
    set ns \<subseteq> set (ids (forest w)) \<Longrightarrow>
    fst (text_loop P m v ns w) = Inr ()
    \<and> (\<forall>n\<in>set ns. transform P m (read_text n w) (to_string v)
          = Inr (read_text n (snd (text_loop P m v ns w))))
    \<and> (\<forall>x. (\<forall>n\<in>set ns. n \<notin> subtree_ids x (forest w)) \<longrightarrow>
          lookup x (forest (snd (text_loop P m v ns w))) = lookup x (forest w))
    \<and> distinct (ids (forest (snd (text_loop P m v ns w))))
    \<and> set (ids (forest (snd (text_loop P m v ns w)))) = set (ids (forest w))"
proof (induction ns arbitrary: w)
  case Nil
  then show ?case by simp
next
  case (Cons n ns)
  let ?f = "forest w"
  obtain t where t: "transform P m (read_text n w) (to_string v) = Inr t"
    using transform_applies [OF ok] by blast
  let ?w1 = "set_text n t w"
  let ?f1 = "forest ?w1"
  let ?w' = "snd (text_loop P m v ns ?w1)"
  have step: "text_loop P m v (n # ns) w = text_loop P m v ns ?w1"
    by (simp add: t)
  have nin: "n \<in> set (ids ?f)" and nns: "n \<notin> set ns" and dns: "distinct ns"
    and above: "\<forall>x\<in>set ns. n \<notin> subtree_ids x ?f" and o: "ancestors_first ns ?f"
    and sub: "set ns \<subseteq> set (ids ?f)"
    using Cons.prems by auto
  note S = set_text_step [OF Cons.prems(1), of n t]
  have d1: "distinct (ids ?f1)" and i1: "set (ids ?f1) = set (ids ?f)"
    using S by simp_all
  have keep: "lookup x ?f1 = lookup x ?f" if "n \<notin> subtree_ids x ?f" for x
    using S that by blast
  have cn: "read_text n ?w1 = t" and sn: "subtree_ids n ?f1 = {n}"
    using S nin by (simp_all add: read_text_def)
  have same: "lookup x ?f1 = lookup x ?f" if "x \<in> set ns" for x
    using keep above that by blast
  have o1: "ancestors_first ns ?f1"
    using ancestors_first_cong [of ns ?f1 ?f] o same subtree_ids_lookup by blast
  have sub1: "set ns \<subseteq> set (ids ?f1)"
    using sub i1 by simp
  note IH = Cons.IH [OF d1 dns o1 sub1]
  have r1: "\<forall>x\<in>set ns. transform P m (read_text x w) (to_string v) = Inr (read_text x ?w')"
  proof
    fix x assume x: "x \<in> set ns"
    have "read_text x ?w1 = read_text x w"
      using same [OF x] by (rule read_text_lookup)
    then show "transform P m (read_text x w) (to_string v) = Inr (read_text x ?w')"
      using IH x by auto
  qed
  have "lookup n (forest ?w') = lookup n ?f1"
    using IH sn nns by auto
  then have r0: "read_text n ?w' = t"
    using cn read_text_lookup by metis
  have fr: "lookup x (forest ?w') = lookup x ?f"
    if a: "\<forall>y\<in>set (n # ns). y \<notin> subtree_ids x ?f" for x
  proof -
    have k: "lookup x ?f1 = lookup x ?f"
      using keep a by simp
    then have "\<forall>y\<in>set ns. y \<notin> subtree_ids x ?f1"
      using a subtree_ids_lookup [OF k] by simp
    then have "lookup x (forest ?w') = lookup x ?f1"
      using IH by blast
    then show ?thesis
      using k by simp
  qed
  show ?case
    unfolding step using IH r1 r0 fr i1 t by auto
qed

lemma attr_loop_all:
  assumes ok: "mode_applies P m (to_string v)"
  shows "distinct ns \<Longrightarrow> set ns \<subseteq> set (ids (forest w)) \<Longrightarrow>
    (\<forall>n\<in>set ns. transform P m (case read_attr n key w of None \<Rightarrow> [] | Some c \<Rightarrow> c) (to_string v)
        = Inr (case read_attr n key (snd (attr_loop P m key v ns w)) of None \<Rightarrow> [] | Some c \<Rightarrow> c)
        \<and> read_attr n key (snd (attr_loop P m key v ns w)) \<noteq> None)
    \<and> (\<forall>x k'. x \<notin> set ns \<or> k' \<noteq> key \<longrightarrow>
          read_attr x k' (snd (attr_loop P m key v ns w)) = read_attr x k' w)"
proof (induction ns arbitrary: w)
  case Nil
  then show ?case by simp
next
  case (Cons n ns)
  obtain t where t: "transform P m (case read_attr n key w of None \<Rightarrow> [] | Some c \<Rightarrow> c)
      (to_string v) = Inr t"
    using transform_applies [OF ok] by blast
  let ?w1 = "write_attr n key t w"
  let ?w' = "snd (attr_loop P m key v ns ?w1)"
  have step: "attr_loop P m key v (n # ns) w = attr_loop P m key v ns ?w1"
    by (simp add: t)
  have nin: "lookup n (forest w) \<noteq> None" and nns: "n \<notin> set ns" and dns: "distinct ns"
    and sub: "set ns \<subseteq> set (ids (forest ?w1))"
    using Cons.prems by (auto simp: in_ids_lookup)
  note IH = Cons.IH [OF dns sub]
  have other: "read_attr x key ?w1 = read_attr x key w" if "x \<in> set ns" for x
    using that nns by (auto simp: read_attr_write_attr)
  have here: "read_attr n key ?w' = Some t"
    using IH nns nin by (simp add: read_attr_write_attr)
  show ?case
    unfolding step using IH other here t nns
    by (auto simp: read_attr_write_attr)
qed

subsection \<open>\<open>load\<close> on every marker\<close>

lemma relabel1_distinct: "relabel1 k t = (t', k') \<Longrightarrow> distinct (ids1 t')"
  and relabel_distinct: "relabel k ts = (ts', k') \<Longrightarrow> distinct (ids ts')"
proof (induction k t and k ts arbitrary: t' k' and ts' k' rule: relabel1_relabel.induct)
  case (1 k s)
  then show ?case by auto
next
  case (2 k i kd a cs)
  obtain cs' k1 where r: "relabel (Suc k) cs = (cs', k1)"
    by (cases "relabel (Suc k) cs")
  have "\<forall>i\<in>set (ids cs'). Suc k \<le> i"
    using relabel_bounds [OF r] by simp
  then have "k \<notin> set (ids cs')"
    by auto
  then show ?case
    using 2(1) [OF r] 2(2) r by auto
next
  case (3 k)
  then show ?case by auto
next
  case (4 k t ts)
  obtain t1 k1 where a: "relabel1 k t = (t1, k1)"
    by (cases "relabel1 k t")
  obtain ts1 k2 where b: "relabel k1 ts = (ts1, k2)"
    by (cases "relabel k1 ts")
  have "\<forall>i\<in>set (ids1 t1). i < k1" and "\<forall>i\<in>set (ids ts1). k1 \<le> i"
    using relabel1_bounds [OF a] relabel_bounds [OF b] by simp_all
  then have "set (ids1 t1) \<inter> set (ids ts1) = {}"
    by fastforce
  then show ?case
    using 4(1) [OF a] 4(2) [OF a [symmetric] b] 4(3) a b by auto
qed

lemma set_html_step:
  assumes d: "distinct (ids (forest w))" and b: "bounded w"
  shows "distinct (ids (forest (set_html P n s w))) \<and> bounded (set_html P n s w)
    \<and> set (ids (forest w)) \<subseteq> set (ids (forest (set_html P n s w)))
    \<and> (\<forall>x\<in>set (ids (forest w)). n \<notin> subtree_ids x (forest w) \<longrightarrow>
          lookup x (forest (set_html P n s w)) = lookup x (forest w))
    \<and> (n \<in> set (ids (forest w)) \<longrightarrow>
          children_of n (forest (set_html P n s w)) = fst (relabel (fresh w) (parse P s))
          \<and> subtree_ids n (forest (set_html P n s w)) \<inter> set (ids (forest w)) = {n})"
proof -
  obtain new k where r: "relabel (fresh w) (parse P s) = (new, k)"
    by (cases "relabel (fresh w) (parse P s)")
  have f: "forest (set_html P n s w) = replace_kids n new (forest w)"
    and fr: "fresh (set_html P n s w) = k"
    by (simp_all add: set_html_def r)
  have bn: "fresh w \<le> k" and inew: "\<forall>i\<in>set (ids new). fresh w \<le> i \<and> i < k"
    using relabel_bounds [OF r] by simp_all
  have old: "\<forall>i\<in>set (ids (forest w)). i < fresh w"
    using b by (simp add: bounded_def)
  have dn: "distinct (ids new)"
    using relabel_distinct [OF r] .
  have dj: "set (ids new) \<inter> set (ids (forest w)) = {}"
    using inew old by fastforce
  note I = ids_replace_kids [OF d dn dj, of n]
  have l: "lookup x (replace_kids n new (forest w)) = lookup x (forest w)"
    if "x \<in> set (ids (forest w))" and "n \<notin> subtree_ids x (forest w)" for x
  proof -
    have "x \<notin> set (ids new)"
      using that(1) dj by blast
    then show ?thesis
      using lookup_replace_kids [OF d that(2)] by simp
  qed
  have c: "children_of n (replace_kids n new (forest w)) = new
      \<and> subtree_ids n (replace_kids n new (forest w)) \<inter> set (ids (forest w)) = {n}"
    if "n \<in> set (ids (forest w))"
    using that children_replace_kids [of n "forest w" new]
      subtree_replace_kids [of n "forest w" new] dj
    by (auto simp: in_ids_lookup)
  have bd: "bounded (set_html P n s w)"
    using I inew old bn by (auto simp: bounded_def f fr split: if_splits)
  show ?thesis
    using I l c bd by (auto simp: f r)
qed

text \<open>One turn of the loop of load.\<close>

lemma load_turn:
  assumes ok: "load_mode_applies P m h" and d: "distinct (ids (forest w))" and b: "bounded w"
    and nin: "n \<in> set (ids (forest w))"
  shows "\<exists>w1. load_loop P m h (n # ns) w = load_loop P m h ns w1
    \<and> distinct (ids (forest w1)) \<and> bounded w1
    \<and> set (ids (forest w)) \<subseteq> set (ids (forest w1))
    \<and> (\<forall>x\<in>set (ids (forest w)). n \<notin> subtree_ids x (forest w) \<longrightarrow>
          lookup x (forest w1) = lookup x (forest w))
    \<and> subtree_ids n (forest w1) \<inter> set (ids (forest w)) = {n}
    \<and> (\<exists>k. children_of n (forest w1) =
          (case load_markup P m h (read_html P n w) of
             None \<Rightarrow> [Text []]
           | Some t \<Rightarrow> fst (relabel k (parse P t))))"
proof -
  have html: "\<exists>w1. w1 = set_html P n s w
    \<and> distinct (ids (forest w1)) \<and> bounded w1
    \<and> set (ids (forest w)) \<subseteq> set (ids (forest w1))
    \<and> (\<forall>x\<in>set (ids (forest w)). n \<notin> subtree_ids x (forest w) \<longrightarrow>
          lookup x (forest w1) = lookup x (forest w))
    \<and> subtree_ids n (forest w1) \<inter> set (ids (forest w)) = {n}
    \<and> children_of n (forest w1) = fst (relabel (fresh w) (parse P s))" for s
    using set_html_step [OF d b, of P n s] nin by simp
  consider "m = ''write''" | "m = ''append''" | "m = ''prepend''"
    | del where "m = ''remove''" and "regexp P (markup_pattern h) = Some del"
    using ok unfolding load_mode_applies_def by auto
  then show ?thesis
  proof cases
    case 1
    let ?w0 = "set_text n [] w"
    note T = set_text_step [OF d, of n "[]"]
    have d0: "distinct (ids (forest ?w0))" and i0: "set (ids (forest ?w0)) = set (ids (forest w))"
      using T by simp_all
    have k0: "lookup x (forest ?w0) = lookup x (forest w)"
      if "n \<notin> subtree_ids x (forest w)" for x
      using T that by blast
    have c0: "children_of n (forest ?w0) = [Text []]" and s0: "subtree_ids n (forest ?w0) = {n}"
      using T nin by simp_all
    have b0: "bounded ?w0"
      using b i0 by (simp add: bounded_def set_text_def)
    show ?thesis
    proof (cases h)
      case None
      have "load_loop P m h (n # ns) w = load_loop P m h ns ?w0"
        using 1 None by simp
      moreover have "load_markup P m h (read_html P n w) = None"
        using 1 None by (simp add: load_markup_def)
      ultimately show ?thesis
        using d0 b0 i0 k0 c0 s0 nin by (intro exI [of _ ?w0]) auto
    next
      case (Some s)
      let ?w1 = "set_html P n s ?w0"
      note H = set_html_step [OF d0 b0, of P n s]
      have st: "load_loop P m h (n # ns) w = load_loop P m h ns ?w1"
        using 1 Some by simp
      have lm: "load_markup P m h (read_html P n w) = Some s"
        using 1 Some by (simp add: load_markup_def)
      have k1: "lookup x (forest ?w1) = lookup x (forest w)"
        if x: "x \<in> set (ids (forest w))" and a: "n \<notin> subtree_ids x (forest w)" for x
      proof -
        have e: "lookup x (forest ?w0) = lookup x (forest w)"
          using k0 [OF a] .
        then have "n \<notin> subtree_ids x (forest ?w0)"
          using a subtree_ids_lookup [OF e] by simp
        then have "lookup x (forest ?w1) = lookup x (forest ?w0)"
          using H x i0 by blast
        then show ?thesis
          using e by simp
      qed
      have c1: "children_of n (forest ?w1) = fst (relabel (fresh ?w0) (parse P s))"
        and s1: "subtree_ids n (forest ?w1) \<inter> set (ids (forest w)) = {n}"
        using H nin i0 by simp_all
      show ?thesis
        using st lm H i0 k1 c1 s1 by (intro exI [of _ ?w1]) auto
    qed
  next
    case 2
    let ?s = "read_html P n w @ markup_text h"
    have "load_loop P m h (n # ns) w = load_loop P m h ns (set_html P n ?s w)"
      using 2 by simp
    moreover have "load_markup P m h (read_html P n w) = Some ?s"
      using 2 by (simp add: load_markup_def)
    ultimately show ?thesis
      using html [of ?s] by auto
  next
    case 3
    let ?s = "markup_text h @ read_html P n w"
    have "load_loop P m h (n # ns) w = load_loop P m h ns (set_html P n ?s w)"
      using 3 by simp
    moreover have "load_markup P m h (read_html P n w) = Some ?s"
      using 3 by (simp add: load_markup_def)
    ultimately show ?thesis
      using html [of ?s] by auto
  next
    case 4
    let ?s = "del (read_html P n w)"
    have "load_loop P m h (n # ns) w = load_loop P m h ns (set_html P n ?s w)"
      using 4 by simp
    moreover have "load_markup P m h (read_html P n w) = Some ?s"
      using 4 by (simp add: load_markup_def)
    ultimately show ?thesis
      using html [of ?s] by auto
  qed
qed

lemma read_html_lookup:
  "lookup n (forest w') = lookup n (forest w) \<Longrightarrow> read_html P n w' = read_html P n w"
  by (simp add: read_html_def children_of_def)

lemma load_loop_all:
  assumes ok: "load_mode_applies P m h"
  shows "distinct (ids (forest w)) \<Longrightarrow> bounded w \<Longrightarrow> distinct ns \<Longrightarrow>
    ancestors_first ns (forest w) \<Longrightarrow> set ns \<subseteq> set (ids (forest w)) \<Longrightarrow>
    fst (load_loop P m h ns w) = Inr ()
    \<and> (\<forall>n\<in>set ns. \<exists>k. children_of n (forest (snd (load_loop P m h ns w))) =
          (case load_markup P m h (read_html P n w) of
             None \<Rightarrow> [Text []]
           | Some t \<Rightarrow> fst (relabel k (parse P t))))
    \<and> (\<forall>x\<in>set (ids (forest w)). (\<forall>n\<in>set ns. n \<notin> subtree_ids x (forest w)) \<longrightarrow>
          lookup x (forest (snd (load_loop P m h ns w))) = lookup x (forest w))
    \<and> distinct (ids (forest (snd (load_loop P m h ns w))))
    \<and> bounded (snd (load_loop P m h ns w))
    \<and> set (ids (forest w)) \<subseteq> set (ids (forest (snd (load_loop P m h ns w))))"
proof (induction ns arbitrary: w)
  case Nil
  then show ?case by simp
next
  case (Cons n ns)
  let ?f = "forest w"
  have nin: "n \<in> set (ids ?f)" and nns: "n \<notin> set ns" and dns: "distinct ns"
    and above: "\<forall>x\<in>set ns. n \<notin> subtree_ids x ?f" and o: "ancestors_first ns ?f"
    and sub: "set ns \<subseteq> set (ids ?f)"
    using Cons.prems by auto
  obtain w1 k where step: "load_loop P m h (n # ns) w = load_loop P m h ns w1"
    and d1: "distinct (ids (forest w1))" and b1: "bounded w1"
    and i1: "set (ids ?f) \<subseteq> set (ids (forest w1))"
    and keep: "\<forall>x\<in>set (ids ?f). n \<notin> subtree_ids x ?f \<longrightarrow> lookup x (forest w1) = lookup x ?f"
    and sn: "subtree_ids n (forest w1) \<inter> set (ids ?f) = {n}"
    and cn: "children_of n (forest w1) =
          (case load_markup P m h (read_html P n w) of
             None \<Rightarrow> [Text []]
           | Some t \<Rightarrow> fst (relabel k (parse P t)))"
    using load_turn [OF ok Cons.prems(1,2) nin, of ns] by blast
  let ?f1 = "forest w1"
  let ?w' = "snd (load_loop P m h ns w1)"
  have same: "lookup x ?f1 = lookup x ?f" if "x \<in> set ns" for x
    using keep above sub that by blast
  have o1: "ancestors_first ns ?f1"
    using ancestors_first_cong [of ns ?f1 ?f] o same subtree_ids_lookup by blast
  have sub1: "set ns \<subseteq> set (ids ?f1)"
    using sub i1 by blast
  note IH = Cons.IH [OF d1 b1 dns o1 sub1]
  have r1: "\<forall>x\<in>set ns. \<exists>k. children_of x (forest ?w') =
          (case load_markup P m h (read_html P x w) of
             None \<Rightarrow> [Text []]
           | Some t \<Rightarrow> fst (relabel k (parse P t)))"
  proof
    fix x assume x: "x \<in> set ns"
    have e: "read_html P x w1 = read_html P x w"
      using same [OF x] by (rule read_html_lookup)
    have "\<exists>k. children_of x (forest ?w') =
          (case load_markup P m h (read_html P x w1) of
             None \<Rightarrow> [Text []]
           | Some t \<Rightarrow> fst (relabel k (parse P t)))"
      using IH x by blast
    then show "\<exists>k. children_of x (forest ?w') =
          (case load_markup P m h (read_html P x w) of
             None \<Rightarrow> [Text []]
           | Some t \<Rightarrow> fst (relabel k (parse P t)))"
      unfolding e .
  qed
  have "\<forall>y\<in>set ns. y \<notin> subtree_ids n ?f1"
  proof
    fix y assume y: "y \<in> set ns"
    show "y \<notin> subtree_ids n ?f1"
    proof
      assume "y \<in> subtree_ids n ?f1"
      then have "y \<in> subtree_ids n ?f1 \<inter> set (ids ?f)"
        using y sub by blast
      then have "y = n"
        using sn by simp
      then show False
        using y nns by simp
    qed
  qed
  moreover have "n \<in> set (ids ?f1)"
    using nin i1 by blast
  ultimately have "lookup n (forest ?w') = lookup n ?f1"
    using IH by blast
  then have r0: "\<exists>k. children_of n (forest ?w') =
          (case load_markup P m h (read_html P n w) of
             None \<Rightarrow> [Text []]
           | Some t \<Rightarrow> fst (relabel k (parse P t)))"
    using cn children_lookup by metis
  have fr: "lookup x (forest ?w') = lookup x ?f"
    if x: "x \<in> set (ids ?f)" and a: "\<forall>y\<in>set (n # ns). y \<notin> subtree_ids x ?f" for x
  proof -
    have k: "lookup x ?f1 = lookup x ?f"
      using keep a x by simp
    then have "\<forall>y\<in>set ns. y \<notin> subtree_ids x ?f1"
      using a subtree_ids_lookup [OF k] by simp
    moreover have "x \<in> set (ids ?f1)"
      using x i1 by blast
    ultimately have "lookup x (forest ?w') = lookup x ?f1"
      using IH by blast
    then show ?thesis
      using k by simp
  qed
  show ?case
    unfolding step using IH r1 r0 fr i1 by auto
qed

lemma forest_flag_loaded:
  "forest (flag_loaded ns w) = fold (\<lambda>n. modify n (set_attr ''data-ice-loaded'' ''1'')) ns (forest w)"
  unfolding flag_loaded_def by (induction ns arbitrary: w) (simp_all add: write_attr_def)

lemma fresh_flag_loaded [simp]: "fresh (flag_loaded ns w) = fresh w"
  unfolding flag_loaded_def by (induction ns arbitrary: w) (simp_all add: write_attr_def)

lemma ids_flag_loaded [simp]: "ids (forest (flag_loaded ns w)) = ids (forest w)"
  unfolding flag_loaded_def by (induction ns arbitrary: w) simp_all

lemma subtree_write_attr:
  "subtree_ids x (forest (write_attr n key v w)) = subtree_ids x (forest w)"
  by (cases "lookup x (forest w)")
    (simp_all add: subtree_ids_def write_attr_def lookup_modify_set_attr ids1_modify_set_attr)

lemma subtree_flag_loaded: "subtree_ids x (forest (flag_loaded ns w)) = subtree_ids x (forest w)"
  unfolding flag_loaded_def by (induction ns arbitrary: w) (simp_all add: subtree_write_attr)

lemma flagged_carry:
  "set ns \<subseteq> set (ids (forest w)) \<Longrightarrow>
     \<forall>n\<in>set ns. read_attr n ''data-ice-loaded'' (flag_loaded ns w) = Some ''1''"
proof (induction ns arbitrary: w)
  case Nil
  show ?case by simp
next
  case (Cons m ns)
  let ?w1 = "write_attr m ''data-ice-loaded'' ''1'' w"
  have f: "flag_loaded (m # ns) w = flag_loaded ns ?w1"
    by (simp add: flag_loaded_def)
  have keepf: "read_attr x ''data-ice-loaded'' w' = Some ''1'' \<Longrightarrow>
      read_attr x ''data-ice-loaded'' (flag_loaded ms w') = Some ''1''" for x ms w'
    unfolding flag_loaded_def
    by (induction ms arbitrary: w') (simp_all add: read_attr_write_attr)
  have "read_attr m ''data-ice-loaded'' ?w1 = Some ''1''"
    using Cons.prems by (simp add: read_attr_write_attr in_ids_lookup)
  then have here: "read_attr m ''data-ice-loaded'' (flag_loaded ns ?w1) = Some ''1''"
    by (rule keepf)
  have "set ns \<subseteq> set (ids (forest ?w1))"
    using Cons.prems by simp
  then show ?case
    using Cons.IH [of ?w1] here by (simp add: f)
qed

subsection \<open>The three operations as a whole\<close>

lemma transform_stops:
  "\<not> mode_applies P m v \<Longrightarrow>
     transform P m c v = Inl (if m = ''remove'' then RegExpSyntaxError else UnknownMode m)"
  by (auto simp: mode_applies_def transform_def split: option.splits)

lemma text_all:
  assumes r: "root (engine w this) = Some r" and i: "ident \<noteq> []" and p: "plain_id ident"
    and d: "distinct (ids (forest w))"
    and na: "\<not> (autoDrop (engine w this) \<and> js_falsy v)"
    and ok: "mode_applies P (mode_or_default mode) (to_string (normalize_value v))"
  shows "fst (text_ice P this ident v mode w) = Inr ReturnsThis
    \<and> (\<forall>n\<in>set (resolve r ident (forest w)).
          transform P (mode_or_default mode) (read_text n w) (to_string (normalize_value v))
            = Inr (read_text n (snd (text_ice P this ident v mode w))))"
proof -
  let ?ns = "resolve r ident (forest w)"
  obtain w1 where n: "nodes P this ident w = (Inr ?ns, w1)"
    and f: "forest w1 = forest w" and e: "engines w1 = engines w"
    using nodes_open_eq [OF r i p] by blast
  have e1: "engine w1 this = engine w this"
    by (simp add: engine_def e)
  note O = resolve_ordered [OF d, of r ident]
  have d1: "distinct (ids (forest w1))"
    using d f by simp
  note L = text_loop_all [OF ok d1, of ?ns]
  have rt: "read_text x w1 = read_text x w" for x
    by (simp add: read_text_def f)
  have t: "text_ice P this ident v mode w =
      (case text_loop P (mode_or_default mode) (normalize_value v) ?ns w1 of
         (Inl e, w2) \<Rightarrow> (Inl e, w2) | (Inr u, w2) \<Rightarrow> (Inr ReturnsThis, w2))"
    using na by (auto simp: text_ice_def n e1)
  show ?thesis
    using L O unfolding t
    by (cases "text_loop P (mode_or_default mode) (normalize_value v) ?ns w1")
      (auto simp: f rt)
qed

lemma text_stops:
  assumes r: "root (engine w this) = Some r" and i: "ident \<noteq> []" and p: "plain_id ident"
    and na: "\<not> (autoDrop (engine w this) \<and> js_falsy v)"
    and no: "\<not> mode_applies P (mode_or_default mode) (to_string (normalize_value v))"
    and ne: "resolve r ident (forest w) \<noteq> []"
  shows "text_ice P this ident v mode w =
    (Inl (if mode_or_default mode = ''remove'' then RegExpSyntaxError
          else UnknownMode (mode_or_default mode)), w)"
proof -
  let ?ns = "resolve r ident (forest w)"
  obtain w1 where n: "nodes P this ident w = (Inr ?ns, w1)"
    and e: "engines w1 = engines w"
    using nodes_open_eq [OF r i p] by blast
  have w1: "w1 = w"
    using nodes_nonempty_keeps [OF n ne] .
  obtain m ms where c: "?ns = m # ms"
    using ne by (cases ?ns) auto
  show ?thesis
    using na by (simp add: text_ice_def n w1 c transform_stops [OF no])
qed

lemma text_completes:
  assumes r: "root (engine w this) = Some r" and i: "ident \<noteq> []" and p: "plain_id ident"
    and d: "distinct (ids (forest w))"
    and c: "fst (text_ice P this ident v mode w) = Inr ReturnsThis"
  shows "\<forall>n\<in>set (resolve r ident (forest w)).
          transform P (mode_or_default mode) (read_text n w) (to_string (normalize_value v))
            = Inr (read_text n (snd (text_ice P this ident v mode w)))"
proof (cases "resolve r ident (forest w) = []")
  case True
  then show ?thesis by simp
next
  case False
  have na: "\<not> (autoDrop (engine w this) \<and> js_falsy v)"
    using text_returns [OF c] by (auto split: if_splits)
  have "mode_applies P (mode_or_default mode) (to_string (normalize_value v))"
  proof (rule ccontr)
    assume x: "\<not> mode_applies P (mode_or_default mode) (to_string (normalize_value v))"
    show False
      using text_stops [OF r i p na x False] c by simp
  qed
  then show ?thesis
    using text_all [OF r i p d na] by blast
qed

lemma attr_all:
  assumes r: "root (engine w this) = Some r" and i: "ident \<noteq> []" and p: "plain_id ident"
    and d: "distinct (ids (forest w))"
    and ok: "mode_applies P (mode_or_default mode) (to_string (normalize_value v))"
  shows "fst (attr P this ident key v mode w) = Inr ReturnsThis
    \<and> (\<forall>n\<in>set (resolve r ident (forest w)).
          transform P (mode_or_default mode)
              (case read_attr n key w of None \<Rightarrow> [] | Some c \<Rightarrow> c)
              (to_string (normalize_value v))
            = Inr (case read_attr n key (snd (attr P this ident key v mode w)) of
                     None \<Rightarrow> [] | Some c \<Rightarrow> c)
          \<and> read_attr n key (snd (attr P this ident key v mode w)) \<noteq> None)"
proof -
  let ?ns = "resolve r ident (forest w)"
  obtain w1 where n: "nodes P this ident w = (Inr ?ns, w1)"
    and f: "forest w1 = forest w" and e: "engines w1 = engines w"
    using nodes_open_eq [OF r i p] by blast
  note O = resolve_ordered [OF d, of r ident]
  have dn: "distinct ?ns" and sub: "set ?ns \<subseteq> set (ids (forest w1))"
    using O f by simp_all
  note L = attr_loop_all [OF ok dn sub, of key]
  have ra: "read_attr x key w1 = read_attr x key w" for x
    by (simp add: read_attr_def f)
  have s: "fst (attr_loop P (mode_or_default mode) key (normalize_value v) ?ns w1) = Inr ()"
    using attr_loop_writes [OF ok] by blast
  have t: "attr P this ident key v mode w =
      (Inr ReturnsThis, snd (attr_loop P (mode_or_default mode) key (normalize_value v) ?ns w1))"
    using s by (cases "attr_loop P (mode_or_default mode) key (normalize_value v) ?ns w1")
      (simp add: attr_def n)
  show ?thesis
    using L unfolding t by (simp add: ra)
qed

lemma attr_stops:
  assumes r: "root (engine w this) = Some r" and i: "ident \<noteq> []" and p: "plain_id ident"
    and no: "\<not> mode_applies P (mode_or_default mode) (to_string (normalize_value v))"
    and ne: "resolve r ident (forest w) \<noteq> []"
  shows "attr P this ident key v mode w =
    (Inl (if mode_or_default mode = ''remove'' then RegExpSyntaxError
          else UnknownMode (mode_or_default mode)), w)"
proof -
  let ?ns = "resolve r ident (forest w)"
  obtain w1 where n: "nodes P this ident w = (Inr ?ns, w1)"
    using nodes_open_eq [OF r i p] by blast
  have w1: "w1 = w"
    using nodes_nonempty_keeps [OF n ne] .
  obtain m ms where c: "?ns = m # ms"
    using ne by (cases ?ns) auto
  show ?thesis
    by (simp add: attr_def n w1 c transform_stops [OF no])
qed

lemma attr_completes:
  assumes r: "root (engine w this) = Some r" and i: "ident \<noteq> []" and p: "plain_id ident"
    and d: "distinct (ids (forest w))"
    and c: "fst (attr P this ident key v mode w) = Inr ReturnsThis"
  shows "\<forall>n\<in>set (resolve r ident (forest w)).
          transform P (mode_or_default mode)
              (case read_attr n key w of None \<Rightarrow> [] | Some c \<Rightarrow> c)
              (to_string (normalize_value v))
            = Inr (case read_attr n key (snd (attr P this ident key v mode w)) of
                     None \<Rightarrow> [] | Some c \<Rightarrow> c)"
proof (cases "resolve r ident (forest w) = []")
  case True
  then show ?thesis by simp
next
  case False
  have "mode_applies P (mode_or_default mode) (to_string (normalize_value v))"
  proof (rule ccontr)
    assume x: "\<not> mode_applies P (mode_or_default mode) (to_string (normalize_value v))"
    show False
      using attr_stops [OF r i p x False, of key] c by simp
  qed
  then show ?thesis
    using attr_all [OF r i p d, of P mode v key] by blast
qed

lemma load_all:
  assumes s: "load_source P ice w = (h, w0)"
    and r: "root (engine w0 this) = Some r" and i: "ident \<noteq> []" and p: "plain_id ident"
    and d: "distinct (ids (forest w0))" and b: "bounded w0"
    and na: "\<not> (autoDrop (engine w0 this) \<and> (h = None \<or> h = Some []))"
    and ok: "load_mode_applies P (mode_or_default mode) h"
  shows "fst (load P this ident ice mode w) = Inr ReturnsThis
    \<and> (\<forall>n\<in>set (resolve r ident (forest w0)).
          \<exists>k. children_of n (forest (snd (load P this ident ice mode w))) =
            (case load_markup P (mode_or_default mode) h
                    (read_html P n (flag_loaded (resolve r ident (forest w0)) w0)) of
               None \<Rightarrow> [Text []]
             | Some t \<Rightarrow> fst (relabel k (parse P t))))"
proof -
  let ?ns = "resolve r ident (forest w0)"
  obtain w1 where n: "nodes P this ident w0 = (Inr ?ns, w1)"
    and f: "forest w1 = forest w0" and e: "engines w1 = engines w0"
    using nodes_open_eq [OF r i p] by blast
  have fr: "fresh w1 = fresh w0"
    using nodes_keeps [OF n] by simp
  have e1: "engine w1 this = engine w0 this"
    by (simp add: engine_def e)
  let ?wf = "flag_loaded ?ns w1"
  note O = resolve_ordered [OF d, of r ident]
  have df: "distinct (ids (forest ?wf))"
    using d f by simp
  have bf: "bounded ?wf"
    using b f fr by (simp add: bounded_def)
  have of: "ancestors_first ?ns (forest ?wf)"
    using ancestors_first_cong [of ?ns "forest ?wf" "forest w1"] O f
    by (simp add: subtree_flag_loaded)
  have sf: "set ?ns \<subseteq> set (ids (forest ?wf))"
    using O f by simp
  note L = load_loop_all [OF ok df bf _ of sf]
  have same: "forest ?wf = forest (flag_loaded ?ns w0)"
    by (simp add: forest_flag_loaded f)
  have rh: "read_html P x ?wf = read_html P x (flag_loaded ?ns w0)" for x
    by (simp add: read_html_def same)
  have t: "load P this ident ice mode w =
      (case load_loop P (mode_or_default mode) h ?ns ?wf of
         (Inl e, w2) \<Rightarrow> (Inl e, w2) | (Inr u, w2) \<Rightarrow> (Inr ReturnsThis, w2))"
    using na by (auto simp: load_def s n e1)
  show ?thesis
    using L O unfolding t
    by (cases "load_loop P (mode_or_default mode) h ?ns ?wf") (auto simp: rh)
qed

lemma load_stops:
  assumes s: "load_source P ice w = (h, w0)"
    and n: "fst (nodes P this ident w0) = Inr ns" and ne: "ns \<noteq> []"
    and na: "\<not> (autoDrop (engine w0 this) \<and> (h = None \<or> h = Some []))"
    and no: "\<not> load_mode_applies P (mode_or_default mode) h"
  shows "load P this ident ice mode w =
    (Inl (if mode_or_default mode = ''remove'' then RegExpSyntaxError
          else UnknownMode (mode_or_default mode)), flag_loaded ns w0)"
proof -
  obtain w1 where n1: "nodes P this ident w0 = (Inr ns, w1)"
    using n by (cases "nodes P this ident w0") auto
  have w1: "w1 = w0"
    using nodes_nonempty_keeps [OF n1 ne] .
  obtain m ms where c: "ns = m # ms"
    using ne by (cases ns) auto
  show ?thesis
    using na load_loop_stops [OF no, of m ms "flag_loaded ns w0"]
    by (simp add: load_def s n1 w1 c del: load_loop.simps)
qed

lemma load_completes:
  assumes s: "load_source P ice w = (h, w0)"
    and r: "root (engine w0 this) = Some r" and i: "ident \<noteq> []" and p: "plain_id ident"
    and d: "distinct (ids (forest w0))" and b: "bounded w0"
    and c: "fst (load P this ident ice mode w) = Inr ReturnsThis"
  shows "\<forall>n\<in>set (resolve r ident (forest w0)).
          \<exists>k. children_of n (forest (snd (load P this ident ice mode w))) =
            (case load_markup P (mode_or_default mode) h
                    (read_html P n (flag_loaded (resolve r ident (forest w0)) w0)) of
               None \<Rightarrow> [Text []]
             | Some t \<Rightarrow> fst (relabel k (parse P t)))"
proof (cases "resolve r ident (forest w0) = []")
  case True
  then show ?thesis by simp
next
  case False
  have na: "\<not> (autoDrop (engine w0 this) \<and> (h = None \<or> h = Some []))"
    using load_returns [OF c] s by (auto split: if_splits)
  obtain w1 where n: "nodes P this ident w0 = (Inr (resolve r ident (forest w0)), w1)"
    using nodes_open_eq [OF r i p] by blast
  then have n': "fst (nodes P this ident w0) = Inr (resolve r ident (forest w0))"
    by simp
  have "load_mode_applies P (mode_or_default mode) h"
  proof (rule ccontr)
    assume x: "\<not> load_mode_applies P (mode_or_default mode) h"
    show False
      using load_stops [OF s n' False na x] c by simp
  qed
  then show ?thesis
    using load_all [OF s r i p d b na] by blast
qed

lemma flagged_each:
  "n \<in> set ns \<Longrightarrow> n \<in> set (ids (forest w)) \<Longrightarrow>
     read_attr n ''data-ice-loaded'' (flag_loaded ns w) = Some ''1''"
proof (induction ns arbitrary: w)
  case Nil
  then show ?case by simp
next
  case (Cons m ns)
  let ?w1 = "write_attr m ''data-ice-loaded'' ''1'' w"
  have f: "flag_loaded (m # ns) w = flag_loaded ns ?w1"
    by (simp add: flag_loaded_def)
  have keepf: "read_attr x ''data-ice-loaded'' w' = Some ''1'' \<Longrightarrow>
      read_attr x ''data-ice-loaded'' (flag_loaded ms w') = Some ''1''" for x ms w'
    unfolding flag_loaded_def
    by (induction ms arbitrary: w') (simp_all add: read_attr_write_attr)
  show ?case
  proof (cases "n = m")
    case True
    have "read_attr m ''data-ice-loaded'' ?w1 = Some ''1''"
      using Cons.prems True by (simp add: read_attr_write_attr in_ids_lookup)
    then show ?thesis
      using keepf True by (simp add: f)
  next
    case False
    then have "n \<in> set ns"
      using Cons.prems by simp
    moreover have "n \<in> set (ids (forest ?w1))"
      using Cons.prems by simp
    ultimately show ?thesis
      using Cons.IH [of ?w1] by (simp add: f)
  qed
qed

lemma load_markup_transform:
  "load_markup P md (Some s) c = (case transform P md c s of Inl e \<Rightarrow> None | Inr t \<Rightarrow> Some t)"
  by (simp add: load_markup_def transform_def markup_text_def markup_pattern_def
      split: option.splits)

subsection \<open>The write modes\<close>

text \<open>
  C6, as the code has it. With current value \<open>c\<close> and new value \<open>v\<close> the transform
  yields \<open>v\<close> for \<open>write\<close>, \<open>c\<close> followed by \<open>v\<close> for \<open>append\<close>, \<open>v\<close> followed by \<open>c\<close>
  for \<open>prepend\<close>, and for \<open>remove\<close> the string \<open>c\<close> with every match of the pattern
  \<open>v\<close> deleted when \<open>v\<close> is a pattern; when it is none the transform fails with the
  runtime's syntax error, which is not of kind InvalidArgument. Any other mode fails
  with the error of kind InvalidArgument. The \<open>switch\<close> of \<open>load\<close> computes the same on
  the inner markup and the markup to load. On an open instance with a plain id and a
  forest of distinct identities, \<open>text\<close> (where it does not drop) and \<open>attr\<close>, under a
  mode that yields a value, return the instance, and afterwards the text, or the
  attribute, of every resolved marker is the transform of what it was before the call;
  under a mode that yields none, with a marker resolved, they fail with that error and
  change nothing. \<open>load\<close>, where it does not drop, returns the instance, and the children
  of every resolved marker are the parsed transform of its inner markup, read after all
  markers were flagged (in mode \<open>write\<close> with the markup \<open>undefined\<close>: an empty text).
\<close>

theorem write_modes:
  "transform P ''write'' c v = Inr v
   \<and> transform P ''append'' c v = Inr (c @ v)
   \<and> transform P ''prepend'' c v = Inr (v @ c)
   \<and> transform P ''remove'' c v =
       (case regexp P v of None \<Rightarrow> Inl RegExpSyntaxError | Some del \<Rightarrow> Inr (del c))
   \<and> (m \<noteq> ''write'' \<and> m \<noteq> ''append'' \<and> m \<noteq> ''prepend'' \<and> m \<noteq> ''remove'' \<longrightarrow>
        transform P m c v = Inl (UnknownMode m))
   \<and> failure_of (UnknownMode m) = InvalidArgument
   \<and> failure_of RegExpSyntaxError = Unclassified
   \<and> load_markup P m (Some s) c =
       (case transform P m c s of Inl e \<Rightarrow> None | Inr t \<Rightarrow> Some t)
   \<and> (root (engine w this) = Some r \<and> ident \<noteq> [] \<and> plain_id ident
        \<and> distinct (ids (forest w)) \<longrightarrow>
       (\<not> (autoDrop (engine w this) \<and> js_falsy val)
          \<and> mode_applies P (mode_or_default mode) (to_string (normalize_value val)) \<longrightarrow>
          fst (text_ice P this ident val mode w) = Inr ReturnsThis
          \<and> (\<forall>n\<in>set (resolve r ident (forest w)).
                transform P (mode_or_default mode) (read_text n w)
                    (to_string (normalize_value val))
                  = Inr (read_text n (snd (text_ice P this ident val mode w)))))
       \<and> (mode_applies P (mode_or_default mode) (to_string (normalize_value val)) \<longrightarrow>
          fst (attr P this ident key val mode w) = Inr ReturnsThis
          \<and> (\<forall>n\<in>set (resolve r ident (forest w)).
                transform P (mode_or_default mode)
                    (case read_attr n key w of None \<Rightarrow> [] | Some c \<Rightarrow> c)
                    (to_string (normalize_value val))
                  = Inr (case read_attr n key (snd (attr P this ident key val mode w)) of
                           None \<Rightarrow> [] | Some c \<Rightarrow> c)
                \<and> read_attr n key (snd (attr P this ident key val mode w)) \<noteq> None))
       \<and> (\<not> mode_applies P (mode_or_default mode) (to_string (normalize_value val))
          \<and> resolve r ident (forest w) \<noteq> [] \<longrightarrow>
          attr P this ident key val mode w =
            (Inl (if mode_or_default mode = ''remove'' then RegExpSyntaxError
                  else UnknownMode (mode_or_default mode)), w)
          \<and> (\<not> (autoDrop (engine w this) \<and> js_falsy val) \<longrightarrow>
               text_ice P this ident val mode w =
                 (Inl (if mode_or_default mode = ''remove'' then RegExpSyntaxError
                       else UnknownMode (mode_or_default mode)), w))))
   \<and> (load_source P ice w = (h, w0) \<and> root (engine w0 this) = Some r \<and> ident \<noteq> []
        \<and> plain_id ident \<and> distinct (ids (forest w0)) \<and> bounded w0
        \<and> \<not> (autoDrop (engine w0 this) \<and> (h = None \<or> h = Some []))
        \<and> load_mode_applies P (mode_or_default mode) h \<longrightarrow>
       fst (load P this ident ice mode w) = Inr ReturnsThis
       \<and> (\<forall>n\<in>set (resolve r ident (forest w0)).
             \<exists>k. children_of n (forest (snd (load P this ident ice mode w))) =
               (case load_markup P (mode_or_default mode) h
                       (read_html P n (flag_loaded (resolve r ident (forest w0)) w0)) of
                  None \<Rightarrow> [Text []]
                | Some t \<Rightarrow> fst (relabel k (parse P t)))))"
proof -
  have table: "transform P ''write'' c v = Inr v
   \<and> transform P ''append'' c v = Inr (c @ v)
   \<and> transform P ''prepend'' c v = Inr (v @ c)
   \<and> transform P ''remove'' c v =
       (case regexp P v of None \<Rightarrow> Inl RegExpSyntaxError | Some del \<Rightarrow> Inr (del c))
   \<and> (m \<noteq> ''write'' \<and> m \<noteq> ''append'' \<and> m \<noteq> ''prepend'' \<and> m \<noteq> ''remove'' \<longrightarrow>
        transform P m c v = Inl (UnknownMode m))
   \<and> failure_of (UnknownMode m) = InvalidArgument
   \<and> failure_of RegExpSyntaxError = Unclassified"
    by (simp add: transform_def)
  have lm: "load_markup P m (Some s) c =
       (case transform P m c s of Inl e \<Rightarrow> None | Inr t \<Rightarrow> Some t)"
    by (rule load_markup_transform)
  have marks: "(\<not> (autoDrop (engine w this) \<and> js_falsy val)
          \<and> mode_applies P (mode_or_default mode) (to_string (normalize_value val)) \<longrightarrow>
          fst (text_ice P this ident val mode w) = Inr ReturnsThis
          \<and> (\<forall>n\<in>set (resolve r ident (forest w)).
                transform P (mode_or_default mode) (read_text n w)
                    (to_string (normalize_value val))
                  = Inr (read_text n (snd (text_ice P this ident val mode w)))))
       \<and> (mode_applies P (mode_or_default mode) (to_string (normalize_value val)) \<longrightarrow>
          fst (attr P this ident key val mode w) = Inr ReturnsThis
          \<and> (\<forall>n\<in>set (resolve r ident (forest w)).
                transform P (mode_or_default mode)
                    (case read_attr n key w of None \<Rightarrow> [] | Some c \<Rightarrow> c)
                    (to_string (normalize_value val))
                  = Inr (case read_attr n key (snd (attr P this ident key val mode w)) of
                           None \<Rightarrow> [] | Some c \<Rightarrow> c)
                \<and> read_attr n key (snd (attr P this ident key val mode w)) \<noteq> None))
       \<and> (\<not> mode_applies P (mode_or_default mode) (to_string (normalize_value val))
          \<and> resolve r ident (forest w) \<noteq> [] \<longrightarrow>
          attr P this ident key val mode w =
            (Inl (if mode_or_default mode = ''remove'' then RegExpSyntaxError
                  else UnknownMode (mode_or_default mode)), w)
          \<and> (\<not> (autoDrop (engine w this) \<and> js_falsy val) \<longrightarrow>
               text_ice P this ident val mode w =
                 (Inl (if mode_or_default mode = ''remove'' then RegExpSyntaxError
                       else UnknownMode (mode_or_default mode)), w)))"
    if a: "root (engine w this) = Some r \<and> ident \<noteq> [] \<and> plain_id ident
        \<and> distinct (ids (forest w))"
  proof -
    have r: "root (engine w this) = Some r" and i: "ident \<noteq> []" and p: "plain_id ident"
      and d: "distinct (ids (forest w))"
      using a by simp_all
    show ?thesis
      using text_all [OF r i p d, of val P mode] attr_all [OF r i p d, of P mode val key]
        attr_stops [OF r i p, of P mode val key] text_stops [OF r i p, of val P mode]
      by blast
  qed
  have loads: "fst (load P this ident ice mode w) = Inr ReturnsThis
       \<and> (\<forall>n\<in>set (resolve r ident (forest w0)).
             \<exists>k. children_of n (forest (snd (load P this ident ice mode w))) =
               (case load_markup P (mode_or_default mode) h
                       (read_html P n (flag_loaded (resolve r ident (forest w0)) w0)) of
                  None \<Rightarrow> [Text []]
                | Some t \<Rightarrow> fst (relabel k (parse P t))))"
    if a: "load_source P ice w = (h, w0) \<and> root (engine w0 this) = Some r \<and> ident \<noteq> []
        \<and> plain_id ident \<and> distinct (ids (forest w0)) \<and> bounded w0
        \<and> \<not> (autoDrop (engine w0 this) \<and> (h = None \<or> h = Some []))
        \<and> load_mode_applies P (mode_or_default mode) h"
    using a load_all [of P ice w h w0 this r ident mode] by blast
  show ?thesis
    using table lm marks loads by blast
qed


theorem write_modes_witness:
  "transform sample ''bogus'' ''ab'' ''c'' = Inl (UnknownMode ''bogus'')
   \<and> transform sample ''remove'' ''abcabc'' ''c'' = Inr ''abab''
   \<and> root (engine deep 0) = Some 0 \<and> ''item'' \<noteq> [] \<and> plain_id ''item''
   \<and> distinct (ids (forest deep)) \<and> bounded deep
   \<and> resolve 0 ''item'' (forest deep) = [1, 2, 6]
   \<and> read_text 1 deep = ''a'' \<and> read_text 2 deep = ''a'' \<and> read_text 6 deep = []
   \<and> fst (text_ice sample 0 ''item'' (Str ''x'') (Some ''append'') deep) = Inr ReturnsThis
   \<and> read_text 1 (snd (text_ice sample 0 ''item'' (Str ''x'') (Some ''append'') deep)) = ''ax''
   \<and> read_text 2 (snd (text_ice sample 0 ''item'' (Str ''x'') (Some ''append'') deep)) = ''ax''
   \<and> read_text 6 (snd (text_ice sample 0 ''item'' (Str ''x'') (Some ''append'') deep)) = ''x''
   \<and> fst (attr sample 0 ''item'' ''class'' (Str ''k'') None deep) = Inr ReturnsThis
   \<and> read_attr 1 ''class'' (snd (attr sample 0 ''item'' ''class'' (Str ''k'') None deep)) = Some ''k''
   \<and> read_attr 2 ''class'' (snd (attr sample 0 ''item'' ''class'' (Str ''k'') None deep)) = Some ''k''
   \<and> read_attr 6 ''class'' (snd (attr sample 0 ''item'' ''class'' (Str ''k'') None deep)) = Some ''k''
   \<and> attr sample 0 ''item'' ''class'' (Str ''k'') (Some ''bogus'') deep
        = (Inl (UnknownMode ''bogus''), deep)
   \<and> fst (load sample 0 ''item'' (Str ''x'') (Some ''write'') deep) = Inr ReturnsThis
   \<and> children_of 1 (forest (snd (load sample 0 ''item'' (Str ''x'') (Some ''write'') deep)))
        = [Text ''x'']
   \<and> children_of 2 (forest (snd (load sample 0 ''item'' (Str ''x'') (Some ''write'') deep)))
        = [Text ''x'']
   \<and> children_of 6 (forest (snd (load sample 0 ''item'' (Str ''x'') (Some ''write'') deep)))
        = [Text ''x'']
   \<and> children_of 2 (forest (snd (load sample 0 ''item'' (Str ''x'') (Some ''append'') deep)))
        = [Text ''ax'']"
proof -
  have tb: "transform sample ''bogus'' ''ab'' ''c'' = Inl (UnknownMode ''bogus'')"
    using write_modes [where P = sample and m = "''bogus''" and c = "''ab''" and v = "''c''"]
    by simp
  have dl: "(case regexp sample ''c'' of None \<Rightarrow> Inl RegExpSyntaxError
            | Some del \<Rightarrow> Inr (del ''abcabc'')) = Inr ''abab''"
    by code_simp
  have tr: "transform sample ''remove'' ''abcabc'' ''c'' = Inr ''abab''"
    using dl write_modes [where P = sample and c = "''abcabc''" and v = "''c''"] by simp
  have r: "root (engine deep 0) = Some 0"
    by (simp add: deep_def engine_def)
  have ad: "autoDrop (engine deep 0)"
    by (simp add: deep_def engine_def)
  have i: "''item'' \<noteq> []" and p: "plain_id ''item''"
    by (simp_all add: plain_id_def)
  have d: "distinct (ids (forest deep))"
    by (simp add: deep_def)
  have b: "bounded deep"
    by (simp add: deep_def bounded_def)
  have m: "resolve 0 ''item'' (forest deep) = [1, 2, 6]"
    by code_simp
  have c1: "read_text 1 deep = ''a''" and c2: "read_text 2 deep = ''a''"
    and c6: "read_text 6 deep = []"
    by code_simp+
  have a1: "read_attr 1 ''class'' deep = None" and a2: "read_attr 2 ''class'' deep = None"
    and a6: "read_attr 6 ''class'' deep = None"
    by code_simp+
  have h2: "read_html sample 2 (flag_loaded [1, 2, 6] deep) = ''a''"
    by code_simp
  have md: "mode_or_default (Some ''append'') = ''append''" "mode_or_default None = ''append''"
    "mode_or_default (Some ''write'') = ''write''" "mode_or_default (Some ''bogus'') = ''bogus''"
    by (simp_all add: mode_or_default_def)
  have nv: "to_string (normalize_value (Str ''x'')) = ''x''"
    "to_string (normalize_value (Str ''k'')) = ''k''"
    by (simp_all add: normalize_value_def)
  have ap: "mode_applies sample ''append'' ''x''" "mode_applies sample ''append'' ''k''"
    "\<not> mode_applies sample ''bogus'' ''k''"
    by (simp_all add: mode_applies_def)
  have la: "load_mode_applies sample ''append'' (Some ''x'')"
    "load_mode_applies sample ''write'' (Some ''x'')"
    by (simp_all add: load_mode_applies_def)
  have ta: "transform sample ''append'' c ''x'' = Inr (c @ ''x'')"
    "transform sample ''append'' c ''k'' = Inr (c @ ''k'')" for c
    by (simp_all add: transform_def)
  have ls: "load_source sample (Str ''x'') deep = (Some ''x'', deep)"
    by (simp add: load_source_def)
  have lw: "load_markup sample ''write'' (Some ''x'') c = Some ''x''"
    "load_markup sample ''append'' (Some ''x'') c = Some (c @ ''x'')" for c
    by (simp_all add: load_markup_def markup_text_def)
  have ps: "fst (relabel k (parse sample ''x'')) = [Text ''x'']"
    "fst (relabel k (parse sample ''ax'')) = [Text ''ax'']" for k
    by (simp_all add: sample_def)
  let ?wt = "snd (text_ice sample 0 ''item'' (Str ''x'') (Some ''append'') deep)"
  let ?wa = "snd (attr sample 0 ''item'' ''class'' (Str ''k'') None deep)"
  let ?ww = "snd (load sample 0 ''item'' (Str ''x'') (Some ''write'') deep)"
  let ?wl = "snd (load sample 0 ''item'' (Str ''x'') (Some ''append'') deep)"
  have t: "fst (text_ice sample 0 ''item'' (Str ''x'') (Some ''append'') deep) = Inr ReturnsThis
      \<and> (\<forall>n\<in>set [1, 2, 6].
            transform sample ''append'' (read_text n deep) ''x'' = Inr (read_text n ?wt))"
    using write_modes [where P = sample and w = deep and this = 0 and r = 0
        and ident = "''item''" and key = "''class''" and val = "Str ''x''" and mode = "Some ''append''",
        THEN conjunct2, THEN conjunct2, THEN conjunct2, THEN conjunct2, THEN conjunct2, THEN conjunct2, THEN conjunct2, THEN conjunct2, THEN conjunct1] r i p d m md nv ap ad
    by simp
  have t1: "read_text 1 ?wt = ''ax''" and t2: "read_text 2 ?wt = ''ax''"
    and t6: "read_text 6 ?wt = ''x''"
    using t c1 c2 c6 ta by auto
  have a: "fst (attr sample 0 ''item'' ''class'' (Str ''k'') None deep) = Inr ReturnsThis
      \<and> (\<forall>n\<in>set [1, 2, 6].
            transform sample ''append''
                (case read_attr n ''class'' deep of None \<Rightarrow> [] | Some c \<Rightarrow> c) ''k''
              = Inr (case read_attr n ''class'' ?wa of None \<Rightarrow> [] | Some c \<Rightarrow> c)
            \<and> read_attr n ''class'' ?wa \<noteq> None)"
    using write_modes [where P = sample and w = deep and this = 0 and r = 0
        and ident = "''item''" and key = "''class''" and val = "Str ''k''" and mode = None,
        THEN conjunct2, THEN conjunct2, THEN conjunct2, THEN conjunct2, THEN conjunct2, THEN conjunct2, THEN conjunct2, THEN conjunct2, THEN conjunct1] r i p d m md nv ap
    by simp
  have v1: "read_attr 1 ''class'' ?wa = Some ''k''" and v2: "read_attr 2 ''class'' ?wa = Some ''k''"
    and v6: "read_attr 6 ''class'' ?wa = Some ''k''"
    using a a1 a2 a6 ta by auto
  have ab: "attr sample 0 ''item'' ''class'' (Str ''k'') (Some ''bogus'') deep
        = (Inl (UnknownMode ''bogus''), deep)"
    using write_modes [where P = sample and w = deep and this = 0 and r = 0
        and ident = "''item''" and key = "''class''" and val = "Str ''k''" and mode = "Some ''bogus''",
        THEN conjunct2, THEN conjunct2, THEN conjunct2, THEN conjunct2, THEN conjunct2, THEN conjunct2, THEN conjunct2, THEN conjunct2, THEN conjunct1] r i p d m md nv ap
    by simp
  have lo: "fst (load sample 0 ''item'' (Str ''x'') (Some ''write'') deep) = Inr ReturnsThis
      \<and> (\<forall>n\<in>set [1, 2, 6]. children_of n (forest ?ww) = [Text ''x''])"
    using write_modes [where P = sample and w = deep and this = 0 and r = 0
        and ident = "''item''" and key = "''class''" and ice = "Str ''x''" and mode = "Some ''write''" and h = "Some ''x''"
        and ?w0.0 = deep,
        THEN conjunct2, THEN conjunct2, THEN conjunct2, THEN conjunct2, THEN conjunct2, THEN conjunct2, THEN conjunct2, THEN conjunct2, THEN conjunct2] r i p d b m md la ls lw ps
    by simp
  have l2: "\<forall>n\<in>set [1, 2, 6]. \<exists>k. children_of n (forest ?wl)
        = fst (relabel k (parse sample (read_html sample n (flag_loaded [1, 2, 6] deep) @ ''x'')))"
    using write_modes [where P = sample and w = deep and this = 0 and r = 0
        and ident = "''item''" and key = "''class''" and ice = "Str ''x''" and mode = "Some ''append''" and h = "Some ''x''"
        and ?w0.0 = deep,
        THEN conjunct2, THEN conjunct2, THEN conjunct2, THEN conjunct2, THEN conjunct2, THEN conjunct2, THEN conjunct2, THEN conjunct2, THEN conjunct2] r i p d b m md la ls lw
    by simp
  have l2': "children_of 2 (forest ?wl) = [Text ''ax'']"
    using l2 h2 ps by auto
  show ?thesis
    using tb tr r i p d b m c1 c2 c6 t t1 t2 t6 a v1 v2 v6 ab lo l2' by simp
qed

text \<open>
  C6 as stated fails: in mode \<open>remove\<close> a value that is no regular expression, such as
  \<open>(\<close>, gives no string at all. The call fails, and not with InvalidArgument.
\<close>

theorem write_modes_counterexample:
  "transform sample ''remove'' ''abc'' ''('' = Inl RegExpSyntaxError
   \<and> text_ice sample 0 ''item'' (Str ''('') (Some ''remove'') page = (Inl RegExpSyntaxError, page)
   \<and> failure_of RegExpSyntaxError \<noteq> InvalidArgument"
proof -
  have 1: "transform sample ''remove'' ''abc'' ''('' = Inl RegExpSyntaxError"
    by code_simp
  have 2: "text_ice sample 0 ''item'' (Str ''('') (Some ''remove'') page
      = (Inl RegExpSyntaxError, page)"
    by code_simp
  show ?thesis
    using 1 2 by simp
qed

lemma load_at_nodes:
  assumes s: "load_source P ice w = (h, w0)" and n: "fst (nodes P this ident w0) = Inl e"
  shows "load P this ident ice mode w = (Inl e, w0)"
proof -
  obtain w1 where n1: "nodes P this ident w0 = (Inl e, w1)"
    using n by (cases "nodes P this ident w0") auto
  have "w1 = w0"
    using nodes_fails_keeps [OF n1] .
  then show ?thesis
    by (simp add: load_def s n1)
qed

lemma load_source_plain: "(\<forall>other. ice \<noteq> Ice other) \<Longrightarrow> snd (load_source P ice w) = w"
  by (cases ice) (simp_all add: load_source_def)

lemma drop_all:
  assumes r: "root (engine w this) = Some r" and i: "ident \<noteq> []" and p: "plain_id ident"
  shows "fst (drop_ice P this ident True w) = Inr ReturnsThis
    \<and> (\<forall>n\<in>set (resolve r ident (forest w)). \<forall>r' sel.
          n \<notin> set (find_ids r' sel (forest (snd (drop_ice P this ident True w)))))"
proof -
  obtain w1 where n: "nodes P this ident w = (Inr (resolve r ident (forest w)), w1)"
    using nodes_open_eq [OF r i p] by blast
  show ?thesis
    by (simp add: drop_ice_def n removed_not_found)
qed

subsection \<open>A call that fails, and a call that completes\<close>

text \<open>
  C2, as the code has it. \<open>text\<close>, \<open>attr\<close> and \<open>drop\<close> either complete or fail with
  the world as it was: the mode is the same for every marker, so the \<open>switch\<close> throws at
  the first marker or never. \<open>load\<close> first reads its content, which changes nothing
  unless the content is another engine (whose getter \<open>html\<close> is then called); a
  failure of marker resolution leaves the world as that reading left it. After that
  \<open>load\<close> flags every resolved marker with \<open>data-ice-loaded\<close> before its loop starts:
  when it does not drop, has a marker, and the mode yields no value, it fails with the
  flags set on every marker and nothing else changed. These are its only failures.
  \<open>loop\<close> and \<open>into\<close> fail at their own checks of the arguments, the state and the id
  before any tree is touched. (What a callback that throws leaves behind is its own
  affair.) A call of \<open>text\<close>, \<open>attr\<close> or \<open>load\<close> that returns the instance, on an open
  instance with a plain id and a forest of distinct identities, has applied the
  transform to every resolved marker; \<open>drop\<close> has removed every resolved marker.
\<close>

theorem failure_and_the_world:
  "(fst (text_ice P this ident v mode w) = Inl e1 \<longrightarrow> snd (text_ice P this ident v mode w) = w)
   \<and> (fst (attr P this ident key v mode w) = Inl e2 \<longrightarrow> snd (attr P this ident key v mode w) = w)
   \<and> (fst (drop_ice P this ident isDrop w) = Inl e3 \<longrightarrow> snd (drop_ice P this ident isDrop w) = w)
   \<and> (fst (load P this ident ice mode w) = Inl e4 \<longrightarrow>
        snd (load P this ident ice mode w) = snd (load_source P ice w)
        \<or> (\<exists>ns. ns \<noteq> [] \<and> fst (nodes P this ident (snd (load_source P ice w))) = Inr ns
              \<and> \<not> load_mode_applies P (mode_or_default mode) (fst (load_source P ice w))
              \<and> snd (load P this ident ice mode w) = flag_loaded ns (snd (load_source P ice w))))
   \<and> (load_source P ice w = (h, w0) \<and> fst (nodes P this ident w0) = Inl e8 \<longrightarrow>
        load P this ident ice mode w = (Inl e8, w0))
   \<and> (load_source P ice w = (h, w0) \<and> fst (nodes P this ident w0) = Inr ns \<and> ns \<noteq> []
        \<and> \<not> (autoDrop (engine w0 this) \<and> (h = None \<or> h = Some []))
        \<and> \<not> load_mode_applies P (mode_or_default mode) h \<longrightarrow>
        load P this ident ice mode w =
          (Inl (if mode_or_default mode = ''remove'' then RegExpSyntaxError
                else UnknownMode (mode_or_default mode)), flag_loaded ns w0)
        \<and> (\<forall>n\<in>set ns. n \<in> set (ids (forest w0)) \<longrightarrow>
              read_attr n ''data-ice-loaded'' (snd (load P this ident ice mode w)) = Some ''1''))
   \<and> ((\<forall>other. ice \<noteq> Ice other) \<longrightarrow> snd (load_source P ice w) = w)
   \<and> load_source P (Ice other) w = html P other w
   \<and> ((\<forall>vs. vals \<noteq> Arr vs) \<longrightarrow> loop P this ident vals cb w = (Inl ValuesMustBeArray, w))
   \<and> (resolve_callback P ident cb = Inl e5 \<longrightarrow> loop P this ident (Arr vs) cb w = (Inl e5, w))
   \<and> (fst (nodes P this ident w) = Inl e6 \<longrightarrow>
        into P this ident v icb w = (Inl e6, w)
        \<and> (\<forall>f. resolve_callback P ident cb = Inr f \<longrightarrow> loop P this ident (Arr vs) cb w = (Inl e6, w)))
   \<and> (fst (into P this ident v NotFunction w) = Inl e7 \<longrightarrow>
        forest (snd (into P this ident v NotFunction w)) = forest w)
   \<and> (root (engine w this) = Some r \<and> ident \<noteq> [] \<and> plain_id ident
        \<and> distinct (ids (forest w)) \<longrightarrow>
        (fst (text_ice P this ident v mode w) = Inr ReturnsThis \<longrightarrow>
           (\<forall>n\<in>set (resolve r ident (forest w)).
              transform P (mode_or_default mode) (read_text n w) (to_string (normalize_value v))
                = Inr (read_text n (snd (text_ice P this ident v mode w)))))
        \<and> (fst (attr P this ident key v mode w) = Inr ReturnsThis \<longrightarrow>
           (\<forall>n\<in>set (resolve r ident (forest w)).
              transform P (mode_or_default mode)
                  (case read_attr n key w of None \<Rightarrow> [] | Some c \<Rightarrow> c)
                  (to_string (normalize_value v))
                = Inr (case read_attr n key (snd (attr P this ident key v mode w)) of
                         None \<Rightarrow> [] | Some c \<Rightarrow> c)))
        \<and> fst (drop_ice P this ident True w) = Inr ReturnsThis
        \<and> (\<forall>n\<in>set (resolve r ident (forest w)). \<forall>r' sel.
              n \<notin> set (find_ids r' sel (forest (snd (drop_ice P this ident True w))))))
   \<and> (load_source P ice w = (h, w0) \<and> root (engine w0 this) = Some r \<and> ident \<noteq> []
        \<and> plain_id ident \<and> distinct (ids (forest w0)) \<and> bounded w0
        \<and> fst (load P this ident ice mode w) = Inr ReturnsThis \<longrightarrow>
        (\<forall>n\<in>set (resolve r ident (forest w0)).
           \<exists>k. children_of n (forest (snd (load P this ident ice mode w))) =
             (case load_markup P (mode_or_default mode) h
                     (read_html P n (flag_loaded (resolve r ident (forest w0)) w0)) of
                None \<Rightarrow> [Text []]
              | Some t \<Rightarrow> fst (relabel k (parse P t)))))"
proof (intro conjI impI)
  show "snd (text_ice P this ident v mode w) = w" if "fst (text_ice P this ident v mode w) = Inl e1"
    using that by (rule text_fails)
  show "snd (attr P this ident key v mode w) = w" if "fst (attr P this ident key v mode w) = Inl e2"
    using that by (rule attr_fails)
  show "snd (drop_ice P this ident isDrop w) = w" if "fst (drop_ice P this ident isDrop w) = Inl e3"
    using that by (rule drop_fails)
  show "snd (load P this ident ice mode w) = snd (load_source P ice w)
        \<or> (\<exists>ns. ns \<noteq> [] \<and> fst (nodes P this ident (snd (load_source P ice w))) = Inr ns
              \<and> \<not> load_mode_applies P (mode_or_default mode) (fst (load_source P ice w))
              \<and> snd (load P this ident ice mode w) = flag_loaded ns (snd (load_source P ice w)))"
    if "fst (load P this ident ice mode w) = Inl e4"
    using that by (rule load_fails)
  show "load P this ident ice mode w = (Inl e8, w0)"
    if "load_source P ice w = (h, w0) \<and> fst (nodes P this ident w0) = Inl e8"
    using that load_at_nodes [of P ice w h w0 this ident e8 mode] by simp
  show "snd (load_source P ice w) = w" if "\<forall>other. ice \<noteq> Ice other"
    using that by (rule load_source_plain)
  show "load_source P (Ice other) w = html P other w"
    by (simp add: load_source_def)
  show "loop P this ident vals cb w = (Inl ValuesMustBeArray, w)" if "\<forall>vs. vals \<noteq> Arr vs"
    using that by (cases vals) (simp_all add: loop_def)
  show "loop P this ident (Arr vs) cb w = (Inl e5, w)" if "resolve_callback P ident cb = Inl e5"
    using that by (simp add: loop_def)
  show "into P this ident v icb w = (Inl e6, w)" if "fst (nodes P this ident w) = Inl e6"
    using that nodes_fails_keeps [of P this ident w e6 "snd (nodes P this ident w)"]
    by (cases "nodes P this ident w") (simp add: into_def)
  show "\<forall>f. resolve_callback P ident cb = Inr f \<longrightarrow> loop P this ident (Arr vs) cb w = (Inl e6, w)"
    if "fst (nodes P this ident w) = Inl e6"
    using that nodes_fails_keeps [of P this ident w e6 "snd (nodes P this ident w)"]
    by (cases "nodes P this ident w") (simp add: loop_def)
  show "forest (snd (into P this ident v NotFunction w)) = forest w"
    if "fst (into P this ident v NotFunction w) = Inl e7"
    using that nodes_keeps [of P this ident w "fst (nodes P this ident w)" "snd (nodes P this ident w)"]
    by (cases "nodes P this ident w")
      (auto simp: into_def split: sum.splits if_splits)
next
  assume a: "load_source P ice w = (h, w0) \<and> fst (nodes P this ident w0) = Inr ns \<and> ns \<noteq> []
        \<and> \<not> (autoDrop (engine w0 this) \<and> (h = None \<or> h = Some []))
        \<and> \<not> load_mode_applies P (mode_or_default mode) h"
  show st: "load P this ident ice mode w =
          (Inl (if mode_or_default mode = ''remove'' then RegExpSyntaxError
                else UnknownMode (mode_or_default mode)), flag_loaded ns w0)"
    using a load_stops [of P ice w h w0 this ident ns mode] by blast
  show "\<forall>n\<in>set ns. n \<in> set (ids (forest w0)) \<longrightarrow>
              read_attr n ''data-ice-loaded'' (snd (load P this ident ice mode w)) = Some ''1''"
    using flagged_each [of _ ns w0] by (simp add: st)
next
  assume a: "root (engine w this) = Some r \<and> ident \<noteq> [] \<and> plain_id ident
        \<and> distinct (ids (forest w))"
  then have r: "root (engine w this) = Some r" and i: "ident \<noteq> []" and p: "plain_id ident"
    and d: "distinct (ids (forest w))"
    by simp_all
  show "\<forall>n\<in>set (resolve r ident (forest w)).
              transform P (mode_or_default mode) (read_text n w) (to_string (normalize_value v))
                = Inr (read_text n (snd (text_ice P this ident v mode w)))"
    if "fst (text_ice P this ident v mode w) = Inr ReturnsThis"
    using text_completes [OF r i p d that] .
  show "\<forall>n\<in>set (resolve r ident (forest w)).
              transform P (mode_or_default mode)
                  (case read_attr n key w of None \<Rightarrow> [] | Some c \<Rightarrow> c)
                  (to_string (normalize_value v))
                = Inr (case read_attr n key (snd (attr P this ident key v mode w)) of
                         None \<Rightarrow> [] | Some c \<Rightarrow> c)"
    if "fst (attr P this ident key v mode w) = Inr ReturnsThis"
    using attr_completes [OF r i p d that] .
  show "fst (drop_ice P this ident True w) = Inr ReturnsThis"
    and "\<forall>n\<in>set (resolve r ident (forest w)). \<forall>r' sel.
              n \<notin> set (find_ids r' sel (forest (snd (drop_ice P this ident True w))))"
    using drop_all [OF r i p, of P] by simp_all
next
  assume a: "load_source P ice w = (h, w0) \<and> root (engine w0 this) = Some r \<and> ident \<noteq> []
        \<and> plain_id ident \<and> distinct (ids (forest w0)) \<and> bounded w0
        \<and> fst (load P this ident ice mode w) = Inr ReturnsThis"
  show "\<forall>n\<in>set (resolve r ident (forest w0)).
           \<exists>k. children_of n (forest (snd (load P this ident ice mode w))) =
             (case load_markup P (mode_or_default mode) h
                     (read_html P n (flag_loaded (resolve r ident (forest w0)) w0)) of
                None \<Rightarrow> [Text []]
              | Some t \<Rightarrow> fst (relabel k (parse P t)))"
    using a load_completes [of P ice w h w0 this r ident mode] by blast
qed


theorem failure_and_the_world_witness:
  "fst (text_ice sample 0 ''item'' (Str ''a'') (Some ''bogus'') page) = Inl (UnknownMode ''bogus'')
   \<and> snd (text_ice sample 0 ''item'' (Str ''a'') (Some ''bogus'') page) = page
   \<and> fst (attr sample 0 ''item'' ''class'' (Str ''a'') (Some ''bogus'') page)
      = Inl (UnknownMode ''bogus'')
   \<and> snd (attr sample 0 ''item'' ''class'' (Str ''a'') (Some ''bogus'') page) = page
   \<and> fst (drop_ice sample 0 [] True page) = Inl IdMustBeSpecified
   \<and> snd (drop_ice sample 0 [] True page) = page
   \<and> loop sample 0 ''item'' (Str ''a'') (Name ''text'') page = (Inl ValuesMustBeArray, page)
   \<and> loop sample 0 ''item'' (Arr [Str ''a'']) (Name ''json'') page
      = (Inl (UnknownCallback ''json''), page)
   \<and> into sample 0 [] (Str ''a'') NotFunction page = (Inl IdMustBeSpecified, page)
   \<and> fst (into sample 0 ''item'' (Str ''a'') NotFunction page) = Inl CallbackMustBeFunction
   \<and> forest (snd (into sample 0 ''item'' (Str ''a'') NotFunction page)) = forest page
   \<and> load_source sample (Str ''x'') page = (Some ''x'', page)
   \<and> load sample 0 [] (Str ''x'') None page = (Inl IdMustBeSpecified, page)
   \<and> fst (nodes sample 0 ''item'' page) = Inr [2]
   \<and> \<not> load_mode_applies sample ''bogus'' (Some ''x'')
   \<and> load sample 0 ''item'' (Str ''x'') (Some ''bogus'') page
        = (Inl (UnknownMode ''bogus''), flag_loaded [2] page)
   \<and> read_attr 2 ''data-ice-loaded''
        (snd (load sample 0 ''item'' (Str ''x'') (Some ''bogus'') page)) = Some ''1''
   \<and> root (engine page 0) = Some 0 \<and> plain_id ''item'' \<and> distinct (ids (forest page))
   \<and> bounded page \<and> resolve 0 ''item'' (forest page) = [2]
   \<and> fst (text_ice sample 0 ''item'' (Str ''a'') None page) = Inr ReturnsThis
   \<and> read_text 2 (snd (text_ice sample 0 ''item'' (Str ''a'') None page)) = ''a''
   \<and> fst (attr sample 0 ''item'' ''class'' (Str ''a'') None page) = Inr ReturnsThis
   \<and> read_attr 2 ''class'' (snd (attr sample 0 ''item'' ''class'' (Str ''a'') None page))
        = Some ''a''
   \<and> fst (load sample 0 ''item'' (Str ''x'') (Some ''write'') page) = Inr ReturnsThis
   \<and> children_of 2 (forest (snd (load sample 0 ''item'' (Str ''x'') (Some ''write'') page)))
        = [Text ''x'']
   \<and> 2 \<notin> set (find_ids 0 (data_ice ''item'') (forest (snd (drop_ice sample 0 ''item'' True page))))"
proof -
  have t: "fst (text_ice sample 0 ''item'' (Str ''a'') (Some ''bogus'') page)
      = Inl (UnknownMode ''bogus'')"
    by code_simp
  have a: "fst (attr sample 0 ''item'' ''class'' (Str ''a'') (Some ''bogus'') page)
      = Inl (UnknownMode ''bogus'')"
    by code_simp
  have d: "fst (drop_ice sample 0 [] True page) = Inl IdMustBeSpecified"
    by code_simp
  have c: "resolve_callback sample ''item'' (Name ''json'') = Inl (UnknownCallback ''json'')"
    by (simp add: resolve_callback_def)
  have n: "fst (nodes sample 0 [] page) = Inl IdMustBeSpecified"
    by code_simp
  have i: "fst (into sample 0 ''item'' (Str ''a'') NotFunction page) = Inl CallbackMustBeFunction"
    by code_simp
  have ls: "load_source sample (Str ''x'') page = (Some ''x'', page)"
    by (simp add: load_source_def)
  have ns: "fst (nodes sample 0 ''item'' page) = Inr [2]"
    by code_simp
  have nm: "\<not> load_mode_applies sample ''bogus'' (Some ''x'')"
    by (simp add: load_mode_applies_def)
  have md: "mode_or_default (Some ''bogus'') = ''bogus''" "mode_or_default None = ''append''"
    "mode_or_default (Some ''write'') = ''write''"
    by (simp_all add: mode_or_default_def)
  have r: "root (engine page 0) = Some 0" and ad: "autoDrop (engine page 0)"
    by (simp_all add: page_def engine_def)
  have p: "''item'' \<noteq> [] \<and> plain_id ''item''"
    by (simp add: plain_id_def)
  have di: "distinct (ids (forest page))" and b: "bounded page"
    and in2: "2 \<in> set (ids (forest page))"
    by (simp_all add: page_def bounded_def)
  have m: "resolve 0 ''item'' (forest page) = [2]"
    by code_simp
  have tc: "fst (text_ice sample 0 ''item'' (Str ''a'') None page) = Inr ReturnsThis"
    by code_simp
  have ac: "fst (attr sample 0 ''item'' ''class'' (Str ''a'') None page) = Inr ReturnsThis"
    by code_simp
  have lc: "fst (load sample 0 ''item'' (Str ''x'') (Some ''write'') page) = Inr ReturnsThis"
    by code_simp
  have c0: "read_text 2 page = []" and a0: "read_attr 2 ''class'' page = None"
    by code_simp+
  have nv: "to_string (normalize_value (Str ''a'')) = ''a''"
    by (simp add: normalize_value_def)
  have ta: "transform sample ''append'' [] ''a'' = Inr ''a''"
    by (simp add: transform_def)
  have lw: "load_markup sample ''write'' (Some ''x'') c = Some ''x''" for c
    by (simp add: load_markup_def)
  have ps: "fst (relabel k (parse sample ''x'')) = [Text ''x'']" for k
    by (simp add: sample_def)
  note T = failure_and_the_world [where P = sample and this = 0 and w = page
      and v = "Str ''a''" and mode = "Some ''bogus''" and key = "''class''" and isDrop = True
      and vs = "[Str ''a'']"]
  have 1: "snd (text_ice sample 0 ''item'' (Str ''a'') (Some ''bogus'') page) = page"
    using t T [where ident = "''item''", THEN conjunct1] by simp
  have 2: "snd (attr sample 0 ''item'' ''class'' (Str ''a'') (Some ''bogus'') page) = page"
    using a T [where ident = "''item''", THEN conjunct2, THEN conjunct1] by simp
  have 3: "snd (drop_ice sample 0 [] True page) = page"
    using d T [where ident = "[]", THEN conjunct2, THEN conjunct2, THEN conjunct1] by simp
  have 4: "loop sample 0 ''item'' (Str ''a'') (Name ''text'') page = (Inl ValuesMustBeArray, page)"
    using T [where ident = "''item''" and vals = "Str ''a''" and cb = "Name ''text''",
        THEN conjunct2, THEN conjunct2, THEN conjunct2, THEN conjunct2, THEN conjunct2, THEN conjunct2, THEN conjunct2, THEN conjunct2, THEN conjunct1] by simp
  have 5: "loop sample 0 ''item'' (Arr [Str ''a'']) (Name ''json'') page
      = (Inl (UnknownCallback ''json''), page)"
    using c T [where ident = "''item''" and cb = "Name ''json''", THEN conjunct2, THEN conjunct2, THEN conjunct2, THEN conjunct2, THEN conjunct2, THEN conjunct2, THEN conjunct2, THEN conjunct2, THEN conjunct2, THEN conjunct1] by simp
  have 6: "into sample 0 [] (Str ''a'') NotFunction page = (Inl IdMustBeSpecified, page)"
    using n T [where ident = "[]" and icb = NotFunction, THEN conjunct2, THEN conjunct2, THEN conjunct2, THEN conjunct2, THEN conjunct2, THEN conjunct2, THEN conjunct2, THEN conjunct2, THEN conjunct2, THEN conjunct2, THEN conjunct1] by simp
  have 7: "forest (snd (into sample 0 ''item'' (Str ''a'') NotFunction page)) = forest page"
    using i T [where ident = "''item''", THEN conjunct2, THEN conjunct2, THEN conjunct2, THEN conjunct2, THEN conjunct2, THEN conjunct2, THEN conjunct2, THEN conjunct2, THEN conjunct2, THEN conjunct2, THEN conjunct2, THEN conjunct1] by simp
  have 8: "load sample 0 [] (Str ''x'') None page = (Inl IdMustBeSpecified, page)"
    using n ls failure_and_the_world [where P = sample and this = 0 and w = page
        and ident = "[]" and ice = "Str ''x''" and h = "Some ''x''" and ?w0.0 = page
        and mode = None, THEN conjunct2, THEN conjunct2, THEN conjunct2, THEN conjunct2, THEN conjunct1] by simp
  have 9: "load sample 0 ''item'' (Str ''x'') (Some ''bogus'') page
        = (Inl (UnknownMode ''bogus''), flag_loaded [2] page)
      \<and> read_attr 2 ''data-ice-loaded''
        (snd (load sample 0 ''item'' (Str ''x'') (Some ''bogus'') page)) = Some ''1''"
    using ls ns nm md in2 failure_and_the_world [where P = sample and this = 0 and w = page
        and ident = "''item''" and ice = "Str ''x''" and h = "Some ''x''" and ?w0.0 = page
        and mode = "Some ''bogus''" and ns = "[2]", THEN conjunct2, THEN conjunct2, THEN conjunct2, THEN conjunct2, THEN conjunct2, THEN conjunct1] by auto
  note C = failure_and_the_world [where P = sample and this = 0 and w = page
        and ident = "''item''" and r = 0 and v = "Str ''a''" and mode = None
        and key = "''class''", THEN conjunct2, THEN conjunct2, THEN conjunct2, THEN conjunct2, THEN conjunct2, THEN conjunct2, THEN conjunct2, THEN conjunct2, THEN conjunct2, THEN conjunct2, THEN conjunct2, THEN conjunct2, THEN conjunct1]
  have 10: "read_text 2 (snd (text_ice sample 0 ''item'' (Str ''a'') None page)) = ''a''"
    using C r p di m tc md nv c0 ta by simp
  have 11: "read_attr 2 ''class'' (snd (attr sample 0 ''item'' ''class'' (Str ''a'') None page))
        = Some ''a''"
  proof -
    have "Inr ''a'' = (Inr (case read_attr 2 ''class''
        (snd (attr sample 0 ''item'' ''class'' (Str ''a'') None page)) of
          None \<Rightarrow> [] | Some c \<Rightarrow> c) :: error + string)"
      using C r p di m ac md nv a0 ta by simp
    then show ?thesis
      by (cases "read_attr 2 ''class''
        (snd (attr sample 0 ''item'' ''class'' (Str ''a'') None page))") simp_all
  qed
  have 12: "2 \<notin> set (find_ids 0 (data_ice ''item'')
      (forest (snd (drop_ice sample 0 ''item'' True page))))"
    using C r p di m by simp
  have 13: "children_of 2 (forest (snd (load sample 0 ''item'' (Str ''x'') (Some ''write'') page)))
        = [Text ''x'']"
    using ls r p di b m lc md lw ps failure_and_the_world [where P = sample and this = 0
        and w = page and ident = "''item''" and r = 0 and ice = "Str ''x''" and h = "Some ''x''"
        and ?w0.0 = page and mode = "Some ''write''", THEN conjunct2, THEN conjunct2, THEN conjunct2, THEN conjunct2, THEN conjunct2, THEN conjunct2, THEN conjunct2, THEN conjunct2, THEN conjunct2, THEN conjunct2, THEN conjunct2, THEN conjunct2, THEN conjunct2] by simp
  have la9: "load sample 0 ''item'' (Str ''x'') (Some ''bogus'') page
        = (Inl (UnknownMode ''bogus''), flag_loaded [2] page)"
    and lb9: "read_attr 2 ''data-ice-loaded''
        (snd (load sample 0 ''item'' (Str ''x'') (Some ''bogus'') page)) = Some ''1''"
    using 9 by blast+
  show ?thesis
    using t a d i 1 2 3 4 5 6 7 8 lb9 ls ns nm r p di b m tc ac lc 10 11 12 13
    by (simp add: la9 [symmetric])
qed

text \<open>
  C2 as stated fails: \<open>load\<close> with an unknown mode fails on the sample page, and the
  marker, which carried no \<open>data-ice-loaded\<close> before, carries it afterwards.
\<close>

theorem failure_and_the_world_counterexample:
  "fst (load sample 0 ''item'' (Str ''x'') (Some ''bogus'') page) = Inl (UnknownMode ''bogus'')
   \<and> read_attr 2 ''data-ice-loaded'' page = None
   \<and> read_attr 2 ''data-ice-loaded'' (snd (load sample 0 ''item'' (Str ''x'') (Some ''bogus'') page))
      = Some ''1''"
  by code_simp

end
